(* ===== verification/Prelude.thy ===== *)
theory Prelude
  imports Main "HOL-Library.AList" "HOL-Library.Multiset" "HOL-Library.Word"
begin

text \<open>
  Shared ground of the development: Go's 64-bit integers, Go's maps with their unspecified
  iteration order, and the readings of the outside world (clock, iteration choices) that one
  operation makes. Nothing here is specific to one component of the server.
\<close>

named_theorems int64_simps \<open>facts on 64-bit integers\<close>
named_theorems gomap_simps \<open>facts on Go maps kept as association lists\<close>

section \<open>64-bit integers\<close>

text \<open>
  Go's \<open>int64\<close>, \<open>int\<close> (on a 64-bit target) and \<open>time.Duration\<close> are kept as \<open>int\<close> with the
  wrap-around written out where the source can overflow.
\<close>

abbreviation min_int64 :: int where "min_int64 \<equiv> - 9223372036854775808"
abbreviation max_int64 :: int where "max_int64 \<equiv> 9223372036854775807"

definition in_int64 :: "int \<Rightarrow> bool" where
  "in_int64 x \<longleftrightarrow> min_int64 \<le> x \<and> x \<le> max_int64"

definition wrap64 :: "int \<Rightarrow> int" where
  "wrap64 x = (x + 9223372036854775808) mod 18446744073709551616 - 9223372036854775808"

definition sat64 :: "int \<Rightarrow> int" where
  "sat64 x = max min_int64 (min max_int64 x)"

lemma wrap64_in_int64 [simp, int64_simps]: "in_int64 (wrap64 x)"
  using pos_mod_bound [of 18446744073709551616 "x + 9223372036854775808"]
    pos_mod_sign [of 18446744073709551616 "x + 9223372036854775808"]
  unfolding in_int64_def wrap64_def by linarith

lemma wrap64_id [simp, int64_simps]: "in_int64 x \<Longrightarrow> wrap64 x = x"
  unfolding in_int64_def wrap64_def by (simp add: mod_pos_pos_trivial)

lemma sat64_in_int64 [simp, int64_simps]: "in_int64 (sat64 x)"
  unfolding in_int64_def sat64_def by auto

lemma sat64_id [simp, int64_simps]: "in_int64 x \<Longrightarrow> sat64 x = x"
  unfolding in_int64_def sat64_def by auto

text \<open>The wrap-around is the one of a 64-bit machine word read as two's complement.\<close>

lemma wrap64_above:
  assumes "max_int64 < x" and "x \<le> max_int64 + 18446744073709551616"
  shows "wrap64 x = x - 18446744073709551616"
proof -
  let ?y = "x + 9223372036854775808 - 18446744073709551616"
  have "(x + 9223372036854775808) mod 18446744073709551616 = ?y mod 18446744073709551616"
    by (simp only: minus_mod_self2)
  also have "\<dots> = ?y" using assms by (intro mod_pos_pos_trivial) simp_all
  finally show ?thesis by (simp add: wrap64_def)
qed

text \<open>The wrap-around is the one of 64-bit machine words.\<close>

lemma wrap64_word: "wrap64 x = sint (word_of_int x :: 64 word)"
proof -
  have "sint (word_of_int x :: 64 word) = signed_take_bit 63 x"
    by (simp add: sint_sbintrunc')
  also have "\<dots> = take_bit 64 (x + 2 ^ 63) - 2 ^ 63"
    by (simp add: signed_take_bit_eq_take_bit_shift)
  also have "\<dots> = wrap64 x"
    by (simp add: wrap64_def take_bit_eq_mod)
  finally show ?thesis by simp
qed

section \<open>Go maps\<close>

text \<open>
  A Go map is an association list with distinct keys: \<^term>\<open>map_of\<close> reads it, \<^term>\<open>AList.update\<close>
  and \<^term>\<open>AList.delete\<close> write it. The order of the list carries no meaning for the source: every
  \<open>range\<close> over a map goes through \<open>go_range\<close>, which visits the entries in the order a sequence of
  choices selects. Every choice sequence gives a permutation and every permutation is given by
  one, so a statement for all choices is a statement for all iteration orders.
\<close>

type_synonym ('k, 'v) gomap = "('k \<times> 'v) list"

abbreviation gomap_ok :: "('k, 'v) gomap \<Rightarrow> bool" where
  "gomap_ok m \<equiv> distinct (map fst m)"

declare map_of_eq_Some_iff [simp del] Some_eq_map_of_iff [simp del] map_of_is_SomeI [simp del]

type_synonym choices = "nat list"

fun go_range :: "choices \<Rightarrow> 'a list \<Rightarrow> 'a list" where
  "go_range [] xs = xs"
| "go_range (c # cs) [] = []"
| "go_range (c # cs) (x # xs) =
     (let i = c mod Suc (length xs)
      in ((x # xs) ! i) # go_range cs (take i (x # xs) @ drop (Suc i) (x # xs)))"

lemma mset_remove_nth:
  "i < length xs \<Longrightarrow> add_mset (xs ! i) (mset (take i xs @ drop (Suc i) xs)) = mset xs"
  by (metis add_mset_add_single id_take_nth_drop mset.simps(2) mset_append union_mset_add_mset_right)

lemma mset_go_range [simp]: "mset (go_range cs xs) = mset xs"
proof (induction cs xs rule: go_range.induct)
  case (3 c cs x xs)
  have "c mod Suc (length xs) < length (x # xs)" by simp
  from mset_remove_nth [OF this] 3 [OF refl] show ?case
    by (simp add: Let_def)
qed simp_all

lemma set_go_range [simp]: "set (go_range cs xs) = set xs"
  by (metis mset_go_range set_mset_mset)

lemma length_go_range [simp]: "length (go_range cs xs) = length xs"
  by (metis mset_go_range size_mset)

lemma distinct_go_range [simp]: "distinct (go_range cs xs) = distinct xs"
  by (metis mset_go_range mset_eq_imp_distinct_iff)

lemma distinct_map_go_range [simp]:
  "distinct (map f (go_range cs xs)) = distinct (map f xs)"
  by (metis mset_eq_imp_distinct_iff mset_go_range mset_map)

lemma map_of_go_range [simp]:
  "gomap_ok m \<Longrightarrow> map_of (go_range cs m) = map_of m"
  by (metis distinct_map_go_range map_of_inject_set set_go_range)

text \<open>Every order of an iteration is one of the choices.\<close>

lemma go_range_covers:
  "mset ys = mset xs \<Longrightarrow> \<exists>cs. go_range cs xs = ys"
proof (induction ys arbitrary: xs)
  case Nil
  then show ?case by (intro exI [of _ "[]"]) simp
next
  case (Cons y ys)
  then have "y \<in> set xs" by (metis list.set_intros(1) mset_eq_setD)
  then obtain i where i: "i < length xs" "xs ! i = y" by (auto simp: in_set_conv_nth)
  let ?r = "take i xs @ drop (Suc i) xs"
  have "add_mset y (mset ?r) = add_mset y (mset ys)"
    using mset_remove_nth [OF i(1)] i(2) Cons.prems by simp
  then have "mset ys = mset ?r" by simp
  from Cons.IH [OF this] obtain cs where cs: "go_range cs ?r = ys" by blast
  obtain z zs where xs: "xs = z # zs" using i(1) by (cases xs) auto
  have "i mod Suc (length zs) = i" using i(1) xs by simp
  with cs i(2) have "go_range (i # cs) xs = y # ys"
    by (simp add: xs Let_def)
  then show ?case by blast
qed

lemma gomap_ok_update [simp, gomap_simps]: "gomap_ok m \<Longrightarrow> gomap_ok (AList.update k v m)"
  by (rule distinct_update)

lemma gomap_ok_delete [simp, gomap_simps]: "gomap_ok m \<Longrightarrow> gomap_ok (AList.delete k m)"
  by (rule distinct_delete)

lemma map_of_update [simp, gomap_simps]: "map_of (AList.update k v m) = (map_of m)(k \<mapsto> v)"
  by (rule update_conv')

lemma map_of_delete [simp, gomap_simps]: "map_of (AList.delete k m) = (map_of m)(k := None)"
  by (rule delete_conv')

lemma gomap_empty_iff: "m = [] \<longleftrightarrow> map_of m = Map.empty"
  by (cases m) (auto simp: fun_eq_iff split: if_splits)

lemma length_gomap: "gomap_ok m \<Longrightarrow> length m = card (dom (map_of m))"
  by (metis distinct_card dom_map_of_conv_image_fst length_map list.set_map)

lemma fst_set_update: "fst ` set (AList.update k v m) = insert k (fst ` set m)"
  by (metis dom_fun_upd dom_map_of_conv_image_fst map_of_update option.distinct(1))

lemma fst_set_delete: "fst ` set (AList.delete k m) = fst ` set m - {k}"
  by (metis dom_fun_upd dom_map_of_conv_image_fst map_of_delete)

lemma length_gomap_delete:
  assumes "gomap_ok m" and "k \<in> fst ` set m"
  shows "length m = Suc (length (AList.delete k m))"
  using assms
proof (induction m)
  case (Cons kv m)
  then show ?case by (cases "fst kv = k") (auto simp: delete_id)
qed simp

section \<open>Readings of the outside world\<close>

text \<open>
  One call of an operation reads the clock and iterates maps at points of its code. An \<open>env\<close>
  fixes what it sees there: \<open>clock e i\<close> is the \<open>i\<close>-th reading of \<open>time.Now()\<close> (nanoseconds), and
  \<open>iter e p\<close> the choices of the \<open>range\<close> loop at position \<open>p\<close> of the operation. No relation
  between readings is assumed unless a theorem says so.
\<close>

record env =
  clock :: "nat \<Rightarrow> int"
  iter :: "nat list \<Rightarrow> choices"

definition later :: "env \<Rightarrow> nat \<Rightarrow> env" where
  "later e i = e\<lparr>clock := (\<lambda>j. clock e (i + j))\<rparr>"

definition at_time :: "int \<Rightarrow> env" where
  "at_time t = \<lparr>clock = (\<lambda>_. t), iter = (\<lambda>_. [])\<rparr>"

lemma clock_later [simp]: "clock (later e i) j = clock e (i + j)"
  by (simp add: later_def)

lemma iter_later [simp]: "iter (later e i) = iter e"
  by (simp add: later_def)

lemma clock_at_time [simp]: "clock (at_time t) i = t"
  by (simp add: at_time_def)

lemma iter_at_time [simp]: "iter (at_time t) p = []"
  by (simp add: at_time_def)

end
