(* ===== verification/Mailbox.thy ===== *)
theory Mailbox
  imports Prelude
begin

text \<open>
  Buffered Go channels used as mailboxes. Both fan-out paths of the server, \<open>PUBLISH\<close> to
  subscribers and write propagation to replicas, send without blocking into channels of a fixed
  capacity and drop what does not fit. This theory is that shared piece: the channel, the
  non-blocking send, and the interface the two registries are proved against.
\<close>

section \<open>Channels\<close>

record 'm chan =
  buffer :: "'m list"
  closed :: bool

definition make_chan :: "'m chan" where
  "make_chan = \<lparr>buffer = [], closed = False\<rparr>"

text \<open>
  \<open>select { case ch <- m: ...; default: ... }\<close> on a channel of capacity \<open>cap\<close>: a send on a closed
  channel panics, a full buffer takes the default branch.
\<close>

datatype 'm sent = Sent "'m chan" | Dropped | SendPanic

definition try_send :: "nat \<Rightarrow> 'm chan \<Rightarrow> 'm \<Rightarrow> 'm sent" where
  "try_send cap ch m =
     (if closed ch then SendPanic
      else if length (buffer ch) < cap then Sent (ch\<lparr>buffer := buffer ch @ [m]\<rparr>)
      else Dropped)"

text \<open>The receive end: a \<open>range\<close> loop takes the next message, or ends on a closed, drained channel.\<close>

datatype 'm received = Received 'm "'m chan" | Drained | Blocked

definition recv :: "'m chan \<Rightarrow> 'm received" where
  "recv ch = (case buffer ch of
      m # ms \<Rightarrow> Received m (ch\<lparr>buffer := ms\<rparr>)
    | [] \<Rightarrow> if closed ch then Drained else Blocked)"

definition close_chan :: "'m chan \<Rightarrow> 'm chan" where
  "close_chan ch = ch\<lparr>closed := True\<rparr>"

lemma try_send_cases:
  "try_send cap ch m = Sent ch' \<longleftrightarrow>
     \<not> closed ch \<and> length (buffer ch) < cap \<and> ch' = ch\<lparr>buffer := buffer ch @ [m]\<rparr>"
  "try_send cap ch m = Dropped \<longleftrightarrow> \<not> closed ch \<and> cap \<le> length (buffer ch)"
  "try_send cap ch m = SendPanic \<longleftrightarrow> closed ch"
  by (auto simp: try_send_def)

section \<open>Fan-out over a heap of channels\<close>

text \<open>
  Receivers are pointers: a map from addresses to channels. \<open>fan_out\<close> is the body of both loops,
  \<open>for _, r := range receivers { select ... }\<close>: it returns the new heap, how many received the
  message, and whether a send hit a closed channel.
\<close>

type_synonym 'm heap = "nat \<rightharpoonup> 'm chan"

fun fan_out :: "nat \<Rightarrow> 'm \<Rightarrow> nat list \<Rightarrow> 'm heap \<Rightarrow> 'm heap \<times> nat \<times> bool" where
  "fan_out cap m [] h = (h, 0, False)"
| "fan_out cap m (r # rs) h =
     (case h r of
        None \<Rightarrow> (h, 0, True)
      | Some ch \<Rightarrow>
          (case try_send cap ch m of
             SendPanic \<Rightarrow> (h, 0, True)
           | Dropped \<Rightarrow> fan_out cap m rs h
           | Sent ch' \<Rightarrow>
               (case fan_out cap m rs (h(r \<mapsto> ch')) of (h', n, pan) \<Rightarrow> (h', Suc n, pan))))"

definition heap_bounded :: "nat \<Rightarrow> 'm heap \<Rightarrow> bool" where
  "heap_bounded cap h \<longleftrightarrow> (\<forall>r ch. h r = Some ch \<longrightarrow> length (buffer ch) \<le> cap)"

definition all_open :: "'m heap \<Rightarrow> nat set \<Rightarrow> bool" where
  "all_open h R \<longleftrightarrow> (\<forall>r\<in>R. \<exists>ch. h r = Some ch \<and> \<not> closed ch)"

definition has_room :: "nat \<Rightarrow> 'm heap \<Rightarrow> nat \<Rightarrow> bool" where
  "has_room cap h r = (case h r of None \<Rightarrow> False | Some ch \<Rightarrow> length (buffer ch) < cap)"

text \<open>Receiving from one channel keeps the heap in order.\<close>

lemma recv_chan: "recv ch = Received x ch' \<Longrightarrow> closed ch' = closed ch \<and> length (buffer ch') \<le> length (buffer ch)"
  by (auto simp: recv_def split: list.splits if_splits)

lemma heap_recv:
  assumes "h r = Some ch" and "recv ch = Received x ch'"
  shows "heap_bounded cap h \<Longrightarrow> heap_bounded cap (h(r \<mapsto> ch'))" and "all_open h R \<Longrightarrow> all_open (h(r \<mapsto> ch')) R"
    and "dom (h(r \<mapsto> ch')) = dom h"
  using assms recv_chan [OF assms(2)] by (force simp: heap_bounded_def all_open_def)+

lemma fan_out_dom: "fan_out cap m rs h = (h', n, pan) \<Longrightarrow> dom h' = dom h"
proof (induction rs arbitrary: h h' n pan)
  case (Cons r rs)
  show ?case
  proof (cases "h r")
    case (Some ch)
    show ?thesis
    proof (cases "try_send cap ch m")
      case (Sent ch')
      with Some Cons.prems obtain n' where "fan_out cap m rs (h(r \<mapsto> ch')) = (h', n', pan)"
        by (auto split: prod.splits)
      then have "dom h' = dom (h(r \<mapsto> ch'))" by (rule Cons.IH)
      with Some show ?thesis by (simp add: insert_absorb domI)
    qed (use Some Cons in auto)
  qed (use Cons.prems in simp)
qed simp

lemma fan_out_bounded:
  "fan_out cap m rs h = (h', n, pan) \<Longrightarrow> heap_bounded cap h \<Longrightarrow> heap_bounded cap h'"
proof (induction rs arbitrary: h h' n pan)
  case (Cons r rs)
  have "heap_bounded cap (h(r \<mapsto> ch'))" if "h r = Some ch" "try_send cap ch m = Sent ch'" for ch ch'
    using that Cons.prems(2) by (auto simp: heap_bounded_def try_send_cases)
  with Cons show ?case
    by (auto split: option.splits sent.splits prod.splits)
qed simp

text \<open>
  What one fan-out does to one receiver, when nobody is closed and nobody is listed twice: an
  addressed receiver with room gets the message at the end of its buffer, every other channel is
  as before, and the count is the number of addressed receivers with room.
\<close>

lemma fan_out_spec:
  assumes "all_open h (set rs)" and "distinct rs" and "fan_out cap m rs h = (h', n, pan)"
  shows "\<not> pan \<and> n = length (filter (has_room cap h) rs) \<and>
    (\<forall>r. h' r = (if r \<in> set rs \<and> has_room cap h r
                  then map_option (\<lambda>ch. ch\<lparr>buffer := buffer ch @ [m]\<rparr>) (h r) else h r))"
  using assms
proof (induction rs arbitrary: h h' n pan)
  case Nil
  then show ?case by simp
next
  case (Cons r rs)
  from Cons.prems(1) obtain ch where ch: "h r = Some ch" "\<not> closed ch"
    and rest: "all_open h (set rs)" by (auto simp: all_open_def)
  show ?case
  proof (cases "length (buffer ch) < cap")
    case True
    define h1 where "h1 = h(r \<mapsto> ch\<lparr>buffer := buffer ch @ [m]\<rparr>)"
    obtain n' where f: "fan_out cap m rs h1 = (h', n', pan)" and n: "n = Suc n'"
      using Cons.prems(3) ch True by (auto simp: try_send_def h1_def split: prod.splits)
    have "all_open h1 (set rs)" using rest ch by (auto simp: all_open_def h1_def)
    note IH = Cons.IH [OF this _ f]
    have same: "r' \<in> set rs \<Longrightarrow> h1 r' = h r' \<and> has_room cap h1 r' = has_room cap h r'" for r'
      using Cons.prems(2) by (auto simp: h1_def has_room_def)
    then have "filter (has_room cap h1) rs = filter (has_room cap h) rs"
      by (intro filter_cong) auto
    with IH Cons.prems(2) have n': "\<not> pan" "n' = length (filter (has_room cap h) rs)"
      and h': "h' r' = (if r' \<in> set rs \<and> has_room cap h1 r'
        then map_option (\<lambda>ch. ch\<lparr>buffer := buffer ch @ [m]\<rparr>) (h1 r') else h1 r')" for r' by simp_all
    have r: "has_room cap h r" using ch True by (simp add: has_room_def)
    have "h' r' = (if r' \<in> set (r # rs) \<and> has_room cap h r'
        then map_option (\<lambda>ch. ch\<lparr>buffer := buffer ch @ [m]\<rparr>) (h r') else h r')" for r'
      using same [of r'] Cons.prems(2) r ch by (cases "r' = r") (auto simp: h' h1_def)
    with n n' r show ?thesis by simp
  next
    case False
    then have s: "try_send cap ch m = Dropped" using ch by (simp add: try_send_cases)
    then have f: "fan_out cap m rs h = (h', n, pan)" using Cons.prems(3) ch by simp
    have r: "\<not> has_room cap h r" using ch False by (simp add: has_room_def)
    from Cons.IH [OF rest _ f] Cons.prems(2) have IH: "\<not> pan" "n = length (filter (has_room cap h) rs)"
      "\<And>r'. h' r' = (if r' \<in> set rs \<and> has_room cap h r'
        then map_option (\<lambda>ch. ch\<lparr>buffer := buffer ch @ [m]\<rparr>) (h r') else h r')" by simp_all
    have "(r' \<in> set (r # rs) \<and> has_room cap h r') = (r' \<in> set rs \<and> has_room cap h r')" for r'
      using r by auto
    with IH r show ?thesis by simp
  qed
qed

end
