(* ===== verification/Broker.thy ===== *)
theory Broker
  imports Mailbox
begin

text \<open>
  The pub/sub message bus, \<open>internal/db/pubsub.go\<close>: a registry from channel names to subscriber
  pointers, and the subscribers' mailboxes on an explicit heap. A panic of the process (a send on
  or a close of a closed mailbox) is recorded in the field \<open>crashed\<close>.
\<close>

section \<open>State and operations\<close>

abbreviation subMailboxCap :: nat where "subMailboxCap \<equiv> 256"

record message =
  msg_Channel :: string
  msg_Payload :: string

record broker =
  subs :: "(string, nat list) gomap"
  mailboxes :: "message heap"
  next_sub :: nat
  crashed :: bool

definition NewBroker :: broker where
  "NewBroker = \<lparr>subs = [], mailboxes = Map.empty, next_sub = 0, crashed = False\<rparr>"

definition NewSubscriber :: "broker \<Rightarrow> broker \<times> nat" where
  "NewSubscriber b =
     (b\<lparr>mailboxes := (mailboxes b)(next_sub b \<mapsto> make_chan), next_sub := Suc (next_sub b)\<rparr>,
      next_sub b)"

text \<open>Reading a missing key of the map gives the nil slice.\<close>

definition subs_of :: "broker \<Rightarrow> string \<Rightarrow> nat list" where
  "subs_of b ch = (case map_of (subs b) ch of None \<Rightarrow> [] | Some l \<Rightarrow> l)"

definition Subscribe :: "broker \<Rightarrow> string \<Rightarrow> nat \<Rightarrow> broker" where
  "Subscribe b ch sub = b\<lparr>subs := AList.update ch (subs_of b ch @ [sub]) (subs b)\<rparr>"

fun first_index :: "'a \<Rightarrow> 'a list \<Rightarrow> nat option" where
  "first_index x [] = None"
| "first_index x (y # ys) = (if y = x then Some 0 else map_option Suc (first_index x ys))"

definition Unsubscribe :: "broker \<Rightarrow> string \<Rightarrow> nat \<Rightarrow> broker" where
  "Unsubscribe b ch sub =
     (let list = subs_of b ch;
          b1 = (case first_index sub list of
                  None \<Rightarrow> b
                | Some i \<Rightarrow> b\<lparr>subs := AList.update ch (butlast (list[i := last list])) (subs b)\<rparr>)
      in if subs_of b1 ch = [] then b1\<lparr>subs := AList.delete ch (subs b1)\<rparr> else b1)"

definition Publish :: "broker \<Rightarrow> string \<Rightarrow> string \<Rightarrow> broker \<times> nat" where
  "Publish b ch payload =
     (case fan_out subMailboxCap \<lparr>msg_Channel = ch, msg_Payload = payload\<rparr> (subs_of b ch) (mailboxes b) of
        (h, delivered, pan) \<Rightarrow> (b\<lparr>mailboxes := h, crashed := crashed b \<or> pan\<rparr>, delivered))"

definition CloseSub :: "broker \<Rightarrow> nat \<Rightarrow> broker" where
  "CloseSub b sub =
     (case mailboxes b sub of
        None \<Rightarrow> b\<lparr>crashed := True\<rparr>
      | Some ch \<Rightarrow> if closed ch then b\<lparr>crashed := True\<rparr>
                   else b\<lparr>mailboxes := (mailboxes b)(sub \<mapsto> close_chan ch)\<rparr>)"

section \<open>Swap removal\<close>

lemma first_index_None: "first_index x xs = None \<longleftrightarrow> x \<notin> set xs"
  by (induction xs) auto

lemma first_index_Some: "first_index x xs = Some i \<Longrightarrow> i < length xs \<and> xs ! i = x"
  by (induction xs arbitrary: i) (auto split: if_splits)

lemma mset_swap_remove:
  assumes "i < length xs"
  shows "add_mset (xs ! i) (mset (butlast (xs[i := last xs]))) = mset xs"
proof -
  obtain ys y where xs: "xs = ys @ [y]" using assms by (cases xs rule: rev_cases) auto
  show ?thesis
  proof (cases "i = length ys")
    case True
    with xs show ?thesis by simp
  next
    case False
    with assms xs have i: "i < length ys" by simp
    have "mset (ys[i := y]) = add_mset y (mset ys) - {# ys ! i #}"
      using i by (simp add: mset_update)
    with i have "add_mset (ys ! i) (mset (ys[i := y])) = add_mset y (mset ys)"
      by (simp add: mset_update nth_mem_mset)
    with xs i show ?thesis by (simp add: list_update_append nth_append)
  qed
qed

lemma swap_remove_distinct:
  assumes "first_index x xs = Some i" and "distinct xs"
  shows "distinct (butlast (xs[i := last xs]))"
    and "set (butlast (xs[i := last xs])) = set xs - {x}"
proof -
  from first_index_Some [OF assms(1)] have i: "i < length xs" "xs ! i = x" by auto
  let ?ys = "butlast (xs[i := last xs])"
  from mset_swap_remove [OF i(1)] i(2) have m: "mset (x # ?ys) = mset xs" by simp
  then have d: "distinct (x # ?ys)" using assms(2) mset_eq_imp_distinct_iff by blast
  then show "distinct ?ys" by simp
  from m have "set (x # ?ys) = set xs" by (rule mset_eq_setD)
  with d show "set ?ys = set xs - {x}" by auto
qed

section \<open>The registry as a map from channels to listeners\<close>

lemma subs_of_Subscribe: "subs_of (Subscribe b ch s) c = (if c = ch then subs_of b ch @ [s] else subs_of b c)"
  by (simp add: Subscribe_def subs_of_def)

lemma subs_of_Unsubscribe:
  "subs_of (Unsubscribe b ch s) c =
     (if c = ch then case first_index s (subs_of b ch) of
          None \<Rightarrow> subs_of b ch | Some i \<Rightarrow> butlast ((subs_of b ch)[i := last (subs_of b ch)])
      else subs_of b c)"
  by (auto simp: Unsubscribe_def subs_of_def Let_def split: option.splits)

definition listeners :: "broker \<Rightarrow> string \<Rightarrow> nat set" where
  "listeners b ch = set (subs_of b ch)"

lemma listeners_Subscribe: "listeners (Subscribe b ch s) = (listeners b)(ch := insert s (listeners b ch))"
  by (auto simp: listeners_def fun_eq_iff subs_of_Subscribe)

lemma subs_of_cong: "subs b' = subs b \<Longrightarrow> subs_of b' = subs_of b \<and> listeners b' = listeners b"
  by (simp add: subs_of_def listeners_def fun_eq_iff)

lemma listeners_Unsubscribe:
  assumes "distinct (subs_of b ch)"
  shows "listeners (Unsubscribe b ch s) = (listeners b)(ch := listeners b ch - {s})"
  using assms swap_remove_distinct(2) [OF _ assms]
  by (auto simp: listeners_def fun_eq_iff subs_of_Unsubscribe first_index_None split: option.splits)

section \<open>Invariant\<close>

text \<open>
  No duplicate registrations and no empty registrations, every registered subscriber has an open
  mailbox, no mailbox exceeds its capacity, and the process has not panicked.
\<close>

definition broker_ok :: "broker \<Rightarrow> bool" where
  "broker_ok b \<longleftrightarrow>
     gomap_ok (subs b) \<and> (\<forall>ch l. map_of (subs b) ch = Some l \<longrightarrow> l \<noteq> []) \<and>
     (\<forall>ch. distinct (subs_of b ch) \<and> all_open (mailboxes b) (listeners b ch)) \<and>
     heap_bounded subMailboxCap (mailboxes b) \<and> (\<forall>s\<in>dom (mailboxes b). s < next_sub b) \<and>
     \<not> crashed b"

lemma broker_ok_New: "broker_ok NewBroker"
  by (simp add: broker_ok_def NewBroker_def subs_of_def listeners_def all_open_def heap_bounded_def)

lemma broker_ok_heap:
  assumes "broker_ok b" and "subs b' = subs b" and "\<not> crashed b'"
    and "heap_bounded subMailboxCap (mailboxes b')" and "\<forall>s\<in>dom (mailboxes b'). s < next_sub b'"
    and "\<And>ch. all_open (mailboxes b') (listeners b ch)"
  shows "broker_ok b'"
  using assms subs_of_cong [OF assms(2)] unfolding broker_ok_def by simp

lemma listeners_open:
  "broker_ok b \<Longrightarrow> s \<in> listeners b ch \<Longrightarrow> \<exists>m. mailboxes b s = Some m \<and> \<not> closed m \<and> s < next_sub b"
  by (force simp: broker_ok_def all_open_def)

lemma broker_ok_NewSubscriber:
  assumes ok: "broker_ok b" and new: "NewSubscriber b = (b', s)"
  shows "broker_ok b'" and "mailboxes b' s = Some make_chan" and "s \<notin> listeners b' ch"
    and "listeners b' = listeners b"
proof -
  from new have b': "b' = b\<lparr>mailboxes := (mailboxes b)(s \<mapsto> make_chan), next_sub := Suc s\<rparr>"
    and s: "s = next_sub b" by (auto simp: NewSubscriber_def)
  show l: "listeners b' = listeners b" using subs_of_cong [of b' b] by (simp add: b')
  show "s \<notin> listeners b' ch" using listeners_open [OF ok, of s ch] s l by auto
  show "mailboxes b' s = Some make_chan" by (simp add: b')
  show "broker_ok b'"
  proof (rule broker_ok_heap [OF ok])
    show "all_open (mailboxes b') (listeners b ch)" for ch
      unfolding all_open_def using listeners_open [OF ok, of _ ch] s by (fastforce simp: b')
  qed (use ok s in \<open>auto simp: b' broker_ok_def heap_bounded_def make_chan_def less_SucI\<close>)
qed

lemma broker_ok_Subscribe:
  assumes "broker_ok b" and "mailboxes b s = Some m" "\<not> closed m" and "s \<notin> listeners b ch"
  shows "broker_ok (Subscribe b ch s)"
proof -
  have eq: "mailboxes (Subscribe b ch s) = mailboxes b" "next_sub (Subscribe b ch s) = next_sub b"
    "crashed (Subscribe b ch s) = crashed b" by (simp_all add: Subscribe_def)
  have "gomap_ok (subs (Subscribe b ch s))" and
    "\<forall>c l. map_of (subs (Subscribe b ch s)) c = Some l \<longrightarrow> l \<noteq> []"
    using assms(1) by (auto simp: broker_ok_def Subscribe_def)
  moreover have "\<forall>c. distinct (subs_of (Subscribe b ch s) c) \<and>
      all_open (mailboxes b) (listeners (Subscribe b ch s) c)"
    using assms by (auto simp: broker_ok_def subs_of_Subscribe listeners_def all_open_def)
  ultimately show ?thesis using assms(1) unfolding broker_ok_def eq by blast
qed

lemma Unsubscribe_frame:
  "mailboxes (Unsubscribe b ch s) = mailboxes b" "next_sub (Unsubscribe b ch s) = next_sub b"
  "crashed (Unsubscribe b ch s) = crashed b"
  by (auto simp: Unsubscribe_def Let_def split: option.splits)

lemma Unsubscribe_no_empty:
  assumes "\<forall>c l. map_of (subs b) c = Some l \<longrightarrow> l \<noteq> []"
  shows "\<forall>c l. map_of (subs (Unsubscribe b ch s)) c = Some l \<longrightarrow> l \<noteq> []"
  using assms by (auto simp: Unsubscribe_def Let_def subs_of_def split: option.splits if_splits)

lemma broker_ok_Unsubscribe:
  assumes ok: "broker_ok b"
  shows "broker_ok (Unsubscribe b ch s)"
proof -
  from ok have d: "distinct (subs_of b ch)" by (simp add: broker_ok_def)
  have "gomap_ok (subs (Unsubscribe b ch s))"
    using ok by (auto simp: broker_ok_def Unsubscribe_def Let_def split: option.splits)
  moreover have "distinct (subs_of (Unsubscribe b ch s) c)" for c
    using ok swap_remove_distinct(1) [OF _ d]
    by (auto simp: broker_ok_def subs_of_Unsubscribe split: option.splits)
  moreover have "all_open (mailboxes b) (listeners (Unsubscribe b ch s) c)" for c
    using ok listeners_Unsubscribe [OF d, of s] by (auto simp: broker_ok_def all_open_def)
  moreover from ok have "\<forall>c l. map_of (subs (Unsubscribe b ch s)) c = Some l \<longrightarrow> l \<noteq> []"
    by (intro Unsubscribe_no_empty) (simp add: broker_ok_def)
  ultimately show ?thesis using ok unfolding broker_ok_def Unsubscribe_frame by blast
qed

lemma Publish_frame:
  "subs (fst (Publish b ch p)) = subs b" "next_sub (fst (Publish b ch p)) = next_sub b"
  by (simp_all add: Publish_def split: prod.splits)

lemma Publish_spec:
  assumes ok: "broker_ok b" and pub: "Publish b ch p = (b', n)"
  defines "msg \<equiv> \<lparr>msg_Channel = ch, msg_Payload = p\<rparr>"
  shows "n = length (filter (has_room subMailboxCap (mailboxes b)) (subs_of b ch))"
    and "\<And>s. mailboxes b' s =
      (if s \<in> listeners b ch \<and> has_room subMailboxCap (mailboxes b) s
       then map_option (\<lambda>m. m\<lparr>buffer := buffer m @ [msg]\<rparr>) (mailboxes b s) else mailboxes b s)"
    and "\<not> crashed b'"
proof -
  obtain h pan where f: "fan_out subMailboxCap msg (subs_of b ch) (mailboxes b) = (h, n, pan)"
    and b': "b' = b\<lparr>mailboxes := h, crashed := crashed b \<or> pan\<rparr>"
    using pub by (auto simp: Publish_def msg_def split: prod.splits)
  from ok have "all_open (mailboxes b) (set (subs_of b ch))" "distinct (subs_of b ch)"
    by (auto simp: broker_ok_def listeners_def)
  note spec = fan_out_spec [OF this f]
  from spec show "n = length (filter (has_room subMailboxCap (mailboxes b)) (subs_of b ch))" by simp
  from spec show "mailboxes b' s = (if s \<in> listeners b ch \<and> has_room subMailboxCap (mailboxes b) s
       then map_option (\<lambda>m. m\<lparr>buffer := buffer m @ [msg]\<rparr>) (mailboxes b s) else mailboxes b s)" for s
    unfolding b' listeners_def by simp
  from spec ok show "\<not> crashed b'" by (simp add: b' broker_ok_def)
qed

lemma broker_ok_Publish:
  assumes ok: "broker_ok b"
  shows "broker_ok (fst (Publish b ch p))"
proof -
  obtain b' n where pub: "Publish b ch p = (b', n)" by fastforce
  note spec = Publish_spec [OF ok pub]
  from pub obtain h pan where
    f: "fan_out subMailboxCap \<lparr>msg_Channel = ch, msg_Payload = p\<rparr> (subs_of b ch) (mailboxes b) = (h, n, pan)"
    and b': "b' = b\<lparr>mailboxes := h, crashed := crashed b \<or> pan\<rparr>"
    by (auto simp: Publish_def split: prod.splits)
  have "broker_ok b'"
  proof (rule broker_ok_heap [OF ok])
    show "all_open (mailboxes b') (listeners b c)" for c
      unfolding all_open_def using listeners_open [OF ok, of _ c] spec(2) by fastforce
    show "\<forall>s\<in>dom (mailboxes b'). s < next_sub b'"
      using fan_out_dom [OF f] ok by (simp add: b' broker_ok_def)
    show "heap_bounded subMailboxCap (mailboxes b')"
      using fan_out_bounded [OF f] ok by (simp add: b' broker_ok_def)
    show "\<not> crashed b'" by (rule spec(3))
  qed (simp add: b')
  with pub show ?thesis by simp
qed

lemma broker_ok_Close:
  assumes ok: "broker_ok b" and m: "mailboxes b s = Some m" "\<not> closed m" and out: "\<And>ch. s \<notin> listeners b ch"
  shows "broker_ok (CloseSub b s)"
proof (rule broker_ok_heap [OF ok])
  have eq: "CloseSub b s = b\<lparr>mailboxes := (mailboxes b)(s \<mapsto> close_chan m)\<rparr>"
    using m by (simp add: CloseSub_def)
  show "all_open (mailboxes (CloseSub b s)) (listeners b ch)" for ch
    unfolding all_open_def using listeners_open [OF ok, of _ ch] out [of ch] by (fastforce simp: eq)
  show "heap_bounded subMailboxCap (mailboxes (CloseSub b s))"
    using ok m by (auto simp: eq broker_ok_def heap_bounded_def close_chan_def)
  show "\<forall>s'\<in>dom (mailboxes (CloseSub b s)). s' < next_sub (CloseSub b s)"
    using ok m by (auto simp: eq broker_ok_def)
qed (use ok m in \<open>auto simp: CloseSub_def broker_ok_def\<close>)

end
