(* ===== verification/Shard.thy ===== *)
theory Shard
  imports Broker
begin

text \<open>
  The store's data model: \<open>internal/db/entry.go\<close>, the sharding layer \<open>internal/db/shard.go\<close>, the
  \<open>DB\<close> struct of \<open>internal/db/db.go\<close> and the expiry predicate of \<open>internal/db/expiry.go\<close>. The
  keyspace the 32 shards stand for is \<open>keyspace\<close>, a map from keys to values with their deadline;
  the store operations of the following theories are proved against it.
\<close>

unbundle bit_operations_syntax

section \<open>Entries\<close>

datatype kind = kindString | kindList | kindHash | kindSet

record entry =
  e_kind :: kind
  e_str :: string
  e_list :: "string list"
  e_hash :: "(string, string) gomap"
  e_set :: "(string, unit) gomap"
  expireAt :: "int option"

text \<open>The zero \<open>Entry\<close>, from which the composite literals of the source are built.\<close>

definition zeroEntry :: entry where
  "zeroEntry = \<lparr>e_kind = kindString, e_str = [], e_list = [], e_hash = [], e_set = [], expireAt = None\<rparr>"

definition expired :: "int \<Rightarrow> entry \<Rightarrow> bool" where
  "expired t e = (case expireAt e of None \<Rightarrow> False | Some d \<Rightarrow> \<not> t < d)"

section \<open>Shards\<close>

type_synonym shard = "(string, entry) gomap"

abbreviation shardCount :: nat where "shardCount \<equiv> 32"

record db =
  shards :: "shard list"
  pubsub :: broker

text \<open>FNV-1a on 32 bits, \<open>hash/fnv\<close>'s \<open>New32a\<close>.\<close>

definition fnv32a :: "string \<Rightarrow> 32 word" where
  "fnv32a key = foldl (\<lambda>h c. (h XOR of_char c) * 16777619) 2166136261 key"

definition shardIndex :: "string \<Rightarrow> nat" where
  "shardIndex key = unat (fnv32a key mod 32)"

definition shardFor :: "db \<Rightarrow> string \<Rightarrow> shard" where
  "shardFor d key = shards d ! shardIndex key"

text \<open>Writing back the shard that owns \<open>key\<close>, for the in-place updates of the source.\<close>

definition put_shard :: "db \<Rightarrow> string \<Rightarrow> shard \<Rightarrow> db" where
  "put_shard d key sh = d\<lparr>shards := (shards d)[shardIndex key := sh]\<rparr>"

definition db_New :: db where
  "db_New = \<lparr>shards = replicate shardCount [], pubsub = NewBroker\<rparr>"

definition peek :: "int \<Rightarrow> shard \<Rightarrow> string \<Rightarrow> entry option" where
  "peek now sh key =
     (case map_of sh key of
        None \<Rightarrow> None
      | Some e \<Rightarrow> if expired now e then None else Some e)"

definition liveEntry :: "int \<Rightarrow> shard \<Rightarrow> string \<Rightarrow> shard \<times> entry option" where
  "liveEntry now sh key =
     (case map_of sh key of
        None \<Rightarrow> (sh, None)
      | Some e \<Rightarrow> if expired now e then (AList.delete key sh, None) else (sh, Some e))"

section \<open>Invariant\<close>

text \<open>
  An entry's typed field is a proper Go map and is not empty (the store deletes a key whose
  container became empty).
\<close>

definition entry_ok :: "entry \<Rightarrow> bool" where
  "entry_ok e =
     (case e_kind e of
        kindString \<Rightarrow> True
      | kindList \<Rightarrow> e_list e \<noteq> []
      | kindHash \<Rightarrow> gomap_ok (e_hash e) \<and> e_hash e \<noteq> []
      | kindSet \<Rightarrow> gomap_ok (e_set e) \<and> e_set e \<noteq> [])"

definition shard_ok :: "nat \<Rightarrow> shard \<Rightarrow> bool" where
  "shard_ok i sh \<longleftrightarrow> gomap_ok sh \<and> (\<forall>k e. map_of sh k = Some e \<longrightarrow> shardIndex k = i \<and> entry_ok e)"

definition db_ok :: "db \<Rightarrow> bool" where
  "db_ok d \<longleftrightarrow> length (shards d) = shardCount \<and> (\<forall>i < shardCount. shard_ok i (shards d ! i)) \<and>
     broker_ok (pubsub d)"

lemma shardIndex_less [simp]: "shardIndex key < 32"
proof -
  have "unat (fnv32a key mod 32) = unat (fnv32a key) mod 32"
    by (simp add: unat_mod_distrib)
  then show ?thesis by (simp add: shardIndex_def)
qed

lemma db_ok_New: "db_ok db_New"
  by (simp add: db_ok_def db_New_def shard_ok_def broker_ok_New)

section \<open>The abstract keyspace\<close>

datatype obj = RString string | RList "string list" | RHash "string \<rightharpoonup> string" | RSet "string set"

type_synonym keyspace = "string \<rightharpoonup> obj \<times> int option"

definition abs_obj :: "entry \<Rightarrow> obj" where
  "abs_obj e = (case e_kind e of
      kindString \<Rightarrow> RString (e_str e)
    | kindList \<Rightarrow> RList (e_list e)
    | kindHash \<Rightarrow> RHash (map_of (e_hash e))
    | kindSet \<Rightarrow> RSet (fst ` set (e_set e)))"

definition abs_entry :: "entry \<Rightarrow> obj \<times> int option" where
  "abs_entry e = (abs_obj e, expireAt e)"

definition keyspace :: "db \<Rightarrow> keyspace" where
  "keyspace d k = map_option abs_entry (map_of (shardFor d k) k)"

definition dead :: "int \<Rightarrow> obj \<times> int option \<Rightarrow> bool" where
  "dead t v = (case snd v of None \<Rightarrow> False | Some x \<Rightarrow> x \<le> t)"

text \<open>What a client can see of a keyspace at time \<open>t\<close>.\<close>

definition live :: "int \<Rightarrow> keyspace \<Rightarrow> keyspace" where
  "live t K k = (case K k of None \<Rightarrow> None | Some v \<Rightarrow> if dead t v then None else Some v)"

text \<open>Dropping one key if it is dead: the effect of the store's lazy expiry.\<close>

definition purge :: "int \<Rightarrow> string \<Rightarrow> keyspace \<Rightarrow> keyspace" where
  "purge t k K = (if live t K k = None then K(k := None) else K)"

lemma keyspace_New: "keyspace db_New = Map.empty"
  by (auto simp: fun_eq_iff keyspace_def shardFor_def db_New_def)

lemma dead_abs_entry [simp]: "dead t (abs_entry e) = expired t e"
  by (auto simp: dead_def abs_entry_def expired_def split: option.splits)

lemma live_keyspace: "live t (keyspace d) k = map_option abs_entry (peek t (shardFor d k) k)"
  by (auto simp: live_def keyspace_def peek_def split: option.splits)

lemma live_upd: "live t (K(k := v)) = (live t K)(k := (case v of None \<Rightarrow> None | Some x \<Rightarrow> if dead t x then None else Some x))"
  by (auto simp: live_def fun_eq_iff split: option.splits)

lemma live_le: "live t K \<subseteq>\<^sub>m K"
  by (auto simp: map_le_def live_def split: option.splits if_splits)

lemma live_later_purge: "t \<le> t' \<Longrightarrow> live t' (purge t k K) = live t' K"
  by (auto simp: live_def purge_def dead_def fun_eq_iff split: option.splits)

lemma purge_map_le: "purge t k K \<subseteq>\<^sub>m K"
  by (auto simp: purge_def map_le_def)

section \<open>Writing one key of one shard\<close>

text \<open>
  Every keyed operation of the store rewrites the shard that owns its key and leaves the other
  keys of that shard alone.
\<close>

definition touches :: "string \<Rightarrow> shard \<Rightarrow> shard \<Rightarrow> bool" where
  "touches key sh sh' \<longleftrightarrow> gomap_ok sh' \<and> (\<forall>k. k \<noteq> key \<longrightarrow> map_of sh' k = map_of sh k)"

lemma touches_refl [intro]: "gomap_ok sh \<Longrightarrow> touches key sh sh"
  by (simp add: touches_def)

lemma touches_update [intro]: "touches key sh sh' \<Longrightarrow> touches key sh (AList.update key e sh')"
  by (simp add: touches_def)

lemma touches_delete [intro]: "touches key sh sh' \<Longrightarrow> touches key sh (AList.delete key sh')"
  by (simp add: touches_def)

lemma db_ok_shard: "db_ok d \<Longrightarrow> shard_ok (shardIndex key) (shardFor d key)"
  by (simp add: db_ok_def shardFor_def)

lemma db_ok_gomap [simp]: "db_ok d \<Longrightarrow> gomap_ok (shardFor d key)"
  using db_ok_shard [of d key] by (simp add: shard_ok_def)

lemma touches_self [simp, intro]: "db_ok d \<Longrightarrow> touches key (shardFor d key) (shardFor d key)"
  by (rule touches_refl) (rule db_ok_gomap)

lemma db_ok_entry: "db_ok d \<Longrightarrow> map_of (shardFor d key) key = Some e \<Longrightarrow> entry_ok e"
  using db_ok_shard [of d key] by (simp add: shard_ok_def)

lemma shardFor_put_shard:
  "db_ok d \<Longrightarrow> shardFor (put_shard d key sh) k = (if shardIndex k = shardIndex key then sh else shardFor d k)"
  by (auto simp: shardFor_def put_shard_def db_ok_def)

lemma pubsub_put_shard [simp]: "pubsub (put_shard d key sh) = pubsub d"
  by (simp add: put_shard_def)

lemma put_shard_same: "db_ok d \<Longrightarrow> put_shard d key (shardFor d key) = d"
  by (simp add: put_shard_def shardFor_def db_ok_def)

lemma keyspace_put_shard:
  assumes "db_ok d" and "touches key (shardFor d key) sh"
  shows "keyspace (put_shard d key sh) = (keyspace d)(key := map_option abs_entry (map_of sh key))"
proof
  fix k
  have "map_of (shardFor d key) k = map_of (shardFor d k) k" if "shardIndex k = shardIndex key"
    using that by (simp add: shardFor_def)
  with assms show "keyspace (put_shard d key sh) k = ((keyspace d)(key := map_option abs_entry (map_of sh key))) k"
    by (auto simp: keyspace_def shardFor_put_shard touches_def)
qed

lemma db_ok_put_shard:
  assumes ok: "db_ok d" and t: "touches key (shardFor d key) sh"
    and e: "\<And>e. map_of sh key = Some e \<Longrightarrow> entry_ok e"
  shows "db_ok (put_shard d key sh)"
proof -
  have "shard_ok (shardIndex key) sh"
    using db_ok_shard [OF ok, of key] t e unfolding shard_ok_def touches_def by metis
  with ok show ?thesis
    by (auto simp: db_ok_def put_shard_def nth_list_update)
qed

text \<open>The three shapes of shard the operations write back: a new entry, no entry, nothing new.\<close>

lemma put_update:
  assumes "db_ok d" and "touches key (shardFor d key) sh"
  shows "keyspace (put_shard d key (AList.update key e sh)) = (keyspace d)(key \<mapsto> abs_entry e)"
    and "entry_ok e \<Longrightarrow> db_ok (put_shard d key (AList.update key e sh))"
  using assms keyspace_put_shard [OF assms(1) touches_update [OF assms(2)]]
    db_ok_put_shard [OF assms(1) touches_update [OF assms(2)]] by auto

lemma put_delete:
  assumes "db_ok d" and "touches key (shardFor d key) sh"
  shows "keyspace (put_shard d key (AList.delete key sh)) = (keyspace d)(key := None)"
    and "db_ok (put_shard d key (AList.delete key sh))"
  using assms keyspace_put_shard [OF assms(1) touches_delete [OF assms(2)]]
    db_ok_put_shard [OF assms(1) touches_delete [OF assms(2)]] by auto

lemma put_absent:
  assumes "db_ok d" and "touches key (shardFor d key) sh" and "map_of sh key = None"
  shows "keyspace (put_shard d key sh) = (keyspace d)(key := None)"
    and "db_ok (put_shard d key sh)"
  using assms keyspace_put_shard [OF assms(1,2)] db_ok_put_shard [OF assms(1,2)] by auto

lemma keyspace_entry_ok:
  "db_ok d \<Longrightarrow> map_of (shardFor d key) key = Some e \<Longrightarrow> keyspace d key = Some (abs_entry e)"
  by (simp add: keyspace_def)

lemma peek_Some: "peek t sh key = Some e \<longleftrightarrow> map_of sh key = Some e \<and> \<not> expired t e"
  by (auto simp: peek_def split: option.splits)

text \<open>The write-side lookup answers as the read-side one and leaves at most the asked key out.\<close>

lemma liveEntry_peek: "snd (liveEntry t sh key) = peek t sh key"
  by (simp add: liveEntry_def peek_def split: option.splits)

lemma map_of_liveEntry:
  "map_of (fst (liveEntry t sh key)) = (map_of sh)(key := peek t sh key)"
  by (auto simp: liveEntry_def peek_def fun_eq_iff split: option.splits)

lemma touches_liveEntry: "gomap_ok sh \<Longrightarrow> touches key sh (fst (liveEntry t sh key))"
  by (auto simp: liveEntry_def split: option.splits)

lemma liveEntry_cases:
  assumes "gomap_ok sh"
  obtains sh' where "liveEntry t sh key = (sh', None)" "peek t sh key = None" "map_of sh' key = None"
      "touches key sh sh'"
  | e where "liveEntry t sh key = (sh, Some e)" "peek t sh key = Some e" "map_of sh key = Some e"
      "\<not> expired t e"
proof (cases "peek t sh key")
  case None
  then have "liveEntry t sh key = (fst (liveEntry t sh key), None)"
    by (metis liveEntry_peek prod.collapse)
  with None map_of_liveEntry [of t sh key] touches_liveEntry [OF assms, of key t] that(1) show thesis
    by simp
next
  case (Some e)
  then have "map_of sh key = Some e" "\<not> expired t e" by (simp_all add: peek_Some)
  with Some that(2) show thesis by (simp add: liveEntry_def)
qed

end
