(* ===== verification/Typed_Entry.thy ===== *)
theory Typed_Entry
  imports Shard
begin

text \<open>
  The typed lookups of \<open>internal/db/db.go\<close> that every list, hash and set write goes through:
  \<open>listEntry\<close>, \<open>hashEntry\<close> and \<open>setEntry\<close>. They differ in the kind they accept and in the entry
  they create; the locale \<open>typed_entry\<close> is their common contract, and the case analysis proved in
  it carries the refinement proofs of the typed operations.
\<close>

datatype db_error = ErrWrongType

section \<open>The three lookups\<close>

definition listEntry :: "int \<Rightarrow> shard \<Rightarrow> string \<Rightarrow> bool \<Rightarrow> shard \<times> (db_error + entry option)" where
  "listEntry now sh key create =
     (case liveEntry now sh key of
        (sh', None) \<Rightarrow>
          if \<not> create then (sh', Inr None)
          else let e = zeroEntry\<lparr>e_kind := kindList\<rparr> in (AList.update key e sh', Inr (Some e))
      | (sh', Some e) \<Rightarrow>
          if e_kind e \<noteq> kindList then (sh', Inl ErrWrongType) else (sh', Inr (Some e)))"

definition hashEntry :: "int \<Rightarrow> shard \<Rightarrow> string \<Rightarrow> bool \<Rightarrow> shard \<times> (db_error + entry option)" where
  "hashEntry now sh key create =
     (case liveEntry now sh key of
        (sh', None) \<Rightarrow>
          if \<not> create then (sh', Inr None)
          else let e = zeroEntry\<lparr>e_kind := kindHash, e_hash := []\<rparr>
               in (AList.update key e sh', Inr (Some e))
      | (sh', Some e) \<Rightarrow>
          if e_kind e \<noteq> kindHash then (sh', Inl ErrWrongType) else (sh', Inr (Some e)))"

definition setEntry :: "int \<Rightarrow> shard \<Rightarrow> string \<Rightarrow> bool \<Rightarrow> shard \<times> (db_error + entry option)" where
  "setEntry now sh key create =
     (case liveEntry now sh key of
        (sh', None) \<Rightarrow>
          if \<not> create then (sh', Inr None)
          else let e = zeroEntry\<lparr>e_kind := kindSet, e_set := []\<rparr>
               in (AList.update key e sh', Inr (Some e))
      | (sh', Some e) \<Rightarrow>
          if e_kind e \<noteq> kindSet then (sh', Inl ErrWrongType) else (sh', Inr (Some e)))"

section \<open>Their contract\<close>

locale typed_entry =
  fixes typedEntry :: "int \<Rightarrow> shard \<Rightarrow> string \<Rightarrow> bool \<Rightarrow> shard \<times> (db_error + entry option)"
    and k :: kind
    and fresh :: entry
  assumes absent_create:
      "liveEntry t sh key = (sh', None) \<Longrightarrow>
         typedEntry t sh key True = (AList.update key fresh sh', Inr (Some fresh))"
    and absent_keep: "liveEntry t sh key = (sh', None) \<Longrightarrow> typedEntry t sh key False = (sh', Inr None)"
    and present: "liveEntry t sh key = (sh', Some e) \<Longrightarrow>
         typedEntry t sh key c = (sh', if e_kind e = k then Inr (Some e) else Inl ErrWrongType)"
    and fresh_kind: "e_kind fresh = k"
    and fresh_persistent: "expireAt fresh = None"
begin

text \<open>
  The three situations a typed write meets: no live key, a live key of another kind, a live key
  of the right kind.
\<close>

lemma typedEntry_cases:
  assumes "gomap_ok sh"
  obtains
    (absent) sh' where "peek t sh key = None" and "touches key sh sh'" and "map_of sh' key = None"
      and "typedEntry t sh key True = (AList.update key fresh sh', Inr (Some fresh))"
      and "typedEntry t sh key False = (sh', Inr None)"
  | (wrong) e where "peek t sh key = Some e" and "e_kind e \<noteq> k"
      and "\<And>c. typedEntry t sh key c = (sh, Inl ErrWrongType)"
  | (right) e where "peek t sh key = Some e" and "map_of sh key = Some e" and "e_kind e = k"
      and "\<And>c. typedEntry t sh key c = (sh, Inr (Some e))"
  using assms
proof (cases rule: liveEntry_cases [where t = t and key = key])
  case (1 sh')
  with absent_create absent_keep that(1) show thesis by blast
next
  case (2 e)
  with present [OF 2(1)] that(2,3) show thesis by (cases "e_kind e = k") auto
qed

lemma create_not_nil: "snd (typedEntry t sh key True) \<noteq> Inr None"
proof (cases "liveEntry t sh key")
  case (Pair sh' eo)
  then show ?thesis
    by (cases eo) (auto simp: absent_create present)
qed

end

interpretation lists: typed_entry listEntry kindList "zeroEntry\<lparr>e_kind := kindList\<rparr>"
  by unfold_locales (simp_all add: listEntry_def zeroEntry_def Let_def)

interpretation hashes: typed_entry hashEntry kindHash "zeroEntry\<lparr>e_kind := kindHash, e_hash := []\<rparr>"
  by unfold_locales (simp_all add: hashEntry_def zeroEntry_def Let_def)

interpretation sets: typed_entry setEntry kindSet "zeroEntry\<lparr>e_kind := kindSet, e_set := []\<rparr>"
  by unfold_locales (simp_all add: setEntry_def zeroEntry_def Let_def)

section \<open>Kinds and objects\<close>

lemma abs_entry_kinds [simp]:
  "e_kind e = kindString \<Longrightarrow> abs_entry e = (RString (e_str e), expireAt e)"
  "e_kind e = kindList \<Longrightarrow> abs_entry e = (RList (e_list e), expireAt e)"
  "e_kind e = kindHash \<Longrightarrow> abs_entry e = (RHash (map_of (e_hash e)), expireAt e)"
  "e_kind e = kindSet \<Longrightarrow> abs_entry e = (RSet (fst ` set (e_set e)), expireAt e)"
  by (simp_all add: abs_entry_def abs_obj_def)

lemma entry_ok_kinds [simp]:
  "e_kind e = kindString \<Longrightarrow> entry_ok e"
  "e_kind e = kindList \<Longrightarrow> entry_ok e \<longleftrightarrow> e_list e \<noteq> []"
  "e_kind e = kindHash \<Longrightarrow> entry_ok e \<longleftrightarrow> gomap_ok (e_hash e) \<and> e_hash e \<noteq> []"
  "e_kind e = kindSet \<Longrightarrow> entry_ok e \<longleftrightarrow> gomap_ok (e_set e) \<and> e_set e \<noteq> []"
  by (simp_all add: entry_ok_def)

text \<open>A key of another kind, seen from the keyspace.\<close>

lemma other_kind:
  "e_kind e \<noteq> kindString \<Longrightarrow> fst (abs_entry e) \<noteq> RString s"
  "e_kind e \<noteq> kindList \<Longrightarrow> fst (abs_entry e) \<noteq> RList l"
  "e_kind e \<noteq> kindHash \<Longrightarrow> fst (abs_entry e) \<noteq> RHash h"
  "e_kind e \<noteq> kindSet \<Longrightarrow> fst (abs_entry e) \<noteq> RSet m"
  by (cases "e_kind e"; simp)+

lemma peek_entry_ok: "db_ok d \<Longrightarrow> peek t (shardFor d key) key = Some e \<Longrightarrow> entry_ok e"
  by (auto simp: peek_Some dest: db_ok_entry)

lemmas shard_write = put_update put_delete put_absent put_shard_same

end
