(* ===== verification/Store_List.thy ===== *)
theory Store_List
  imports Typed_Entry
begin

text \<open>
  The list operations of \<open>internal/db/db.go\<close> and their refinement of the abstract keyspace.
  A store operation takes what it reads of the outside world (\<open>env\<close>) and the database, and
  returns the database and its result; \<open>Inl ErrWrongType\<close> is the source's error return.
\<close>

section \<open>Operations\<close>

text \<open>
  In the two pushes \<open>listEntry\<close> is called with \<open>create\<close>, so it never returns a nil entry
  (\<open>lists.create_not_nil\<close>); the branch is there because the lookup's type has it.
\<close>

definition db_LPush :: "env \<Rightarrow> db \<Rightarrow> string \<Rightarrow> string list \<Rightarrow> db \<times> (db_error + nat)" where
  "db_LPush env d key values =
     (case listEntry (clock env 0) (shardFor d key) key True of
        (sh, Inl err) \<Rightarrow> (put_shard d key sh, Inl err)
      | (sh, Inr None) \<Rightarrow> (put_shard d key sh, Inr 0)
      | (sh, Inr (Some e)) \<Rightarrow>
          let e' = e\<lparr>e_list := rev values @ e_list e\<rparr>
          in (put_shard d key (AList.update key e' sh), Inr (length (e_list e'))))"

definition db_RPush :: "env \<Rightarrow> db \<Rightarrow> string \<Rightarrow> string list \<Rightarrow> db \<times> (db_error + nat)" where
  "db_RPush env d key values =
     (case listEntry (clock env 0) (shardFor d key) key True of
        (sh, Inl err) \<Rightarrow> (put_shard d key sh, Inl err)
      | (sh, Inr None) \<Rightarrow> (put_shard d key sh, Inr 0)
      | (sh, Inr (Some e)) \<Rightarrow>
          let e' = e\<lparr>e_list := e_list e @ values\<rparr>
          in (put_shard d key (AList.update key e' sh), Inr (length (e_list e'))))"

definition db_LPop :: "env \<Rightarrow> db \<Rightarrow> string \<Rightarrow> db \<times> (db_error + string option)" where
  "db_LPop env d key =
     (case listEntry (clock env 0) (shardFor d key) key False of
        (sh, Inl err) \<Rightarrow> (put_shard d key sh, Inl err)
      | (sh, Inr None) \<Rightarrow> (put_shard d key sh, Inr None)
      | (sh, Inr (Some e)) \<Rightarrow>
          (case e_list e of
             [] \<Rightarrow> (put_shard d key sh, Inr None)
           | v # rest \<Rightarrow>
               let sh' = AList.update key (e\<lparr>e_list := rest\<rparr>) sh
               in (put_shard d key (if rest = [] then AList.delete key sh' else sh'), Inr (Some v))))"

definition db_RPop :: "env \<Rightarrow> db \<Rightarrow> string \<Rightarrow> db \<times> (db_error + string option)" where
  "db_RPop env d key =
     (case listEntry (clock env 0) (shardFor d key) key False of
        (sh, Inl err) \<Rightarrow> (put_shard d key sh, Inl err)
      | (sh, Inr None) \<Rightarrow> (put_shard d key sh, Inr None)
      | (sh, Inr (Some e)) \<Rightarrow>
          if e_list e = [] then (put_shard d key sh, Inr None)
          else let n = length (e_list e);
                   v = e_list e ! (n - 1);
                   rest = take (n - 1) (e_list e);
                   sh' = AList.update key (e\<lparr>e_list := rest\<rparr>) sh
               in (put_shard d key (if rest = [] then AList.delete key sh' else sh'), Inr (Some v)))"

definition db_LLen :: "env \<Rightarrow> db \<Rightarrow> string \<Rightarrow> db_error + nat" where
  "db_LLen env d key =
     (case peek (clock env 0) (shardFor d key) key of
        None \<Rightarrow> Inr 0
      | Some e \<Rightarrow> if e_kind e \<noteq> kindList then Inl ErrWrongType else Inr (length (e_list e)))"

definition normalizeRange :: "int \<Rightarrow> int \<Rightarrow> int \<Rightarrow> (int \<times> int) option" where
  "normalizeRange start stop n =
     (let start = (if start < 0 then start + n else start);
          stop = (if stop < 0 then stop + n else stop);
          start = (if start < 0 then 0 else start);
          stop = (if stop \<ge> n then n - 1 else stop)
      in if n = 0 \<or> start > stop \<or> start \<ge> n then None else Some (start, stop))"

definition db_LRange :: "env \<Rightarrow> db \<Rightarrow> string \<Rightarrow> int \<Rightarrow> int \<Rightarrow> db_error + string list" where
  "db_LRange env d key start stop =
     (case peek (clock env 0) (shardFor d key) key of
        None \<Rightarrow> Inr []
      | Some e \<Rightarrow>
          if e_kind e \<noteq> kindList then Inl ErrWrongType
          else (case normalizeRange start stop (int (length (e_list e))) of
                  None \<Rightarrow> Inr []
                | Some (lo, hi) \<Rightarrow> Inr (map (\<lambda>i. e_list e ! nat i) [lo..hi])))"

section \<open>Specification\<close>

definition spec_push :: "(string list \<Rightarrow> string list) \<Rightarrow> int \<Rightarrow> string \<Rightarrow> keyspace \<Rightarrow> keyspace \<times> (db_error + nat)" where
  "spec_push f t key K =
     (case live t K key of
        None \<Rightarrow> (K(key \<mapsto> (RList (f []), None)), Inr (length (f [])))
      | Some (RList l, x) \<Rightarrow> (K(key \<mapsto> (RList (f l), x)), Inr (length (f l)))
      | Some _ \<Rightarrow> (K, Inl ErrWrongType))"

definition spec_pop :: "(string list \<Rightarrow> string) \<Rightarrow> (string list \<Rightarrow> string list) \<Rightarrow>
    int \<Rightarrow> string \<Rightarrow> keyspace \<Rightarrow> keyspace \<times> (db_error + string option)" where
  "spec_pop pick rest t key K =
     (case live t K key of
        None \<Rightarrow> (K(key := None), Inr None)
      | Some (RList l, x) \<Rightarrow>
          (K(key := if rest l = [] then None else Some (RList (rest l), x)), Inr (Some (pick l)))
      | Some _ \<Rightarrow> (K, Inl ErrWrongType))"

definition spec_list_read :: "(string list \<Rightarrow> 'a) \<Rightarrow> int \<Rightarrow> string \<Rightarrow> keyspace \<Rightarrow> db_error + 'a" where
  "spec_list_read f t key K =
     (case live t K key of
        None \<Rightarrow> Inr (f [])
      | Some (RList l, x) \<Rightarrow> Inr (f l)
      | Some _ \<Rightarrow> Inl ErrWrongType)"

text \<open>
  The positions \<open>LRANGE\<close> selects, without any clamping: those between the two ends once a
  negative end has been counted from the back.
\<close>

definition from_end :: "nat \<Rightarrow> int \<Rightarrow> int" where
  "from_end n i = (if i < 0 then i + int n else i)"

definition lrange :: "int \<Rightarrow> int \<Rightarrow> string list \<Rightarrow> string list" where
  "lrange start stop l =
     nths l {j. from_end (length l) start \<le> int j \<and> int j \<le> from_end (length l) stop}"

section \<open>Refinement\<close>

lemma wrong_list: "e_kind e \<noteq> kindList \<Longrightarrow>
  (case abs_entry e of (RList l, x) \<Rightarrow> a l x | _ \<Rightarrow> b) = b"
  using other_kind(2) [of e] by (cases "abs_entry e") (auto split: obj.splits)

lemma push_refines:
  assumes ok: "db_ok d" and vs: "\<And>l. f l \<noteq> []"
    and op: "op = (case listEntry t (shardFor d key) key True of
        (sh, Inl err) \<Rightarrow> (put_shard d key sh, Inl err)
      | (sh, Inr None) \<Rightarrow> (put_shard d key sh, Inr 0)
      | (sh, Inr (Some e)) \<Rightarrow>
          let e' = e\<lparr>e_list := f (e_list e)\<rparr>
          in (put_shard d key (AList.update key e' sh), Inr (length (e_list e'))))"
  shows "db_ok (fst op) \<and> (keyspace (fst op), snd op) = spec_push f t key (keyspace d)"
  using db_ok_gomap [OF ok, of key]
proof (cases rule: lists.typedEntry_cases [where t = t and key = key])
  case (absent sh')
  with ok vs show ?thesis
    by (simp add: op spec_push_def live_keyspace Let_def zeroEntry_def shard_write)
next
  case (wrong e)
  with ok show ?thesis
    by (simp add: op spec_push_def live_keyspace wrong_list shard_write)
next
  case (right e)
  with ok vs show ?thesis
    by (simp add: op spec_push_def live_keyspace Let_def shard_write)
qed

lemma db_LPush_refines:
  assumes "db_ok d" and "values \<noteq> []"
  shows "db_ok (fst (db_LPush env d key values))"
    and "(keyspace (fst (db_LPush env d key values)), snd (db_LPush env d key values)) =
      spec_push (\<lambda>l. rev values @ l) (clock env 0) key (keyspace d)"
  using push_refines [OF assms(1) _ db_LPush_def] assms(2) by simp_all

lemma db_RPush_refines:
  assumes "db_ok d" and "values \<noteq> []"
  shows "db_ok (fst (db_RPush env d key values))"
    and "(keyspace (fst (db_RPush env d key values)), snd (db_RPush env d key values)) =
      spec_push (\<lambda>l. l @ values) (clock env 0) key (keyspace d)"
  using push_refines [OF assms(1) _ db_RPush_def] assms(2) by simp_all

lemma pop_refines:
  assumes ok: "db_ok d"
    and rest: "\<And>l. l \<noteq> [] \<Longrightarrow> length (rest l) < length l"
    and op: "op = (case listEntry t (shardFor d key) key False of
        (sh, Inl err) \<Rightarrow> (put_shard d key sh, Inl err)
      | (sh, Inr None) \<Rightarrow> (put_shard d key sh, Inr None)
      | (sh, Inr (Some e)) \<Rightarrow>
          if e_list e = [] then (put_shard d key sh, Inr None)
          else let sh' = AList.update key (e\<lparr>e_list := rest (e_list e)\<rparr>) sh
               in (put_shard d key (if rest (e_list e) = [] then AList.delete key sh' else sh'),
                   Inr (Some (pick (e_list e)))))"
  shows "db_ok (fst op) \<and> (keyspace (fst op), snd op) = spec_pop pick rest t key (keyspace d)"
  using db_ok_gomap [OF ok, of key]
proof (cases rule: lists.typedEntry_cases [where t = t and key = key])
  case (absent sh')
  with ok show ?thesis
    by (simp add: op spec_pop_def live_keyspace shard_write)
next
  case (wrong e)
  with ok show ?thesis
    by (simp add: op spec_pop_def live_keyspace wrong_list shard_write)
next
  case (right e)
  have "e_list e \<noteq> []" using peek_entry_ok [OF ok right(1)] right(3) by simp
  with ok right show ?thesis
    by (simp add: op spec_pop_def live_keyspace Let_def shard_write touches_update)
qed

lemma db_LPop_refines:
  assumes "db_ok d"
  shows "db_ok (fst (db_LPop env d key)) \<and>
    (keyspace (fst (db_LPop env d key)), snd (db_LPop env d key)) = spec_pop hd tl (clock env 0) key (keyspace d)"
  by (rule pop_refines [OF assms])
    (auto simp: db_LPop_def Let_def neq_Nil_conv split: prod.splits sum.splits option.splits list.splits)

lemma db_RPop_refines:
  assumes "db_ok d"
  shows "db_ok (fst (db_RPop env d key)) \<and>
    (keyspace (fst (db_RPop env d key)), snd (db_RPop env d key)) = spec_pop last butlast (clock env 0) key (keyspace d)"
  by (rule pop_refines [OF assms])
    (auto simp: db_RPop_def Let_def last_conv_nth butlast_conv_take split: prod.splits sum.splits option.splits)

lemma db_LLen_refines: "db_LLen env d key = spec_list_read length (clock env 0) key (keyspace d)"
  by (cases "peek (clock env 0) (shardFor d key) key")
    (auto simp: db_LLen_def spec_list_read_def live_keyspace wrong_list)

lemma nths_as_map: "nths l A = map ((!) l) (filter (\<lambda>j. j \<in> A) [0..<length l])"
proof -
  have "zip l [0..<length l] = map (\<lambda>j. (l ! j, j)) [0..<length l]"
    by (rule nth_equalityI) auto
  then show ?thesis by (simp add: nths_def filter_map comp_def)
qed

lemma sorted_list_eqI:
  fixes xs ys :: "'a::linorder list"
  shows "sorted xs \<Longrightarrow> distinct xs \<Longrightarrow> sorted ys \<Longrightarrow> distinct ys \<Longrightarrow> set xs = set ys \<Longrightarrow> xs = ys"
  by (rule sorted_distinct_set_unique)

lemma upto_eq_upt: "0 \<le> lo \<Longrightarrow> [lo..hi] = map int [nat lo..<nat (hi + 1)]"
  by (rule nth_equalityI) (auto simp: nth_upto)

lemma normalizeRange_select:
  "(case normalizeRange start stop (int (length l)) of
      None \<Rightarrow> [] | Some (lo, hi) \<Rightarrow> map (\<lambda>i. l ! nat i) [lo..hi]) = lrange start stop l"
proof -
  let ?A = "{j. from_end (length l) start \<le> int j \<and> int j \<le> from_end (length l) stop}"
  show ?thesis
  proof (cases "normalizeRange start stop (int (length l))")
    case None
    then have "filter (\<lambda>j. j \<in> ?A) [0..<length l] = []"
      by (auto simp: filter_empty_conv normalizeRange_def from_end_def Let_def split: if_splits)
    then have "nths l ?A = []" by (simp only: nths_as_map list.map)
    with None show ?thesis by (simp add: lrange_def)
  next
    case (Some p)
    obtain lo hi where p: "p = (lo, hi)" by fastforce
    from Some have b: "0 \<le> lo" "lo \<le> hi" "hi < int (length l)" and
      A: "\<And>j. j < length l \<Longrightarrow> j \<in> ?A \<longleftrightarrow> lo \<le> int j \<and> int j \<le> hi"
      by (auto simp: p normalizeRange_def from_end_def Let_def split: if_splits)
    have "filter (\<lambda>j. j \<in> ?A) [0..<length l] = filter (\<lambda>j. lo \<le> int j \<and> int j \<le> hi) [0..<length l]"
      by (rule filter_cong) (use A in auto)
    also have "\<dots> = [nat lo..<nat (hi + 1)]"
      by (rule sorted_list_eqI) (use b in \<open>auto simp: sorted_filter [where f = id, simplified] nat_le_iff zless_nat_eq_int_zless\<close>)
    finally have "nths l ?A = map ((!) l) [nat lo..<nat (hi + 1)]" by (simp only: nths_as_map)
    with Some p b show ?thesis
      by (simp add: lrange_def upto_eq_upt comp_def del: upto.simps)
  qed
qed

lemma db_LRange_refines:
  "db_LRange env d key start stop = spec_list_read (lrange start stop) (clock env 0) key (keyspace d)"
proof (cases "peek (clock env 0) (shardFor d key) key")
  case None
  then show ?thesis by (simp add: db_LRange_def spec_list_read_def live_keyspace lrange_def)
next
  case (Some e)
  then show ?thesis
    using normalizeRange_select [where start = start and stop = stop and l = "e_list e"]
    by (auto simp: db_LRange_def spec_list_read_def live_keyspace wrong_list split: option.splits)
qed

section \<open>Properties\<close>

text \<open>
  C27: \<open>LRANGE\<close> answers exactly the elements whose position lies between the two ends, a negative end
  counting from the back: the clamping of \<open>normalizeRange\<close> agrees with the unclamped definition
  for all ends, in or out of range. An absent key is an empty list.
\<close>

theorem LRange_selects:
  "db_LRange env d key start stop = spec_list_read (lrange start stop) (clock env 0) key (keyspace d) \<and>
   (case normalizeRange start stop (int (length l)) of
      None \<Rightarrow> lrange start stop l = []
    | Some (lo, hi) \<Rightarrow> 0 \<le> lo \<and> hi < int (length l) \<and> lrange start stop l = map (\<lambda>i. l ! nat i) [lo..hi])"
  using db_LRange_refines normalizeRange_select [where start = start and stop = stop and l = l]
  by (auto simp: normalizeRange_def Let_def split: option.splits if_splits)

end
