(* ===== verification/Store_Hash.thy ===== *)
theory Store_Hash
  imports Typed_Entry
begin

text \<open>
  The hash operations of \<open>internal/db/db.go\<close>. The parallel slices \<open>fields\<close> and \<open>values\<close> that
  \<open>HSet\<close> takes (of equal length, by its contract) are a list of pairs.
\<close>

section \<open>Operations\<close>

fun hset_loop :: "(string, string) gomap \<Rightarrow> (string \<times> string) list \<Rightarrow> (string, string) gomap \<times> nat" where
  "hset_loop h [] = (h, 0)"
| "hset_loop h ((f, v) # ps) =
     (let new = (map_of h f = None)
      in case hset_loop (AList.update f v h) ps of (h', added) \<Rightarrow> (h', if new then Suc added else added))"

fun hdel_loop :: "(string, string) gomap \<Rightarrow> string list \<Rightarrow> (string, string) gomap \<times> nat" where
  "hdel_loop h [] = (h, 0)"
| "hdel_loop h (f # fs) =
     (if map_of h f \<noteq> None
      then case hdel_loop (AList.delete f h) fs of (h', removed) \<Rightarrow> (h', Suc removed)
      else hdel_loop h fs)"

definition db_HSet :: "env \<Rightarrow> db \<Rightarrow> string \<Rightarrow> (string \<times> string) list \<Rightarrow> db \<times> (db_error + nat)" where
  "db_HSet env d key pairs =
     (case hashEntry (clock env 0) (shardFor d key) key True of
        (sh, Inl err) \<Rightarrow> (put_shard d key sh, Inl err)
      | (sh, Inr None) \<Rightarrow> (put_shard d key sh, Inr 0)
      | (sh, Inr (Some e)) \<Rightarrow>
          (case hset_loop (e_hash e) pairs of
             (h, added) \<Rightarrow> (put_shard d key (AList.update key (e\<lparr>e_hash := h\<rparr>) sh), Inr added)))"

definition db_HGet :: "env \<Rightarrow> db \<Rightarrow> string \<Rightarrow> string \<Rightarrow> db_error + string option" where
  "db_HGet env d key field =
     (case peek (clock env 0) (shardFor d key) key of
        None \<Rightarrow> Inr None
      | Some e \<Rightarrow>
          if e_kind e \<noteq> kindHash then Inl ErrWrongType
          else (case map_of (e_hash e) field of None \<Rightarrow> Inr None | Some v \<Rightarrow> Inr (Some v)))"

definition db_HDel :: "env \<Rightarrow> db \<Rightarrow> string \<Rightarrow> string list \<Rightarrow> db \<times> (db_error + nat)" where
  "db_HDel env d key names =
     (case hashEntry (clock env 0) (shardFor d key) key False of
        (sh, Inl err) \<Rightarrow> (put_shard d key sh, Inl err)
      | (sh, Inr None) \<Rightarrow> (put_shard d key sh, Inr 0)
      | (sh, Inr (Some e)) \<Rightarrow>
          (case hdel_loop (e_hash e) names of
             (h, removed) \<Rightarrow>
               let sh' = AList.update key (e\<lparr>e_hash := h\<rparr>) sh
               in (put_shard d key (if h = [] then AList.delete key sh' else sh'), Inr removed)))"

definition db_HGetAll :: "env \<Rightarrow> db \<Rightarrow> string \<Rightarrow> db_error + string list \<times> string list" where
  "db_HGetAll env d key =
     (case peek (clock env 0) (shardFor d key) key of
        None \<Rightarrow> Inr ([], [])
      | Some e \<Rightarrow>
          if e_kind e \<noteq> kindHash then Inl ErrWrongType
          else let visited = go_range (iter env [0]) (e_hash e)
               in Inr (map fst visited, map snd visited))"

definition db_HKeys :: "env \<Rightarrow> db \<Rightarrow> string \<Rightarrow> db_error + string list" where
  "db_HKeys env d key =
     (case peek (clock env 0) (shardFor d key) key of
        None \<Rightarrow> Inr []
      | Some e \<Rightarrow>
          if e_kind e \<noteq> kindHash then Inl ErrWrongType
          else Inr (map fst (go_range (iter env [0]) (e_hash e))))"

definition db_HVals :: "env \<Rightarrow> db \<Rightarrow> string \<Rightarrow> db_error + string list" where
  "db_HVals env d key =
     (case peek (clock env 0) (shardFor d key) key of
        None \<Rightarrow> Inr []
      | Some e \<Rightarrow>
          if e_kind e \<noteq> kindHash then Inl ErrWrongType
          else Inr (map snd (go_range (iter env [0]) (e_hash e))))"

definition db_HLen :: "env \<Rightarrow> db \<Rightarrow> string \<Rightarrow> db_error + nat" where
  "db_HLen env d key =
     (case peek (clock env 0) (shardFor d key) key of
        None \<Rightarrow> Inr 0
      | Some e \<Rightarrow> if e_kind e \<noteq> kindHash then Inl ErrWrongType else Inr (length (e_hash e)))"

section \<open>Specification\<close>

definition spec_hset :: "(string \<times> string) list \<Rightarrow> int \<Rightarrow> string \<Rightarrow> keyspace \<Rightarrow> keyspace \<times> (db_error + nat)" where
  "spec_hset ps t key K =
     (case live t K key of
        None \<Rightarrow> (K(key \<mapsto> (RHash (map_of (rev ps)), None)), Inr (card (fst ` set ps)))
      | Some (RHash m, x) \<Rightarrow>
          (K(key \<mapsto> (RHash (m ++ map_of (rev ps)), x)), Inr (card (fst ` set ps - dom m)))
      | Some _ \<Rightarrow> (K, Inl ErrWrongType))"

definition spec_hdel :: "string list \<Rightarrow> int \<Rightarrow> string \<Rightarrow> keyspace \<Rightarrow> keyspace \<times> (db_error + nat)" where
  "spec_hdel fs t key K =
     (case live t K key of
        None \<Rightarrow> (K(key := None), Inr 0)
      | Some (RHash m, x) \<Rightarrow>
          (K(key := if dom m \<subseteq> set fs then None else Some (RHash (m |` (- set fs)), x)),
           Inr (card (set fs \<inter> dom m)))
      | Some _ \<Rightarrow> (K, Inl ErrWrongType))"

definition spec_hash_read :: "((string \<rightharpoonup> string) \<Rightarrow> 'a) \<Rightarrow> int \<Rightarrow> string \<Rightarrow> keyspace \<Rightarrow> db_error + 'a" where
  "spec_hash_read f t key K =
     (case live t K key of
        None \<Rightarrow> Inr (f Map.empty)
      | Some (RHash m, x) \<Rightarrow> Inr (f m)
      | Some _ \<Rightarrow> Inl ErrWrongType)"

section \<open>Refinement\<close>

lemma wrong_hash: "e_kind e \<noteq> kindHash \<Longrightarrow>
  (case abs_entry e of (RHash m, x) \<Rightarrow> a m x | _ \<Rightarrow> b) = b"
  using other_kind(3) [of e] by (cases "abs_entry e") (auto split: obj.splits)

lemma hset_loop_spec:
  "hset_loop h ps = (h', n) \<Longrightarrow>
     map_of h' = map_of h ++ map_of (rev ps) \<and> (gomap_ok h \<longrightarrow> gomap_ok h') \<and>
     n = card (fst ` set ps - dom (map_of h))"
proof (induction h ps arbitrary: h' n rule: hset_loop.induct)
  case (2 h f v ps)
  obtain n' where rec: "hset_loop (AList.update f v h) ps = (h', n')"
    and n: "n = (if map_of h f = None then Suc n' else n')"
    using "2.prems" by (auto simp: Let_def split: prod.splits if_splits)
  have "map_of h' = map_of (AList.update f v h) ++ map_of (rev ps) \<and>
      (gomap_ok (AList.update f v h) \<longrightarrow> gomap_ok h') \<and>
      n' = card (fst ` set ps - dom (map_of (AList.update f v h)))"
    by (rule "2.IH" [OF refl rec])
  then have IH: "map_of h' = (map_of h)(f \<mapsto> v) ++ map_of (rev ps)" "gomap_ok h \<longrightarrow> gomap_ok h'"
    "n' = card (fst ` set ps - insert f (dom (map_of h)))" by simp_all
  have "n = card (insert f (fst ` set ps) - dom (map_of h))"
  proof (cases "map_of h f = None")
    case True
    then have "insert f (fst ` set ps) - dom (map_of h) = insert f (fst ` set ps - insert f (dom (map_of h)))"
      by auto
    with True n IH show ?thesis by simp
  next
    case False
    then have "insert f (fst ` set ps) - dom (map_of h) = fst ` set ps - insert f (dom (map_of h))"
      by auto
    with False n IH show ?thesis by simp
  qed
  with IH show ?case by (simp add: map_add_def fun_eq_iff split: option.splits)
qed (simp_all add: restrict_map_def)

lemma hdel_loop_spec:
  "hdel_loop h fs = (h', n) \<Longrightarrow>
     map_of h' = map_of h |` (- set fs) \<and> (gomap_ok h \<longrightarrow> gomap_ok h') \<and>
     n = card (set fs \<inter> dom (map_of h))"
proof (induction h fs arbitrary: h' n rule: hdel_loop.induct)
  case (2 h f fs)
  show ?case
  proof (cases "map_of h f = None")
    case True
    with 2 have IH: "map_of h' = map_of h |` (- set fs)" "gomap_ok h \<longrightarrow> gomap_ok h'"
      "n = card (set fs \<inter> dom (map_of h))" by auto
    from True have "insert f (set fs) \<inter> dom (map_of h) = set fs \<inter> dom (map_of h)" by auto
    with IH True show ?thesis by (auto simp: restrict_map_def fun_eq_iff)
  next
    case False
    with "2.prems" obtain n' where rec: "hdel_loop (AList.delete f h) fs = (h', n')" and n: "n = Suc n'"
      by (auto split: prod.splits)
    have "map_of h' = map_of (AList.delete f h) |` (- set fs) \<and>
        (gomap_ok (AList.delete f h) \<longrightarrow> gomap_ok h') \<and>
        n' = card (set fs \<inter> dom (map_of (AList.delete f h)))"
      by (rule "2.IH"(1) [OF False rec])
    then have IH: "map_of h' = (map_of h)(f := None) |` (- set fs)" "gomap_ok h \<longrightarrow> gomap_ok h'"
      "n' = card (set fs \<inter> (dom (map_of h) - {f}))" by auto
    from False have "insert f (set fs) \<inter> dom (map_of h) = insert f (set fs \<inter> (dom (map_of h) - {f}))"
      by auto
    with n IH have "n = card (insert f (set fs) \<inter> dom (map_of h))" by simp
    with IH show ?thesis by (auto simp: restrict_map_def fun_eq_iff)
  qed
qed (simp_all add: restrict_map_def)

lemma db_HSet_refines:
  assumes ok: "db_ok d" and ps: "ps \<noteq> []"
  shows "db_ok (fst (db_HSet env d key ps)) \<and>
    (keyspace (fst (db_HSet env d key ps)), snd (db_HSet env d key ps)) =
      spec_hset ps (clock env 0) key (keyspace d)"
proof -
  have ne: "h' \<noteq> []" if "map_of h' = m ++ map_of (rev ps)" for h' m
  proof
    assume "h' = []"
    with that have "(m ++ map_of (rev ps)) x = None" for x by (metis map_of.simps(1))
    then have "map_of (rev ps) = Map.empty" by (simp add: fun_eq_iff)
    with ps show False by (simp flip: gomap_empty_iff)
  qed
  show ?thesis
    using db_ok_gomap [OF ok, of key]
  proof (cases rule: hashes.typedEntry_cases [where t = "clock env 0" and key = key])
    case (absent sh')
    obtain h n where l: "hset_loop [] ps = (h, n)" by fastforce
    with hset_loop_spec [OF l] ne [of h Map.empty] ok absent show ?thesis
      by (simp add: db_HSet_def spec_hset_def live_keyspace Let_def zeroEntry_def shard_write)
  next
    case (wrong e)
    with ok show ?thesis
      by (simp add: db_HSet_def spec_hset_def live_keyspace wrong_hash shard_write)
  next
    case (right e)
    obtain h n where l: "hset_loop (e_hash e) ps = (h, n)" by fastforce
    with hset_loop_spec [OF l] ne [of h "map_of (e_hash e)"] peek_entry_ok [OF ok right(1)] ok right
    show ?thesis by (simp add: db_HSet_def spec_hset_def live_keyspace shard_write)
  qed
qed

lemma db_HDel_refines:
  assumes ok: "db_ok d"
  shows "db_ok (fst (db_HDel env d key fs)) \<and>
    (keyspace (fst (db_HDel env d key fs)), snd (db_HDel env d key fs)) =
      spec_hdel fs (clock env 0) key (keyspace d)"
  using db_ok_gomap [OF ok, of key]
proof (cases rule: hashes.typedEntry_cases [where t = "clock env 0" and key = key])
  case (absent sh')
  with ok show ?thesis
    by (simp add: db_HDel_def spec_hdel_def live_keyspace shard_write)
next
  case (wrong e)
  with ok show ?thesis
    by (simp add: db_HDel_def spec_hdel_def live_keyspace wrong_hash shard_write)
next
  case (right e)
  obtain h n where l: "hdel_loop (e_hash e) fs = (h, n)" by fastforce
  note spec = hdel_loop_spec [OF l]
  have "h = [] \<longleftrightarrow> dom (map_of (e_hash e)) \<subseteq> set fs"
    using spec by (auto simp: gomap_empty_iff restrict_map_def fun_eq_iff split: if_splits)
  with spec peek_entry_ok [OF ok right(1)] ok right l
  show ?thesis by (simp add: db_HDel_def spec_hdel_def live_keyspace Let_def shard_write touches_update)
qed

lemma db_HGet_refines:
  "db_HGet env d key f = spec_hash_read (\<lambda>m. m f) (clock env 0) key (keyspace d)"
  by (cases "peek (clock env 0) (shardFor d key) key")
    (auto simp: db_HGet_def spec_hash_read_def live_keyspace wrong_hash split: option.splits)

lemma db_HLen_refines:
  "db_ok d \<Longrightarrow> db_HLen env d key = spec_hash_read (\<lambda>m. card (dom m)) (clock env 0) key (keyspace d)"
  by (cases "peek (clock env 0) (shardFor d key) key")
    (auto simp: db_HLen_def spec_hash_read_def live_keyspace wrong_hash length_gomap dest: peek_entry_ok)

text \<open>
  The whole-hash reads: whatever the iteration order, \<open>HGetAll\<close> returns each field once with its
  value, \<open>HKeys\<close> each field once, \<open>HVals\<close> the values with their multiplicity.
\<close>

lemma db_HGetAll_refines:
  assumes ok: "db_ok d" and r: "db_HGetAll env d key = Inr (fs, vs)"
  shows "length fs = length vs \<and> distinct fs \<and>
    spec_hash_read id (clock env 0) key (keyspace d) = Inr (map_of (zip fs vs))"
proof (cases "peek (clock env 0) (shardFor d key) key")
  case None
  with r show ?thesis by (auto simp: db_HGetAll_def spec_hash_read_def live_keyspace)
next
  case (Some e)
  with r have k: "e_kind e = kindHash" by (auto simp: db_HGetAll_def split: if_splits)
  let ?v = "go_range (iter env [0]) (e_hash e)"
  from r Some k have fs: "fs = map fst ?v" "vs = map snd ?v" by (auto simp: db_HGetAll_def Let_def)
  have g: "gomap_ok (e_hash e)" using peek_entry_ok [OF ok Some] k by simp
  then have "map_of (zip fs vs) = map_of (e_hash e)" by (simp add: fs zip_map_fst_snd)
  with g k Some show ?thesis by (simp add: fs spec_hash_read_def live_keyspace)
qed

lemma db_HKeys_refines:
  assumes ok: "db_ok d" and r: "db_HKeys env d key = Inr fs"
  shows "distinct fs \<and> spec_hash_read dom (clock env 0) key (keyspace d) = Inr (set fs)"
proof (cases "peek (clock env 0) (shardFor d key) key")
  case None
  with r show ?thesis by (auto simp: db_HKeys_def spec_hash_read_def live_keyspace)
next
  case (Some e)
  with r have k: "e_kind e = kindHash" by (auto simp: db_HKeys_def split: if_splits)
  with r Some have fs: "fs = map fst (go_range (iter env [0]) (e_hash e))" by (simp add: db_HKeys_def)
  from peek_entry_ok [OF ok Some] k Some show ?thesis
    by (simp add: fs spec_hash_read_def live_keyspace dom_map_of_conv_image_fst)
qed

lemma gomap_values: "gomap_ok m \<Longrightarrow> mset (map snd m) = image_mset (\<lambda>k. the (map_of m k)) (mset_set (dom (map_of m)))"
proof -
  assume m: "gomap_ok m"
  then have "mset_set (dom (map_of m)) = mset (map fst m)"
    by (metis dom_map_of_conv_image_fst list.set_map mset_set_set)
  moreover have "image_mset (\<lambda>k. the (map_of m k)) (mset (map fst m)) = mset (map snd m)"
    using m by (auto simp flip: mset_map intro!: arg_cong [where f = mset] simp: map_of_is_SomeI)
  ultimately show ?thesis by simp
qed

lemma db_HVals_refines:
  assumes ok: "db_ok d" and r: "db_HVals env d key = Inr vs"
  shows "spec_hash_read (\<lambda>m. image_mset (\<lambda>k. the (m k)) (mset_set (dom m))) (clock env 0) key (keyspace d) =
    Inr (mset vs)"
proof (cases "peek (clock env 0) (shardFor d key) key")
  case None
  with r show ?thesis by (auto simp: db_HVals_def spec_hash_read_def live_keyspace)
next
  case (Some e)
  with r have k: "e_kind e = kindHash" by (auto simp: db_HVals_def split: if_splits)
  with r Some have vs: "vs = map snd (go_range (iter env [0]) (e_hash e))" by (simp add: db_HVals_def)
  from peek_entry_ok [OF ok Some] k have "gomap_ok (e_hash e)" by simp
  from gomap_values [OF this] k Some show ?thesis
    by (simp add: vs spec_hash_read_def live_keyspace)
qed

end
