(* ===== verification/Store_Set.thy ===== *)
theory Store_Set
  imports Typed_Entry
begin

text \<open>
  The set operations of \<open>internal/db/db.go\<close>. A set is a Go map to \<open>struct{}\<close>, here to \<open>unit\<close>.
\<close>

section \<open>Operations\<close>

fun sadd_loop :: "(string, unit) gomap \<Rightarrow> string list \<Rightarrow> (string, unit) gomap \<times> nat" where
  "sadd_loop s [] = (s, 0)"
| "sadd_loop s (m # ms) =
     (if map_of s m = None
      then case sadd_loop (AList.update m () s) ms of (s', added) \<Rightarrow> (s', Suc added)
      else sadd_loop s ms)"

fun srem_loop :: "(string, unit) gomap \<Rightarrow> string list \<Rightarrow> (string, unit) gomap \<times> nat" where
  "srem_loop s [] = (s, 0)"
| "srem_loop s (m # ms) =
     (if map_of s m \<noteq> None
      then case srem_loop (AList.delete m s) ms of (s', removed) \<Rightarrow> (s', Suc removed)
      else srem_loop s ms)"

definition db_SAdd :: "env \<Rightarrow> db \<Rightarrow> string \<Rightarrow> string list \<Rightarrow> db \<times> (db_error + nat)" where
  "db_SAdd env d key members =
     (case setEntry (clock env 0) (shardFor d key) key True of
        (sh, Inl err) \<Rightarrow> (put_shard d key sh, Inl err)
      | (sh, Inr None) \<Rightarrow> (put_shard d key sh, Inr 0)
      | (sh, Inr (Some e)) \<Rightarrow>
          (case sadd_loop (e_set e) members of
             (s, added) \<Rightarrow> (put_shard d key (AList.update key (e\<lparr>e_set := s\<rparr>) sh), Inr added)))"

definition db_SRem :: "env \<Rightarrow> db \<Rightarrow> string \<Rightarrow> string list \<Rightarrow> db \<times> (db_error + nat)" where
  "db_SRem env d key members =
     (case setEntry (clock env 0) (shardFor d key) key False of
        (sh, Inl err) \<Rightarrow> (put_shard d key sh, Inl err)
      | (sh, Inr None) \<Rightarrow> (put_shard d key sh, Inr 0)
      | (sh, Inr (Some e)) \<Rightarrow>
          (case srem_loop (e_set e) members of
             (s, removed) \<Rightarrow>
               let sh' = AList.update key (e\<lparr>e_set := s\<rparr>) sh
               in (put_shard d key (if s = [] then AList.delete key sh' else sh'), Inr removed)))"

definition db_SIsMember :: "env \<Rightarrow> db \<Rightarrow> string \<Rightarrow> string \<Rightarrow> db_error + bool" where
  "db_SIsMember env d key member =
     (case peek (clock env 0) (shardFor d key) key of
        None \<Rightarrow> Inr False
      | Some e \<Rightarrow>
          if e_kind e \<noteq> kindSet then Inl ErrWrongType else Inr (map_of (e_set e) member \<noteq> None))"

definition db_SMembers :: "env \<Rightarrow> db \<Rightarrow> string \<Rightarrow> db_error + string list" where
  "db_SMembers env d key =
     (case peek (clock env 0) (shardFor d key) key of
        None \<Rightarrow> Inr []
      | Some e \<Rightarrow>
          if e_kind e \<noteq> kindSet then Inl ErrWrongType
          else Inr (map fst (go_range (iter env [0]) (e_set e))))"

definition db_SCard :: "env \<Rightarrow> db \<Rightarrow> string \<Rightarrow> db_error + nat" where
  "db_SCard env d key =
     (case peek (clock env 0) (shardFor d key) key of
        None \<Rightarrow> Inr 0
      | Some e \<Rightarrow> if e_kind e \<noteq> kindSet then Inl ErrWrongType else Inr (length (e_set e)))"

section \<open>Specification\<close>

definition spec_sadd :: "string list \<Rightarrow> int \<Rightarrow> string \<Rightarrow> keyspace \<Rightarrow> keyspace \<times> (db_error + nat)" where
  "spec_sadd ms t key K =
     (case live t K key of
        None \<Rightarrow> (K(key \<mapsto> (RSet (set ms), None)), Inr (card (set ms)))
      | Some (RSet S, x) \<Rightarrow> (K(key \<mapsto> (RSet (S \<union> set ms), x)), Inr (card (set ms - S)))
      | Some _ \<Rightarrow> (K, Inl ErrWrongType))"

definition spec_srem :: "string list \<Rightarrow> int \<Rightarrow> string \<Rightarrow> keyspace \<Rightarrow> keyspace \<times> (db_error + nat)" where
  "spec_srem ms t key K =
     (case live t K key of
        None \<Rightarrow> (K(key := None), Inr 0)
      | Some (RSet S, x) \<Rightarrow>
          (K(key := if S \<subseteq> set ms then None else Some (RSet (S - set ms), x)),
           Inr (card (set ms \<inter> S)))
      | Some _ \<Rightarrow> (K, Inl ErrWrongType))"

definition spec_set_read :: "(string set \<Rightarrow> 'a) \<Rightarrow> int \<Rightarrow> string \<Rightarrow> keyspace \<Rightarrow> db_error + 'a" where
  "spec_set_read f t key K =
     (case live t K key of
        None \<Rightarrow> Inr (f {})
      | Some (RSet S, x) \<Rightarrow> Inr (f S)
      | Some _ \<Rightarrow> Inl ErrWrongType)"

section \<open>Refinement\<close>

lemma wrong_set: "e_kind e \<noteq> kindSet \<Longrightarrow>
  (case abs_entry e of (RSet m, x) \<Rightarrow> a m x | _ \<Rightarrow> b) = b"
  using other_kind(4) [of e] by (cases "abs_entry e") (auto split: obj.splits)

lemma sadd_loop_spec:
  "sadd_loop s ms = (s', n) \<Longrightarrow>
     fst ` set s' = fst ` set s \<union> set ms \<and> (gomap_ok s \<longrightarrow> gomap_ok s') \<and> n = card (set ms - fst ` set s)"
proof (induction ms arbitrary: s n)
  case (Cons m ms)
  show ?case
  proof (cases "map_of s m = None")
    case True
    with Cons.prems obtain n' where rec: "sadd_loop (AList.update m () s) ms = (s', n')" and n: "n = Suc n'"
      by (auto split: prod.splits)
    from True have "m \<notin> fst ` set s" by (simp add: map_of_eq_None_iff)
    then have "insert m (set ms) - fst ` set s = insert m (set ms - insert m (fst ` set s))" by auto
    with Cons.IH [OF rec] n show ?thesis by (auto simp: fst_set_update)
  next
    case False
    then have m: "m \<in> fst ` set s" by (simp add: map_of_eq_None_iff)
    then have "insert m (set ms) - fst ` set s = set ms - fst ` set s" by auto
    with Cons False m show ?thesis by auto
  qed
qed simp

lemma srem_loop_spec:
  "srem_loop s ms = (s', n) \<Longrightarrow>
     fst ` set s' = fst ` set s - set ms \<and> (gomap_ok s \<longrightarrow> gomap_ok s') \<and> n = card (set ms \<inter> fst ` set s)"
proof (induction ms arbitrary: s n)
  case (Cons m ms)
  show ?case
  proof (cases "map_of s m = None")
    case True
    then have m: "m \<notin> fst ` set s" by (simp add: map_of_eq_None_iff)
    then have "insert m (set ms) \<inter> fst ` set s = set ms \<inter> fst ` set s" by auto
    with Cons True m show ?thesis by auto
  next
    case False
    with Cons.prems obtain n' where rec: "srem_loop (AList.delete m s) ms = (s', n')" and n: "n = Suc n'"
      by (auto split: prod.splits)
    from False have "m \<in> fst ` set s" by (simp add: map_of_eq_None_iff)
    then have "insert m (set ms) \<inter> fst ` set s = insert m (set ms \<inter> (fst ` set s - {m}))" by auto
    with Cons.IH [OF rec] n show ?thesis by (auto simp: fst_set_delete)
  qed
qed simp

lemma db_SAdd_refines:
  assumes ok: "db_ok d" and ms: "ms \<noteq> []"
  shows "db_ok (fst (db_SAdd env d key ms)) \<and>
    (keyspace (fst (db_SAdd env d key ms)), snd (db_SAdd env d key ms)) =
      spec_sadd ms (clock env 0) key (keyspace d)"
  using db_ok_gomap [OF ok, of key]
proof (cases rule: sets.typedEntry_cases [where t = "clock env 0" and key = key])
  case (absent sh')
  obtain s n where l: "sadd_loop [] ms = (s, n)" by fastforce
  with sadd_loop_spec [OF l] ms have "s \<noteq> []" by (cases ms) auto
  with sadd_loop_spec [OF l] l ok absent show ?thesis
    by (simp add: db_SAdd_def spec_sadd_def live_keyspace Let_def zeroEntry_def shard_write)
next
  case (wrong e)
  with ok show ?thesis
    by (simp add: db_SAdd_def spec_sadd_def live_keyspace wrong_set shard_write)
next
  case (right e)
  obtain s n where l: "sadd_loop (e_set e) ms = (s, n)" by fastforce
  with sadd_loop_spec [OF l] ms have "s \<noteq> []" by (cases ms) auto
  with sadd_loop_spec [OF l] l peek_entry_ok [OF ok right(1)] ok right
  show ?thesis by (simp add: db_SAdd_def spec_sadd_def live_keyspace shard_write)
qed

lemma db_SRem_refines:
  assumes ok: "db_ok d"
  shows "db_ok (fst (db_SRem env d key ms)) \<and>
    (keyspace (fst (db_SRem env d key ms)), snd (db_SRem env d key ms)) =
      spec_srem ms (clock env 0) key (keyspace d)"
  using db_ok_gomap [OF ok, of key]
proof (cases rule: sets.typedEntry_cases [where t = "clock env 0" and key = key])
  case (absent sh')
  with ok show ?thesis
    by (simp add: db_SRem_def spec_srem_def live_keyspace shard_write)
next
  case (wrong e)
  with ok show ?thesis
    by (simp add: db_SRem_def spec_srem_def live_keyspace wrong_set shard_write)
next
  case (right e)
  obtain s n where l: "srem_loop (e_set e) ms = (s, n)" by fastforce
  note spec = srem_loop_spec [OF l]
  then have "s = [] \<longleftrightarrow> fst ` set (e_set e) \<subseteq> set ms" by (metis Diff_eq_empty_iff image_is_empty set_empty)
  with spec peek_entry_ok [OF ok right(1)] ok right l
  show ?thesis by (simp add: db_SRem_def spec_srem_def live_keyspace Let_def shard_write touches_update)
qed

lemma db_SIsMember_refines:
  "db_SIsMember env d key m = spec_set_read (\<lambda>S. m \<in> S) (clock env 0) key (keyspace d)"
  by (cases "peek (clock env 0) (shardFor d key) key")
    (auto simp: db_SIsMember_def spec_set_read_def live_keyspace wrong_set map_of_eq_None_iff)

lemma db_SCard_refines:
  assumes ok: "db_ok d"
  shows "db_SCard env d key = spec_set_read card (clock env 0) key (keyspace d)"
proof (cases "peek (clock env 0) (shardFor d key) key")
  case None
  then show ?thesis by (simp add: db_SCard_def spec_set_read_def live_keyspace)
next
  case (Some e)
  with peek_entry_ok [OF ok Some] show ?thesis
    by (cases "e_kind e = kindSet")
      (simp_all add: db_SCard_def spec_set_read_def live_keyspace wrong_set length_gomap
        dom_map_of_conv_image_fst)
qed

lemma db_SMembers_refines:
  assumes ok: "db_ok d" and r: "db_SMembers env d key = Inr ms"
  shows "distinct ms \<and> spec_set_read id (clock env 0) key (keyspace d) = Inr (set ms)"
proof (cases "peek (clock env 0) (shardFor d key) key")
  case None
  with r show ?thesis by (auto simp: db_SMembers_def spec_set_read_def live_keyspace)
next
  case (Some e)
  with r have k: "e_kind e = kindSet" by (auto simp: db_SMembers_def split: if_splits)
  with r Some have ms: "ms = map fst (go_range (iter env [0]) (e_set e))"
    by (simp add: db_SMembers_def)
  from peek_entry_ok [OF ok Some] k Some show ?thesis
    by (simp add: ms spec_set_read_def live_keyspace)
qed

end
