(* ===== verification/Store_Keys.thy ===== *)
theory Store_Keys
  imports Typed_Entry
begin

text \<open>
  The string and type-agnostic operations of \<open>internal/db/db.go\<close> and the key-expiry operations of
  \<open>internal/db/expiry.go\<close> that clients reach: \<open>Get\<close>, \<open>Set\<close>, \<open>Del\<close>, \<open>Exists\<close>, \<open>Expire\<close>,
  \<open>Persist\<close>, \<open>TTL\<close>, \<open>KeyCount\<close>.
\<close>

section \<open>Operations\<close>

definition expireIfNeeded :: "env \<Rightarrow> db \<Rightarrow> string \<Rightarrow> db \<times> bool" where
  "expireIfNeeded env d key =
     (case map_of (shardFor d key) key of
        None \<Rightarrow> (d, False)
      | Some e \<Rightarrow>
          if expired (clock env 0) e then (put_shard d key (AList.delete key (shardFor d key)), True)
          else (d, False))"

text \<open>\<open>Get\<close> reads the clock under the read lock and again, in \<open>expireIfNeeded\<close>, under the write lock.\<close>

definition db_Get :: "env \<Rightarrow> db \<Rightarrow> string \<Rightarrow> db \<times> (db_error + string option)" where
  "db_Get env d key =
     (case map_of (shardFor d key) key of
        None \<Rightarrow> (d, Inr None)
      | Some e \<Rightarrow>
          if expired (clock env 0) e then (fst (expireIfNeeded (later env 1) d key), Inr None)
          else if e_kind e \<noteq> kindString then (d, Inl ErrWrongType)
          else (d, Inr (Some (e_str e))))"

definition db_Set :: "db \<Rightarrow> string \<Rightarrow> string \<Rightarrow> db" where
  "db_Set d key v =
     put_shard d key (AList.update key (zeroEntry\<lparr>e_kind := kindString, e_str := v\<rparr>) (shardFor d key))"

fun db_Del :: "env \<Rightarrow> db \<Rightarrow> string list \<Rightarrow> db \<times> nat" where
  "db_Del env d [] = (d, 0)"
| "db_Del env d (key # keys) =
     (case liveEntry (clock env 0) (shardFor d key) key of
        (sh, Some _) \<Rightarrow>
          (case db_Del (later env 1) (put_shard d key (AList.delete key sh)) keys of
             (d', removed) \<Rightarrow> (d', Suc removed))
      | (sh, None) \<Rightarrow> db_Del (later env 1) (put_shard d key sh) keys)"

fun db_Exists :: "env \<Rightarrow> db \<Rightarrow> string list \<Rightarrow> nat" where
  "db_Exists env d [] = 0"
| "db_Exists env d (key # keys) =
     (case peek (clock env 0) (shardFor d key) key of
        Some _ \<Rightarrow> Suc (db_Exists (later env 1) d keys)
      | None \<Rightarrow> db_Exists (later env 1) d keys)"

definition db_Expire :: "env \<Rightarrow> db \<Rightarrow> string \<Rightarrow> int \<Rightarrow> db \<times> bool" where
  "db_Expire env d key dur =
     (case liveEntry (clock env 0) (shardFor d key) key of
        (sh, None) \<Rightarrow> (put_shard d key sh, False)
      | (sh, Some e) \<Rightarrow>
          if dur \<le> 0 then (put_shard d key (AList.delete key sh), True)
          else (put_shard d key (AList.update key (e\<lparr>expireAt := Some (clock env 1 + dur)\<rparr>) sh), True))"

definition db_Persist :: "env \<Rightarrow> db \<Rightarrow> string \<Rightarrow> db \<times> bool" where
  "db_Persist env d key =
     (case liveEntry (clock env 0) (shardFor d key) key of
        (sh, None) \<Rightarrow> (put_shard d key sh, False)
      | (sh, Some e) \<Rightarrow>
          if expireAt e = None then (put_shard d key sh, False)
          else (put_shard d key (AList.update key (e\<lparr>expireAt := None\<rparr>) sh), True))"

text \<open>\<open>time.Until\<close> saturates at the ends of \<open>int64\<close>.\<close>

definition db_TTL :: "env \<Rightarrow> db \<Rightarrow> string \<Rightarrow> int \<times> bool \<times> bool" where
  "db_TTL env d key =
     (case peek (clock env 0) (shardFor d key) key of
        None \<Rightarrow> (0, False, False)
      | Some e \<Rightarrow>
          (case expireAt e of
             None \<Rightarrow> (0, True, False)
           | Some x \<Rightarrow> (sat64 (x - clock env 1), True, True)))"

definition KeyCount :: "db \<Rightarrow> nat" where
  "KeyCount d = sum_list (map length (shards d))"

section \<open>Specification\<close>

definition spec_get :: "int \<Rightarrow> string \<Rightarrow> keyspace \<Rightarrow> db_error + string option" where
  "spec_get t key K =
     (case live t K key of
        None \<Rightarrow> Inr None
      | Some (RString s, x) \<Rightarrow> Inr (Some s)
      | Some _ \<Rightarrow> Inl ErrWrongType)"

definition spec_expire :: "int \<Rightarrow> int \<Rightarrow> int \<Rightarrow> string \<Rightarrow> keyspace \<Rightarrow> keyspace \<times> bool" where
  "spec_expire dur t t' key K =
     (case live t K key of
        None \<Rightarrow> (K(key := None), False)
      | Some (v, x) \<Rightarrow> (K(key := if dur \<le> 0 then None else Some (v, Some (t' + dur))), True))"

definition spec_persist :: "int \<Rightarrow> string \<Rightarrow> keyspace \<Rightarrow> keyspace \<times> bool" where
  "spec_persist t key K =
     (case live t K key of
        None \<Rightarrow> (K(key := None), False)
      | Some (v, x) \<Rightarrow> (K(key \<mapsto> (v, None)), x \<noteq> None))"

section \<open>Refinement\<close>

lemma wrong_string: "e_kind e \<noteq> kindString \<Longrightarrow>
  (case abs_entry e of (RString m, x) \<Rightarrow> a m x | _ \<Rightarrow> b) = b"
  using other_kind(1) [of e] by (cases "abs_entry e") (auto split: obj.splits)

lemma abs_entry_expire [simp]: "abs_entry (e\<lparr>expireAt := x\<rparr>) = (abs_obj e, x)"
  by (simp add: abs_entry_def abs_obj_def split: kind.split)

lemma entry_ok_expire [simp]: "entry_ok (e\<lparr>expireAt := x\<rparr>) = entry_ok e"
  by (simp add: entry_ok_def split: kind.split)

lemma db_Get_refines:
  assumes "db_ok d"
  shows "db_ok (fst (db_Get env d key)) \<and> pubsub (fst (db_Get env d key)) = pubsub d \<and>
    (keyspace (fst (db_Get env d key)) = keyspace d \<or>
     keyspace (fst (db_Get env d key)) = purge (clock env 0) key (keyspace d)) \<and>
    snd (db_Get env d key) = spec_get (clock env 0) key (keyspace d)"
proof (cases "map_of (shardFor d key) key")
  case None
  with assms show ?thesis by (simp add: db_Get_def spec_get_def live_keyspace peek_def)
next
  case (Some e)
  show ?thesis
  proof (cases "expired (clock env 0) e")
    case True
    with Some assms show ?thesis
      by (simp add: db_Get_def expireIfNeeded_def purge_def spec_get_def live_keyspace peek_def put_delete)
  next
    case False
    with Some assms show ?thesis
      by (auto simp: db_Get_def spec_get_def live_keyspace peek_def wrong_string)
  qed
qed

lemma db_Set_refines:
  assumes "db_ok d"
  shows "db_ok (db_Set d key v) \<and> keyspace (db_Set d key v) = (keyspace d)(key \<mapsto> (RString v, None))"
  using assms by (simp add: db_Set_def put_update zeroEntry_def)

lemma db_Expire_refines:
  assumes ok: "db_ok d"
  shows "db_ok (fst (db_Expire env d key dur)) \<and>
    (keyspace (fst (db_Expire env d key dur)), snd (db_Expire env d key dur)) =
      spec_expire dur (clock env 0) (clock env 1) key (keyspace d)"
  using db_ok_gomap [OF ok, of key]
proof (cases rule: liveEntry_cases [where t = "clock env 0" and key = key])
  case (1 sh')
  with ok show ?thesis by (simp add: db_Expire_def spec_expire_def live_keyspace put_absent)
next
  case (2 e)
  with ok peek_entry_ok [OF ok 2(2)] show ?thesis
    by (simp add: db_Expire_def spec_expire_def live_keyspace put_delete put_update abs_entry_def [of e])
qed

lemma db_Persist_refines:
  assumes ok: "db_ok d"
  shows "db_ok (fst (db_Persist env d key)) \<and>
    (keyspace (fst (db_Persist env d key)), snd (db_Persist env d key)) =
      spec_persist (clock env 0) key (keyspace d)"
  using db_ok_gomap [OF ok, of key]
proof (cases rule: liveEntry_cases [where t = "clock env 0" and key = key])
  case (1 sh')
  with ok show ?thesis by (simp add: db_Persist_def spec_persist_def live_keyspace put_absent)
next
  case (2 e)
  have same: "expireAt e = None \<Longrightarrow> (keyspace d)(key \<mapsto> (abs_obj e, None)) = keyspace d"
    using keyspace_entry_ok [OF ok 2(3)] by (simp add: abs_entry_def fun_upd_idem)
  from 2 ok peek_entry_ok [OF ok 2(2)] show ?thesis
    by (cases "expireAt e")
      (simp_all add: db_Persist_def spec_persist_def live_keyspace put_update abs_entry_def [of e]
        put_shard_same same)
qed

lemma db_TTL_refines:
  "db_TTL env d key =
     (case live (clock env 0) (keyspace d) key of
        None \<Rightarrow> (0, False, False)
      | Some (_, None) \<Rightarrow> (0, True, False)
      | Some (_, Some x) \<Rightarrow> (sat64 (x - clock env 1), True, True))"
  by (auto simp: db_TTL_def live_keyspace abs_entry_def split: option.splits)

text \<open>
  \<open>Del\<close> takes each key's lock and reads the clock for it; a key named twice counts once. \<open>Exists\<close>
  counts every occurrence.
\<close>

lemma card_Suc_index:
  "card {i. i < Suc n \<and> P i} = (if P 0 then 1 else 0) + card {i. i < n \<and> P (Suc i)}"
proof -
  have "{i. i < Suc n \<and> P i} = {i. i = 0 \<and> P 0} \<union> Suc ` {i. i < n \<and> P (Suc i)}"
    by (auto simp: less_Suc_eq_0_disj)
  moreover have "card ({i. i = 0 \<and> P 0} \<union> Suc ` {i. i < n \<and> P (Suc i)}) =
      card {i::nat. i = 0 \<and> P 0} + card (Suc ` {i. i < n \<and> P (Suc i)})"
    by (rule card_Un_disjoint) auto
  ultimately show ?thesis by (simp add: card_image)
qed

lemma db_Del_refines:
  assumes "db_ok d"
  shows "db_ok (fst (db_Del env d keys)) \<and>
    keyspace (fst (db_Del env d keys)) = (keyspace d) |` (- set keys) \<and>
    snd (db_Del env d keys) =
      card {i. i < length keys \<and> keys ! i \<notin> set (take i keys) \<and> live (clock env i) (keyspace d) (keys ! i) \<noteq> None}"
  using assms
proof (induction keys arbitrary: env d)
  case Nil
  then show ?case by simp
next
  case (Cons key keys)
  define d1 where "d1 = (case liveEntry (clock env 0) (shardFor d key) key of
      (sh, Some _) \<Rightarrow> put_shard d key (AList.delete key sh) | (sh, None) \<Rightarrow> put_shard d key sh)"
  define hit where "hit \<longleftrightarrow> live (clock env 0) (keyspace d) key \<noteq> None"
  have d1: "db_ok d1 \<and> keyspace d1 = (keyspace d)(key := None) \<and>
      hit = (snd (liveEntry (clock env 0) (shardFor d key) key) \<noteq> None)"
    using db_ok_gomap [OF Cons.prems, of key]
    by (cases rule: liveEntry_cases [where t = "clock env 0" and key = key])
      (use Cons.prems in \<open>simp_all add: d1_def hit_def live_keyspace put_delete put_absent\<close>)
  let ?r = "db_Del (later env 1) d1 keys"
  have step: "db_Del env d (key # keys) = (fst ?r, (if hit then 1 else 0) + snd ?r)"
    using d1 by (auto simp: d1_def split: prod.splits option.splits)
  have live1: "live t (keyspace d1) k = (if k = key then None else live t (keyspace d) k)" for t k
    using d1 by (simp add: live_upd)
  have ih: "db_ok (fst ?r)" "keyspace (fst ?r) = keyspace d1 |` (- set keys)"
    "snd ?r = card {i. i < length keys \<and> keys ! i \<notin> set (take i keys) \<and>
       live (clock env (Suc i)) (keyspace d1) (keys ! i) \<noteq> None}"
    using Cons.IH [of d1 "later env 1"] d1 by (simp_all del: fun_upd_apply)
  have "keyspace d1 |` (- set keys) = (keyspace d) |` (- set (key # keys))"
    using d1 by (auto simp: restrict_map_def fun_eq_iff)
  moreover have "{i. i < length keys \<and> keys ! i \<notin> set (take i keys) \<and>
       live (clock env (Suc i)) (keyspace d1) (keys ! i) \<noteq> None} =
     {i. i < length keys \<and> keys ! i \<notin> set (take (Suc i) (key # keys)) \<and>
       live (clock env (Suc i)) (keyspace d) (keys ! i) \<noteq> None}"
    by (auto simp: live1)
  ultimately show ?case
    unfolding step using ih by (simp add: card_Suc_index hit_def)
qed

lemma db_Exists_refines:
  "db_Exists env d keys = card {i. i < length keys \<and> live (clock env i) (keyspace d) (keys ! i) \<noteq> None}"
proof (induction keys arbitrary: env)
  case (Cons key keys)
  from Cons [of "later env 1"] show ?case
    by (cases "peek (clock env 0) (shardFor d key) key") (simp_all add: card_Suc_index live_keyspace)
qed simp

section \<open>A key with a deadline\<close>

lemma expiring_key:
  fixes k v
  defines "d \<equiv> fst (db_Expire (at_time 0) (db_Set db_New k v) k 5)"
  shows "db_ok d" and "keyspace d = [k \<mapsto> (RString v, Some 5)]"
proof -
  note s = db_Set_refines [OF db_ok_New, of k v]
  from db_Expire_refines [of "db_Set db_New k v" "at_time 0" k 5] s
  show "db_ok d" "keyspace d = [k \<mapsto> (RString v, Some 5)]"
    by (simp_all add: d_def spec_expire_def live_def dead_def keyspace_New)
qed

end
