(* ===== verification/GoLib.thy ===== *)
theory GoLib
  imports Prelude
begin

text \<open>
  What the server uses of Go's \<open>strconv\<close> and \<open>strings\<close> packages. A Go string or byte slice is a
  \<open>string\<close> (a list of 8-bit characters). \<open>ParseInt\<close> and \<open>FormatInt\<close> are base 10, 64 bits;
  \<open>ToUpper\<close> and \<open>ToLower\<close> take the fast path on ASCII input and otherwise map runes through the
  Unicode case tables of the Go release, which are an argument here.
\<close>

section \<open>Decimal integers\<close>

definition digit :: "nat \<Rightarrow> char" where
  "digit d = char_of (48 + d)"

definition digit_val :: "char \<Rightarrow> nat" where
  "digit_val c = of_char c - 48"

definition is_digit :: "char \<Rightarrow> bool" where
  "is_digit c \<longleftrightarrow> 48 \<le> (of_char c :: nat) \<and> (of_char c :: nat) \<le> 57"

fun dec :: "nat \<Rightarrow> string" where
  "dec n = (if n < 10 then [digit n] else dec (n div 10) @ [digit (n mod 10)])"

declare dec.simps [simp del]

definition FormatInt :: "int \<Rightarrow> string" where
  "FormatInt x = (if x < 0 then CHR ''-'' # dec (nat (- x)) else dec (nat x))"

definition Itoa :: "nat \<Rightarrow> string" where
  "Itoa n = FormatInt (int n)"

fun parse_dec :: "nat \<Rightarrow> string \<Rightarrow> nat option" where
  "parse_dec n [] = Some n"
| "parse_dec n (c # cs) =
     (if is_digit c then parse_dec (10 * n + digit_val c) cs else None)"

definition ParseInt :: "string \<Rightarrow> int option" where
  "ParseInt s =
     (let (neg, ds) =
        (case s of [] \<Rightarrow> (False, [])
         | c # cs \<Rightarrow> if c = CHR ''+'' then (False, cs)
                    else if c = CHR ''-'' then (True, cs) else (False, s))
      in if ds = [] then None
         else case parse_dec 0 ds of
           None \<Rightarrow> None
         | Some n \<Rightarrow>
             if \<not> neg \<and> 9223372036854775808 \<le> n then None
             else if neg \<and> 9223372036854775808 < n then None
             else Some (if neg then - int n else int n))"

lemma of_char_digit [simp]: "d < 10 \<Longrightarrow> of_char (digit d) = 48 + d"
  by (simp add: digit_def)

lemma digit_val_digit [simp]: "d < 10 \<Longrightarrow> digit_val (digit d) = d"
  by (simp add: digit_val_def)

lemma is_digit_digit [simp]: "d < 10 \<Longrightarrow> is_digit (digit d)"
  by (simp add: is_digit_def)

lemma is_digit_not_special:
  "is_digit c \<Longrightarrow> c \<noteq> CHR ''-'' \<and> c \<noteq> CHR ''+'' \<and> c \<noteq> CHR 0x0A \<and> c \<noteq> CHR 0x0D"
  by (auto simp: is_digit_def)

lemma dec_nonempty [simp]: "dec n \<noteq> []"
  by (subst dec.simps) simp

lemma dec_digits: "c \<in> set (dec n) \<Longrightarrow> is_digit c"
proof (induction n rule: dec.induct)
  case (1 n)
  then show ?case
    by (cases "n < 10") (auto simp: dec.simps [of n])
qed

lemma parse_dec_append:
  "parse_dec n (xs @ ys) = Option.bind (parse_dec n xs) (\<lambda>m. parse_dec m ys)"
  by (induction n xs rule: parse_dec.induct) auto

lemma parse_dec_dec: "parse_dec 0 (dec n) = Some n"
proof (induction n rule: dec.induct)
  case (1 n)
  show ?case
  proof (cases "n < 10")
    case True
    then show ?thesis by (simp add: dec.simps [of n])
  next
    case False
    with 1 show ?thesis by (simp add: dec.simps [of n] parse_dec_append)
  qed
qed

lemma dec_hd: "\<exists>c cs. dec n = c # cs \<and> is_digit c"
  by (metis dec_digits dec_nonempty list.set_intros(1) neq_Nil_conv)

lemma ParseInt_dec:
  "ParseInt (dec n) = (if n < 9223372036854775808 then Some (int n) else None)"
proof -
  obtain c cs where "dec n = c # cs" "is_digit c" using dec_hd by blast
  with parse_dec_dec [of n] show ?thesis
    by (auto simp: ParseInt_def dest: is_digit_not_special)
qed

lemma ParseInt_neg_dec:
  "ParseInt (CHR ''-'' # dec n) = (if n \<le> 9223372036854775808 then Some (- int n) else None)"
  by (simp add: ParseInt_def parse_dec_dec)

lemma ParseInt_FormatInt: "in_int64 x \<Longrightarrow> ParseInt (FormatInt x) = Some x"
  by (auto simp: FormatInt_def ParseInt_dec ParseInt_neg_dec in_int64_def)

lemma ParseInt_in_int64: "ParseInt s = Some x \<Longrightarrow> in_int64 x"
  by (auto simp: ParseInt_def in_int64_def split: list.splits option.splits if_splits)

lemma FormatInt_no_eol: "CHR 0x0A \<notin> set (FormatInt x)" "CHR 0x0D \<notin> set (FormatInt x)"
  by (auto simp: FormatInt_def dest!: dec_digits is_digit_not_special)

lemma FormatInt_nonempty [simp]: "FormatInt x \<noteq> []"
  by (simp add: FormatInt_def)

section \<open>Letter case\<close>

record unicode =
  upper_table :: "nat \<Rightarrow> nat"
  lower_table :: "nat \<Rightarrow> nat"

definition ascii :: "char \<Rightarrow> bool" where
  "ascii c \<longleftrightarrow> (of_char c :: nat) < 128"

definition upper_char :: "char \<Rightarrow> char" where
  "upper_char c = (if 97 \<le> (of_char c :: nat) \<and> (of_char c :: nat) \<le> 122
                   then char_of (of_char c - 32 :: nat) else c)"

definition lower_char :: "char \<Rightarrow> char" where
  "lower_char c = (if 65 \<le> (of_char c :: nat) \<and> (of_char c :: nat) \<le> 90
                   then char_of (of_char c + 32 :: nat) else c)"

definition cont_byte :: "nat \<Rightarrow> bool" where
  "cont_byte b \<longleftrightarrow> 0x80 \<le> b \<and> b \<le> 0xBF"

text \<open>
  \<open>utf8.DecodeRuneInString\<close>: the rune and its width. An ill-formed sequence gives
  \<open>RuneError\<close> (U+FFFD) of width 1.
\<close>

definition decodeRune :: "nat list \<Rightarrow> nat \<times> nat" where
  "decodeRune bs =
     (case bs of
        [] \<Rightarrow> (0xFFFD, 1)
      | b0 # rest \<Rightarrow>
          if b0 < 0x80 then (b0, 1)
          else if 0xC2 \<le> b0 \<and> b0 \<le> 0xDF then
            (case rest of
               b1 # _ \<Rightarrow> if cont_byte b1 then ((b0 - 0xC0) * 64 + (b1 - 0x80), 2) else (0xFFFD, 1)
             | _ \<Rightarrow> (0xFFFD, 1))
          else if 0xE0 \<le> b0 \<and> b0 \<le> 0xEF then
            (case rest of
               b1 # b2 # _ \<Rightarrow>
                 if (if b0 = 0xE0 then 0xA0 else 0x80) \<le> b1 \<and>
                    b1 \<le> (if b0 = 0xED then 0x9F else 0xBF) \<and> cont_byte b2
                 then ((b0 - 0xE0) * 4096 + (b1 - 0x80) * 64 + (b2 - 0x80), 3)
                 else (0xFFFD, 1)
             | _ \<Rightarrow> (0xFFFD, 1))
          else if 0xF0 \<le> b0 \<and> b0 \<le> 0xF4 then
            (case rest of
               b1 # b2 # b3 # _ \<Rightarrow>
                 if (if b0 = 0xF0 then 0x90 else 0x80) \<le> b1 \<and>
                    b1 \<le> (if b0 = 0xF4 then 0x8F else 0xBF) \<and> cont_byte b2 \<and> cont_byte b3
                 then ((b0 - 0xF0) * 262144 + (b1 - 0x80) * 4096 + (b2 - 0x80) * 64 + (b3 - 0x80), 4)
                 else (0xFFFD, 1)
             | _ \<Rightarrow> (0xFFFD, 1))
          else (0xFFFD, 1))"

definition encodeRune :: "nat \<Rightarrow> string" where
  "encodeRune r =
     (let r = (if 0x10FFFF < r \<or> 0xD800 \<le> r \<and> r \<le> 0xDFFF then 0xFFFD else r)
      in map char_of
        (if r < 0x80 then [r]
         else if r < 0x800 then [0xC0 + r div 64, 0x80 + r mod 64]
         else if r < 0x10000 then [0xE0 + r div 4096, 0x80 + r div 64 mod 64, 0x80 + r mod 64]
         else [0xF0 + r div 262144, 0x80 + r div 4096 mod 64, 0x80 + r div 64 mod 64,
               0x80 + r mod 64]))"

fun runes :: "nat list \<Rightarrow> nat list" where
  "runes [] = []"
| "runes (b # bs) = (let (r, w) = decodeRune (b # bs) in r # runes (drop (w - 1) bs))"

definition strings_Map :: "(nat \<Rightarrow> nat) \<Rightarrow> string \<Rightarrow> string" where
  "strings_Map f s = concat (map (encodeRune \<circ> f) (runes (map of_char s)))"

definition ToUpper :: "unicode \<Rightarrow> string \<Rightarrow> string" where
  "ToUpper u s =
     (if list_all ascii s then map upper_char s
      else strings_Map (\<lambda>r. if r < 128 then of_char (upper_char (char_of r)) else upper_table u r) s)"

definition ToLower :: "unicode \<Rightarrow> string \<Rightarrow> string" where
  "ToLower u s =
     (if list_all ascii s then map lower_char s
      else strings_Map (\<lambda>r. if r < 128 then of_char (lower_char (char_of r)) else lower_table u r) s)"

text \<open>
  \<open>strings.EqualFold\<close> against the one constant the server compares with, \<open>PING\<close>: no rune outside
  ASCII folds to one of its letters, so byte-wise ASCII folding is exact.
\<close>

definition EqualFold :: "string \<Rightarrow> string \<Rightarrow> bool" where
  "EqualFold s t \<longleftrightarrow> map lower_char s = map lower_char t"

lemma of_char_upper_char:
  "(of_char (upper_char c) :: nat) =
     (if 97 \<le> (of_char c :: nat) \<and> (of_char c :: nat) \<le> 122 then of_char c - 32 else of_char c)"
  by (auto simp: upper_char_def intro!: mod_less)

lemma of_char_lower_char:
  "(of_char (lower_char c) :: nat) =
     (if 65 \<le> (of_char c :: nat) \<and> (of_char c :: nat) \<le> 90 then of_char c + 32 else of_char c)"
  by (auto simp: lower_char_def intro!: mod_less)

lemma char_eqI: "(of_char c :: nat) = of_char d \<Longrightarrow> c = d"
  by simp

lemma upper_char_idem [simp]: "upper_char (upper_char c) = upper_char c"
  by (rule char_eqI) (simp only: of_char_upper_char, auto)

lemma upper_char_ascii [simp]: "ascii (upper_char c) = ascii c"
  by (auto simp: ascii_def of_char_upper_char)

lemma upper_lower_char [simp]: "upper_char (lower_char c) = upper_char c"
  by (rule char_eqI) (simp only: of_char_upper_char of_char_lower_char, auto)

lemma lower_char_ascii [simp]: "ascii (lower_char c) = ascii c"
  by (auto simp: ascii_def of_char_lower_char)

lemma ToUpper_ascii: "list_all ascii s \<Longrightarrow> ToUpper u s = map upper_char s"
  by (simp add: ToUpper_def)

end
