(* ===== verification/Resp.thy ===== *)
theory Resp
  imports GoLib
begin

text \<open>
  The wire format, \<open>internal/protocol\<close>: the \<open>Value\<close> tagged union, \<open>Encode\<close> and \<open>Decode\<close>.
  A reader is the bytes still to come together with the error the source reports after them;
  decoding returns the value and the remaining bytes, an error, or a Go panic (the allocation of
  a length the runtime refuses).
\<close>

section \<open>Values\<close>

text \<open>
  \<open>Value\<close> with its \<open>Type\<close> discriminator as the constructor. \<open>None\<close> stands for a nil slice.
  \<open>BadType\<close> is a struct whose \<open>Type\<close> byte is none of the five (the zero \<open>Value\<close> among them).
\<close>

datatype resp =
    SimpleString string
  | ErrorV string
  | IntegerV int
  | BulkString "string option"
  | ArrayV "resp list option"
  | BadType char

text \<open>Field reads of the Go struct: a field another type selects holds its zero value.\<close>

definition val_Bulk :: "resp \<Rightarrow> string option" where
  "val_Bulk v = (case v of BulkString b \<Rightarrow> b | _ \<Rightarrow> None)"

definition val_Array :: "resp \<Rightarrow> resp list" where
  "val_Array v = (case v of ArrayV (Some vs) \<Rightarrow> vs | _ \<Rightarrow> [])"

definition is_array :: "resp \<Rightarrow> bool" where
  "is_array v = (case v of ArrayV _ \<Rightarrow> True | _ \<Rightarrow> False)"

definition is_error :: "resp \<Rightarrow> bool" where
  "is_error v = (case v of ErrorV _ \<Rightarrow> True | _ \<Rightarrow> False)"

text \<open>\<open>string(v.Bulk)\<close>: a nil slice converts to the empty string.\<close>

definition bulk_str :: "resp \<Rightarrow> string" where
  "bulk_str v = (case val_Bulk v of None \<Rightarrow> [] | Some b \<Rightarrow> b)"

lemmas val_defs = val_Bulk_def val_Array_def is_array_def is_error_def bulk_str_def

section \<open>Encoding\<close>

abbreviation CR :: char where "CR \<equiv> CHR 0x0D"
abbreviation LF :: char where "LF \<equiv> CHR 0x0A"
abbreviation CRLF :: string where "CRLF \<equiv> [CR, LF]"

text \<open>
  The bytes written and whether \<open>Encode\<close> returned nil. An unknown type byte fails after the bytes
  of the elements before it have been written.
\<close>

fun Encode :: "resp \<Rightarrow> string \<times> bool"
  and encodeElems :: "resp list \<Rightarrow> string \<times> bool" where
  "Encode (SimpleString s) = (''+'' @ s @ CRLF, True)"
| "Encode (ErrorV s) = (''-'' @ s @ CRLF, True)"
| "Encode (IntegerV n) = ('':'' @ FormatInt n @ CRLF, True)"
| "Encode (BulkString None) = (''$-1'' @ CRLF, True)"
| "Encode (BulkString (Some b)) = (''$'' @ Itoa (length b) @ CRLF @ b @ CRLF, True)"
| "Encode (ArrayV None) = (''*-1'' @ CRLF, True)"
| "Encode (ArrayV (Some vs)) =
     (case encodeElems vs of (bs, ok) \<Rightarrow> (''*'' @ Itoa (length vs) @ CRLF @ bs, ok))"
| "Encode (BadType c) = ([], False)"
| "encodeElems [] = ([], True)"
| "encodeElems (v # vs) =
     (case Encode v of
        (bs, False) \<Rightarrow> (bs, False)
      | (bs, True) \<Rightarrow> (case encodeElems vs of (bs', ok) \<Rightarrow> (bs @ bs', ok)))"

abbreviation wire :: "resp \<Rightarrow> string" where "wire v \<equiv> fst (Encode v)"
abbreviation wires :: "resp list \<Rightarrow> string" where "wires vs \<equiv> fst (encodeElems vs)"

section \<open>Decoding\<close>

datatype io_err =
    EOF
  | UnexpectedEOF
  | UnknownType char
  | BulkNotCRLF
  | LineNotCRLF
  | InvalidInteger string
  | OtherIO string

datatype 'a decoded = Ret 'a string | Fail io_err | Panic

definition unexpectEOF :: "io_err \<Rightarrow> io_err" where
  "unexpectEOF e = (if e = EOF then UnexpectedEOF else e)"

text \<open>
  The runtime's bound on one allocation on a 64-bit target (48 bits of heap addresses), and the
  size of a \<open>Value\<close>: \<open>make\<close> panics on a negative length or a larger request.
\<close>

definition maxAlloc :: int where "maxAlloc = 281474976710656"

definition makeslice_ok :: "int \<Rightarrow> int \<Rightarrow> bool" where
  "makeslice_ok elem_size n \<longleftrightarrow> 0 \<le> n \<and> elem_size * n \<le> maxAlloc"

abbreviation value_size :: int where "value_size \<equiv> 80"

text \<open>\<open>bufio.Reader.ReadBytes('\n')\<close>: up to and including the first line feed.\<close>

fun ReadBytes :: "string \<Rightarrow> (string \<times> string) option" where
  "ReadBytes [] = None"
| "ReadBytes (c # cs) =
     (if c = LF then Some ([LF], cs)
      else case ReadBytes cs of None \<Rightarrow> None | Some (l, r) \<Rightarrow> Some (c # l, r))"

definition readLine :: "io_err \<Rightarrow> string \<Rightarrow> string decoded" where
  "readLine e s =
     (case ReadBytes s of
        None \<Rightarrow> Fail (unexpectEOF e)
      | Some (line, r) \<Rightarrow>
          if length line < 2 \<or> line ! (length line - 2) \<noteq> CR then Fail LineNotCRLF
          else Ret (take (length line - 2) line) r)"

definition readInt :: "io_err \<Rightarrow> string \<Rightarrow> int decoded" where
  "readInt e s =
     (case readLine e s of
        Fail x \<Rightarrow> Fail x
      | Panic \<Rightarrow> Panic
      | Ret line r \<Rightarrow>
          (case ParseInt line of None \<Rightarrow> Fail (InvalidInteger line) | Some n \<Rightarrow> Ret n r))"

definition decodeBulk :: "io_err \<Rightarrow> string \<Rightarrow> resp decoded" where
  "decodeBulk e s =
     (case readInt e s of
        Fail x \<Rightarrow> Fail x
      | Panic \<Rightarrow> Panic
      | Ret n r \<Rightarrow>
          if n < 0 then Ret (BulkString None) r
          else if \<not> makeslice_ok 1 (wrap64 (n + 2)) then Panic
          else if int (length r) < n + 2 then Fail (unexpectEOF e)
          else let buf = take (nat (n + 2)) r
               in if buf ! nat n \<noteq> CR \<or> buf ! nat (n + 1) \<noteq> LF then Fail BulkNotCRLF
                  else Ret (BulkString (Some (take (nat n) buf))) (drop (nat (n + 2)) r))"

function (sequential)
      Decode :: "io_err \<Rightarrow> string \<Rightarrow> resp decoded"
  and decodeArray :: "io_err \<Rightarrow> string \<Rightarrow> resp decoded"
  and decodeElems :: "io_err \<Rightarrow> int \<Rightarrow> string \<Rightarrow> resp list decoded" where
  "Decode e [] = Fail e"
| "Decode e (prefix # r) =
     (if prefix = CHR ''+'' then
        (case readLine e r of
           Ret line r' \<Rightarrow> Ret (SimpleString line) r' | Fail x \<Rightarrow> Fail x | Panic \<Rightarrow> Panic)
      else if prefix = CHR ''-'' then
        (case readLine e r of
           Ret line r' \<Rightarrow> Ret (ErrorV line) r' | Fail x \<Rightarrow> Fail x | Panic \<Rightarrow> Panic)
      else if prefix = CHR '':'' then
        (case readInt e r of
           Ret n r' \<Rightarrow> Ret (IntegerV n) r' | Fail x \<Rightarrow> Fail x | Panic \<Rightarrow> Panic)
      else if prefix = CHR ''$'' then decodeBulk e r
      else if prefix = CHR ''*'' then decodeArray e r
      else Fail (UnknownType prefix))"
| "decodeArray e s =
     (case readInt e s of
        Fail x \<Rightarrow> Fail x
      | Panic \<Rightarrow> Panic
      | Ret n r \<Rightarrow>
          if n < 0 then Ret (ArrayV None) r
          else if \<not> makeslice_ok value_size n then Panic
          else (case decodeElems e n r of
                  Ret arr r' \<Rightarrow> Ret (ArrayV (Some arr)) r' | Fail x \<Rightarrow> Fail x | Panic \<Rightarrow> Panic))"
| "decodeElems e n s =
     (if n \<le> 0 then Ret [] s
      else case Decode e s of
             Fail x \<Rightarrow> Fail (unexpectEOF x)
           | Panic \<Rightarrow> Panic
           | Ret v r \<Rightarrow>
               (case decodeElems e (n - 1) r of
                  Ret vs r' \<Rightarrow> Ret (v # vs) r' | Fail x \<Rightarrow> Fail x | Panic \<Rightarrow> Panic))"
  by pat_completeness auto

lemma ReadBytes_split: "ReadBytes s = Some (l, r) \<Longrightarrow> s = l @ r \<and> l \<noteq> [] \<and> last l = LF \<and> LF \<notin> set (butlast l)"
  by (induction s arbitrary: l r) (auto split: if_splits option.splits)

lemma readLine_shorter: "readLine e s = Ret l r \<Longrightarrow> length r < length s"
  by (auto simp: readLine_def split: option.splits if_splits dest!: ReadBytes_split)

lemma readInt_shorter: "readInt e s = Ret n r \<Longrightarrow> length r < length s"
  by (auto simp: readInt_def split: option.splits decoded.splits dest!: readLine_shorter)

lemma decodeBulk_shorter: "decodeBulk e s = Ret v r \<Longrightarrow> length r < length s"
  by (auto simp: decodeBulk_def Let_def split: option.splits decoded.splits if_splits
      dest!: readInt_shorter)

lemma Decode_shorter_dom:
  "Decode_decodeArray_decodeElems_dom (Inl (e, s)) \<Longrightarrow>
     (\<forall>v r. Decode e s = Ret v r \<longrightarrow> length r < length s)"
  "Decode_decodeArray_decodeElems_dom (Inr (Inl (e, s))) \<Longrightarrow>
     (\<forall>v r. decodeArray e s = Ret v r \<longrightarrow> length r < length s)"
  "Decode_decodeArray_decodeElems_dom (Inr (Inr (e, n, s))) \<Longrightarrow>
     (\<forall>vs r. decodeElems e n s = Ret vs r \<longrightarrow> length r \<le> length s)"
proof (induction e s and e s and e n s rule: Decode_decodeArray_decodeElems.pinduct)
  case (2 e prefix r)
  then show ?case
    by (fastforce simp: Decode.psimps split: if_splits decoded.splits
        dest: readLine_shorter readInt_shorter decodeBulk_shorter)
next
  case (3 e s)
  then show ?case
    by (fastforce simp: decodeArray.psimps split: if_splits decoded.splits dest!: readInt_shorter)
next
  case (4 e n s)
  then show ?case
    by (fastforce simp: decodeElems.psimps split: if_splits decoded.splits)
qed (simp add: Decode.psimps)

termination Decode
proof (relation "measure (\<lambda>x. case x of Inl (e, s) \<Rightarrow> 3 * length s
    | Inr (Inl (e, s)) \<Rightarrow> 3 * length s + 2 | Inr (Inr (e, n, s)) \<Rightarrow> 3 * length s + 1)",
    goal_cases)
  case (3 e s n r)
  then show ?case by (auto dest!: readInt_shorter)
next
  case (5 e n s v r)
  then show ?case by (auto dest!: Decode_shorter_dom(1))
qed auto

declare Decode.simps [simp del] decodeArray.simps [simp del] decodeElems.simps [simp del]

end
