(* ===== verification/Commands.thy ===== *)
theory Commands
  imports Store_List Store_Hash Store_Set Store_Keys Resp "HOL-Library.Signed_Division"
begin

text \<open>
  The command layer, \<open>internal/cmd\<close>: the reply constructors, the thirty handlers, the dispatch table
  and the table of write commands. A handler takes the readings of the outside world, the database
  and the arguments after the command name, and returns the database and the reply.
\<close>

section \<open>Reply constructors\<close>

definition okValue :: resp where "okValue = SimpleString ''OK''"

definition simpleStringValue :: "string \<Rightarrow> resp" where "simpleStringValue s = SimpleString s"

definition errorValue :: "string \<Rightarrow> resp" where "errorValue msg = ErrorV msg"

definition integerValue :: "int \<Rightarrow> resp" where "integerValue n = IntegerV n"

definition boolReply :: "bool \<Rightarrow> resp" where
  "boolReply b = (if b then integerValue 1 else integerValue 0)"

definition bulkValue :: "string option \<Rightarrow> resp" where "bulkValue b = BulkString b"

definition nullBulkValue :: resp where "nullBulkValue = BulkString None"

definition wrongArgs :: "string \<Rightarrow> resp" where
  "wrongArgs name = errorValue (''ERR wrong number of arguments for '' @ [CHR 0x27] @ name @ [CHR 0x27] @ '' command'')"

definition arrayValue :: "resp list \<Rightarrow> resp" where "arrayValue items = ArrayV (Some items)"

definition notInteger :: resp where
  "notInteger = errorValue ''ERR value is not an integer or out of range''"

definition bulkArrayValue :: "string list \<Rightarrow> resp" where
  "bulkArrayValue items = arrayValue (map (\<lambda>it. bulkValue (Some it)) items)"

definition replyForErr :: "db_error \<Rightarrow> resp" where
  "replyForErr err =
     (case err of ErrWrongType \<Rightarrow>
        errorValue ''WRONGTYPE Operation against a key holding the wrong kind of value'')"

lemmas reply_defs = okValue_def simpleStringValue_def errorValue_def integerValue_def boolReply_def
  bulkValue_def nullBulkValue_def wrongArgs_def arrayValue_def notInteger_def bulkArrayValue_def
  replyForErr_def

text \<open>
  The store copies every byte slice it is given (or converts it to a string), so a nil and an empty
  argument are the same to it and \<open>bulkArgs\<close> can return strings.
\<close>

definition bulkArgs :: "resp list \<Rightarrow> string list" where
  "bulkArgs args = map bulk_str args"

section \<open>Connection, string and key commands\<close>

type_synonym handler = "env \<Rightarrow> db \<Rightarrow> resp list \<Rightarrow> db \<times> resp"

definition cmd_Ping :: handler where
  "cmd_Ping env d args =
     (case args of
        [] \<Rightarrow> (d, simpleStringValue ''PONG'')
      | [a] \<Rightarrow> (d, bulkValue (val_Bulk a))
      | _ \<Rightarrow> (d, wrongArgs ''ping''))"

definition cmd_Echo :: handler where
  "cmd_Echo env d args =
     (if length args \<noteq> 1 then (d, wrongArgs ''echo'') else (d, bulkValue (val_Bulk (args ! 0))))"

definition cmd_Set :: handler where
  "cmd_Set env d args =
     (if length args \<noteq> 2 then (d, wrongArgs ''set'')
      else (db_Set d (bulk_str (args ! 0)) (bulk_str (args ! 1)), okValue))"

definition cmd_Get :: handler where
  "cmd_Get env d args =
     (if length args \<noteq> 1 then (d, wrongArgs ''get'')
      else case db_Get env d (bulk_str (args ! 0)) of
             (d', Inl err) \<Rightarrow> (d', replyForErr err)
           | (d', Inr None) \<Rightarrow> (d', nullBulkValue)
           | (d', Inr (Some v)) \<Rightarrow> (d', bulkValue (Some v)))"

definition cmd_Del :: handler where
  "cmd_Del env d args =
     (if length args < 1 then (d, wrongArgs ''del'')
      else case db_Del env d (map bulk_str args) of (d', n) \<Rightarrow> (d', integerValue (int n)))"

definition cmd_Exists :: handler where
  "cmd_Exists env d args =
     (if length args < 1 then (d, wrongArgs ''exists'')
      else (d, integerValue (int (db_Exists env d (map bulk_str args)))))"

section \<open>List commands\<close>

definition cmd_LPush :: handler where
  "cmd_LPush env d args =
     (if length args < 2 then (d, wrongArgs ''lpush'')
      else case db_LPush env d (bulk_str (args ! 0)) (bulkArgs (tl args)) of
             (d', Inl err) \<Rightarrow> (d', replyForErr err)
           | (d', Inr n) \<Rightarrow> (d', integerValue (int n)))"

definition cmd_RPush :: handler where
  "cmd_RPush env d args =
     (if length args < 2 then (d, wrongArgs ''rpush'')
      else case db_RPush env d (bulk_str (args ! 0)) (bulkArgs (tl args)) of
             (d', Inl err) \<Rightarrow> (d', replyForErr err)
           | (d', Inr n) \<Rightarrow> (d', integerValue (int n)))"

definition cmd_LPop :: handler where
  "cmd_LPop env d args =
     (if length args \<noteq> 1 then (d, wrongArgs ''lpop'')
      else case db_LPop env d (bulk_str (args ! 0)) of
             (d', Inl err) \<Rightarrow> (d', replyForErr err)
           | (d', Inr None) \<Rightarrow> (d', nullBulkValue)
           | (d', Inr (Some v)) \<Rightarrow> (d', bulkValue (Some v)))"

definition cmd_RPop :: handler where
  "cmd_RPop env d args =
     (if length args \<noteq> 1 then (d, wrongArgs ''rpop'')
      else case db_RPop env d (bulk_str (args ! 0)) of
             (d', Inl err) \<Rightarrow> (d', replyForErr err)
           | (d', Inr None) \<Rightarrow> (d', nullBulkValue)
           | (d', Inr (Some v)) \<Rightarrow> (d', bulkValue (Some v)))"

definition cmd_LLen :: handler where
  "cmd_LLen env d args =
     (if length args \<noteq> 1 then (d, wrongArgs ''llen'')
      else case db_LLen env d (bulk_str (args ! 0)) of
             Inl err \<Rightarrow> (d, replyForErr err)
           | Inr n \<Rightarrow> (d, integerValue (int n)))"

definition cmd_LRange :: handler where
  "cmd_LRange env d args =
     (if length args \<noteq> 3 then (d, wrongArgs ''lrange'')
      else case ParseInt (bulk_str (args ! 1)) of
             None \<Rightarrow> (d, notInteger)
           | Some start \<Rightarrow>
               (case ParseInt (bulk_str (args ! 2)) of
                  None \<Rightarrow> (d, notInteger)
                | Some stop \<Rightarrow>
                    (case db_LRange env d (bulk_str (args ! 0)) start stop of
                       Inl err \<Rightarrow> (d, replyForErr err)
                     | Inr items \<Rightarrow> (d, bulkArrayValue items))))"

section \<open>Hash commands\<close>

text \<open>The loop of \<open>HSet\<close> over \<open>rest[i], rest[i+1]\<close> with step 2.\<close>

fun pair_args :: "resp list \<Rightarrow> (string \<times> string) list" where
  "pair_args (f # v # rest) = (bulk_str f, bulk_str v) # pair_args rest"
| "pair_args _ = []"

definition cmd_HSet :: handler where
  "cmd_HSet env d args =
     (if length args < 3 \<or> length args mod 2 = 0 then (d, wrongArgs ''hset'')
      else case db_HSet env d (bulk_str (args ! 0)) (pair_args (tl args)) of
             (d', Inl err) \<Rightarrow> (d', replyForErr err)
           | (d', Inr n) \<Rightarrow> (d', integerValue (int n)))"

definition cmd_HGet :: handler where
  "cmd_HGet env d args =
     (if length args \<noteq> 2 then (d, wrongArgs ''hget'')
      else case db_HGet env d (bulk_str (args ! 0)) (bulk_str (args ! 1)) of
             Inl err \<Rightarrow> (d, replyForErr err)
           | Inr None \<Rightarrow> (d, nullBulkValue)
           | Inr (Some v) \<Rightarrow> (d, bulkValue (Some v)))"

definition cmd_HDel :: handler where
  "cmd_HDel env d args =
     (if length args < 2 then (d, wrongArgs ''hdel'')
      else case db_HDel env d (bulk_str (args ! 0)) (map bulk_str (tl args)) of
             (d', Inl err) \<Rightarrow> (d', replyForErr err)
           | (d', Inr n) \<Rightarrow> (d', integerValue (int n)))"

definition cmd_HGetAll :: handler where
  "cmd_HGetAll env d args =
     (if length args \<noteq> 1 then (d, wrongArgs ''hgetall'')
      else case db_HGetAll env d (bulk_str (args ! 0)) of
             Inl err \<Rightarrow> (d, replyForErr err)
           | Inr (fs, vs) \<Rightarrow>
               (d, arrayValue (concat (map (\<lambda>i. [bulkValue (Some (fs ! i)), bulkValue (Some (vs ! i))])
                     [0..<length fs]))))"

definition cmd_HKeys :: handler where
  "cmd_HKeys env d args =
     (if length args \<noteq> 1 then (d, wrongArgs ''hkeys'')
      else case db_HKeys env d (bulk_str (args ! 0)) of
             Inl err \<Rightarrow> (d, replyForErr err)
           | Inr ks \<Rightarrow> (d, bulkArrayValue ks))"

definition cmd_HVals :: handler where
  "cmd_HVals env d args =
     (if length args \<noteq> 1 then (d, wrongArgs ''hvals'')
      else case db_HVals env d (bulk_str (args ! 0)) of
             Inl err \<Rightarrow> (d, replyForErr err)
           | Inr vs \<Rightarrow> (d, bulkArrayValue vs))"

definition cmd_HLen :: handler where
  "cmd_HLen env d args =
     (if length args \<noteq> 1 then (d, wrongArgs ''hlen'')
      else case db_HLen env d (bulk_str (args ! 0)) of
             Inl err \<Rightarrow> (d, replyForErr err)
           | Inr n \<Rightarrow> (d, integerValue (int n)))"

section \<open>Set commands\<close>

definition cmd_SAdd :: handler where
  "cmd_SAdd env d args =
     (if length args < 2 then (d, wrongArgs ''sadd'')
      else case db_SAdd env d (bulk_str (args ! 0)) (bulkArgs (tl args)) of
             (d', Inl err) \<Rightarrow> (d', replyForErr err)
           | (d', Inr n) \<Rightarrow> (d', integerValue (int n)))"

definition cmd_SRem :: handler where
  "cmd_SRem env d args =
     (if length args < 2 then (d, wrongArgs ''srem'')
      else case db_SRem env d (bulk_str (args ! 0)) (bulkArgs (tl args)) of
             (d', Inl err) \<Rightarrow> (d', replyForErr err)
           | (d', Inr n) \<Rightarrow> (d', integerValue (int n)))"

definition cmd_SIsMember :: handler where
  "cmd_SIsMember env d args =
     (if length args \<noteq> 2 then (d, wrongArgs ''sismember'')
      else case db_SIsMember env d (bulk_str (args ! 0)) (bulk_str (args ! 1)) of
             Inl err \<Rightarrow> (d, replyForErr err)
           | Inr b \<Rightarrow> (d, boolReply b))"

definition cmd_SMembers :: handler where
  "cmd_SMembers env d args =
     (if length args \<noteq> 1 then (d, wrongArgs ''smembers'')
      else case db_SMembers env d (bulk_str (args ! 0)) of
             Inl err \<Rightarrow> (d, replyForErr err)
           | Inr ms \<Rightarrow> (d, bulkArrayValue ms))"

definition cmd_SCard :: handler where
  "cmd_SCard env d args =
     (if length args \<noteq> 1 then (d, wrongArgs ''scard'')
      else case db_SCard env d (bulk_str (args ! 0)) of
             Inl err \<Rightarrow> (d, replyForErr err)
           | Inr n \<Rightarrow> (d, integerValue (int n)))"

section \<open>Expiry commands\<close>

text \<open>Durations are nanoseconds in an \<open>int64\<close>; the products below wrap around.\<close>

abbreviation Second :: int where "Second \<equiv> 1000000000"
abbreviation Millisecond :: int where "Millisecond \<equiv> 1000000"

definition cmd_Expire :: handler where
  "cmd_Expire env d args =
     (if length args \<noteq> 2 then (d, wrongArgs ''expire'')
      else case ParseInt (bulk_str (args ! 1)) of
             None \<Rightarrow> (d, notInteger)
           | Some secs \<Rightarrow>
               (case db_Expire env d (bulk_str (args ! 0)) (wrap64 (secs * Second)) of
                  (d', b) \<Rightarrow> (d', boolReply b)))"

definition cmd_PExpire :: handler where
  "cmd_PExpire env d args =
     (if length args \<noteq> 2 then (d, wrongArgs ''pexpire'')
      else case ParseInt (bulk_str (args ! 1)) of
             None \<Rightarrow> (d, notInteger)
           | Some ms \<Rightarrow>
               (case db_Expire env d (bulk_str (args ! 0)) (wrap64 (ms * Millisecond)) of
                  (d', b) \<Rightarrow> (d', boolReply b)))"

text \<open>Go's integer division truncates towards zero.\<close>

definition ttlReply :: "int \<Rightarrow> bool \<Rightarrow> bool \<Rightarrow> int \<Rightarrow> int" where
  "ttlReply remaining ex hasTTL unit =
     (if \<not> ex then -2 else if \<not> hasTTL then -1 else wrap64 (remaining + unit sdiv 2) sdiv unit)"

definition cmd_TTL :: handler where
  "cmd_TTL env d args =
     (if length args \<noteq> 1 then (d, wrongArgs ''ttl'')
      else case db_TTL env d (bulk_str (args ! 0)) of
             (remaining, ex, hasTTL) \<Rightarrow> (d, integerValue (ttlReply remaining ex hasTTL Second)))"

definition cmd_PTTL :: handler where
  "cmd_PTTL env d args =
     (if length args \<noteq> 1 then (d, wrongArgs ''pttl'')
      else case db_TTL env d (bulk_str (args ! 0)) of
             (remaining, ex, hasTTL) \<Rightarrow> (d, integerValue (ttlReply remaining ex hasTTL Millisecond)))"

definition cmd_Persist :: handler where
  "cmd_Persist env d args =
     (if length args \<noteq> 1 then (d, wrongArgs ''persist'')
      else case db_Persist env d (bulk_str (args ! 0)) of (d', b) \<Rightarrow> (d', boolReply b))"

section \<open>Publish\<close>

definition cmd_Publish :: handler where
  "cmd_Publish env d args =
     (if length args \<noteq> 2 then (d, wrongArgs ''publish'')
      else case Publish (pubsub d) (bulk_str (args ! 0)) (bulk_str (args ! 1)) of
             (b, received) \<Rightarrow> (d\<lparr>pubsub := b\<rparr>, integerValue (int received)))"

section \<open>The tables and dispatch\<close>

definition commands :: "(string, handler) gomap" where
  "commands =
     [(''PING'', cmd_Ping), (''ECHO'', cmd_Echo), (''SET'', cmd_Set), (''GET'', cmd_Get),
      (''DEL'', cmd_Del), (''EXISTS'', cmd_Exists), (''LPUSH'', cmd_LPush), (''RPUSH'', cmd_RPush),
      (''LPOP'', cmd_LPop), (''RPOP'', cmd_RPop), (''LRANGE'', cmd_LRange), (''LLEN'', cmd_LLen),
      (''HSET'', cmd_HSet), (''HGET'', cmd_HGet), (''HDEL'', cmd_HDel), (''HGETALL'', cmd_HGetAll),
      (''HKEYS'', cmd_HKeys), (''HVALS'', cmd_HVals), (''HLEN'', cmd_HLen), (''SADD'', cmd_SAdd),
      (''SREM'', cmd_SRem), (''SISMEMBER'', cmd_SIsMember), (''SMEMBERS'', cmd_SMembers),
      (''SCARD'', cmd_SCard), (''EXPIRE'', cmd_Expire), (''PEXPIRE'', cmd_PExpire), (''TTL'', cmd_TTL),
      (''PTTL'', cmd_PTTL), (''PERSIST'', cmd_Persist), (''PUBLISH'', cmd_Publish)]"

definition writeCommands :: "string list" where
  "writeCommands =
     [''SET'', ''DEL'', ''LPUSH'', ''RPUSH'', ''LPOP'', ''RPOP'', ''HSET'', ''HDEL'', ''SADD'', ''SREM'',
      ''EXPIRE'', ''PEXPIRE'', ''PERSIST'']"

definition IsWrite :: "unicode \<Rightarrow> string \<Rightarrow> bool" where
  "IsWrite u name \<longleftrightarrow> ToUpper u name \<in> set writeCommands"

definition Known :: "unicode \<Rightarrow> string \<Rightarrow> bool" where
  "Known u name \<longleftrightarrow> map_of commands (ToUpper u name) \<noteq> None"

definition unknownCommand :: "string \<Rightarrow> resp" where
  "unknownCommand name = errorValue (''ERR unknown command '' @ [CHR 0x27] @ name @ [CHR 0x27])"

definition Dispatch :: "unicode \<Rightarrow> env \<Rightarrow> db \<Rightarrow> resp \<Rightarrow> db \<times> resp" where
  "Dispatch u env d request =
     (if \<not> is_array request \<or> val_Array request = []
      then (d, errorValue ''ERR invalid request: expected a non-empty array'')
      else let name = ToUpper u (bulk_str (hd (val_Array request)))
           in case map_of commands name of
                None \<Rightarrow> (d, unknownCommand name)
              | Some handler \<Rightarrow> handler env d (tl (val_Array request)))"

end
