(* ===== verification/Command_Spec.thy ===== *)
theory Command_Spec
  imports Commands
begin

text \<open>
  What the command layer promises, over the abstract keyspace: the write commands as a datatype
  with an executor on keyspaces, the read commands with the replies they may give, and the lemmas
  that the handlers of \<open>Commands\<close> implement them.
\<close>

section \<open>Write commands\<close>

datatype wcmd =
    WSet string string
  | WDel "string list"
  | WPush bool string "string list"
  | WPop bool string
  | WHSet string "(string \<times> string) list"
  | WHDel string "string list"
  | WSAdd string "string list"
  | WSRem string "string list"
  | WExpire string int
  | WPersist string

text \<open>The well-formed write requests; every other request for a write command is refused.\<close>

definition parse_write :: "string \<Rightarrow> resp list \<Rightarrow> wcmd option" where
  "parse_write name args =
     (case map bulk_str args of
        [] \<Rightarrow> None
      | k # rest \<Rightarrow>
          if name = ''SET'' then (case rest of [v] \<Rightarrow> Some (WSet k v) | _ \<Rightarrow> None)
          else if name = ''DEL'' then Some (WDel (k # rest))
          else if name = ''LPUSH'' \<and> rest \<noteq> [] then Some (WPush True k rest)
          else if name = ''RPUSH'' \<and> rest \<noteq> [] then Some (WPush False k rest)
          else if name = ''LPOP'' \<and> rest = [] then Some (WPop True k)
          else if name = ''RPOP'' \<and> rest = [] then Some (WPop False k)
          else if name = ''HSET'' \<and> rest \<noteq> [] \<and> even (length rest) then Some (WHSet k (pair_args (tl args)))
          else if name = ''HDEL'' \<and> rest \<noteq> [] then Some (WHDel k rest)
          else if name = ''SADD'' \<and> rest \<noteq> [] then Some (WSAdd k rest)
          else if name = ''SREM'' \<and> rest \<noteq> [] then Some (WSRem k rest)
          else if name = ''EXPIRE''
            then (case rest of [n] \<Rightarrow> map_option (\<lambda>s. WExpire k (wrap64 (s * Second))) (ParseInt n) | _ \<Rightarrow> None)
          else if name = ''PEXPIRE''
            then (case rest of [n] \<Rightarrow> map_option (\<lambda>s. WExpire k (wrap64 (s * Millisecond))) (ParseInt n) | _ \<Rightarrow> None)
          else if name = ''PERSIST'' \<and> rest = [] then Some (WPersist k)
          else None)"

definition count_reply :: "db_error + nat \<Rightarrow> resp" where
  "count_reply r = (case r of Inl err \<Rightarrow> replyForErr err | Inr n \<Rightarrow> IntegerV (int n))"

definition bulk_reply :: "db_error + string option \<Rightarrow> resp" where
  "bulk_reply r = (case r of Inl err \<Rightarrow> replyForErr err | Inr v \<Rightarrow> BulkString v)"

text \<open>\<open>clk i\<close> is the \<open>i\<close>-th reading of the clock the command makes.\<close>

fun exec :: "(nat \<Rightarrow> int) \<Rightarrow> wcmd \<Rightarrow> keyspace \<Rightarrow> keyspace \<times> resp" where
  "exec clk (WSet k v) K = (K(k \<mapsto> (RString v, None)), okValue)"
| "exec clk (WDel ks) K =
     (K |` (- set ks),
      IntegerV (int (card {i. i < length ks \<and> ks ! i \<notin> set (take i ks) \<and> live (clk i) K (ks ! i) \<noteq> None})))"
| "exec clk (WPush front k vs) K =
     apsnd count_reply (spec_push (\<lambda>l. if front then rev vs @ l else l @ vs) (clk 0) k K)"
| "exec clk (WPop front k) K =
     apsnd bulk_reply (spec_pop (if front then hd else last) (if front then tl else butlast) (clk 0) k K)"
| "exec clk (WHSet k ps) K = apsnd count_reply (spec_hset ps (clk 0) k K)"
| "exec clk (WHDel k fs) K = apsnd count_reply (spec_hdel fs (clk 0) k K)"
| "exec clk (WSAdd k ms) K = apsnd count_reply (spec_sadd ms (clk 0) k K)"
| "exec clk (WSRem k ms) K = apsnd count_reply (spec_srem ms (clk 0) k K)"
| "exec clk (WExpire k dur) K = apsnd boolReply (spec_expire dur (clk 0) (clk 1) k K)"
| "exec clk (WPersist k) K = apsnd boolReply (spec_persist (clk 0) k K)"

definition refines_write :: "string \<Rightarrow> handler \<Rightarrow> bool" where
  "refines_write name h \<longleftrightarrow>
     (\<forall>env d args. db_ok d \<longrightarrow>
        (case parse_write name args of
           None \<Rightarrow> fst (h env d args) = d \<and> is_error (snd (h env d args))
         | Some w \<Rightarrow> db_ok (fst (h env d args)) \<and>
             (keyspace (fst (h env d args)), snd (h env d args)) = exec (clock env) w (keyspace d)))"

lemma refines_writeI:
  assumes "\<And>env d args. db_ok d \<Longrightarrow> parse_write name args = None \<Longrightarrow>
      fst (h env d args) = d \<and> is_error (snd (h env d args))"
    and "\<And>env d args w. db_ok d \<Longrightarrow> parse_write name args = Some w \<Longrightarrow>
      db_ok (fst (h env d args)) \<and>
      (keyspace (fst (h env d args)), snd (h env d args)) = exec (clock env) w (keyspace d)"
  shows "refines_write name h"
  unfolding refines_write_def using assms by (auto split: option.splits)

section \<open>The handlers implement them\<close>

lemma is_error_replies [simp]: "is_error (wrongArgs n)" "is_error notInteger" "is_error (replyForErr err)"
  by (auto simp: reply_defs is_error_def split: db_error.split)

lemma not_error_replies [simp]:
  "\<not> is_error okValue" "\<not> is_error (boolReply b)" "\<not> is_error (integerValue n)" "\<not> is_error (bulkValue x)"
  "\<not> is_error nullBulkValue" "\<not> is_error (bulkArrayValue xs)" "\<not> is_error (arrayValue vs)"
  "\<not> is_error (simpleStringValue s)"
  by (auto simp: reply_defs is_error_def)

text \<open>How the count and bulk results of the store become replies.\<close>

lemma count_case:
  "(case r of (d', Inl err) \<Rightarrow> (d', replyForErr err) | (d', Inr n) \<Rightarrow> (d', integerValue (int n))) =
     (fst r, count_reply (snd r))"
  by (auto simp: count_reply_def integerValue_def split: prod.splits sum.splits)

lemma bulk_case:
  "(case r of (d', Inl err) \<Rightarrow> (d', replyForErr err) | (d', Inr None) \<Rightarrow> (d', nullBulkValue)
      | (d', Inr (Some v)) \<Rightarrow> (d', bulkValue (Some v))) = (fst r, bulk_reply (snd r))"
  by (auto simp: bulk_reply_def bulkValue_def nullBulkValue_def split: prod.splits sum.splits option.splits)

lemma bool_case: "(case r of (d', b) \<Rightarrow> (d', boolReply b)) = (fst r, boolReply (snd r))"
  by (simp split: prod.splits)

lemma pairI: "(a, b) = c \<Longrightarrow> (a, f b) = apsnd f c"
  by (auto simp: apsnd_def)

lemma parse_push:
  "parse_write ''LPUSH'' args = (if length args < 2 then None else Some (WPush True (bulk_str (args ! 0)) (map bulk_str (tl args))))"
  "parse_write ''RPUSH'' args = (if length args < 2 then None else Some (WPush False (bulk_str (args ! 0)) (map bulk_str (tl args))))"
  "parse_write ''HDEL'' args = (if length args < 2 then None else Some (WHDel (bulk_str (args ! 0)) (map bulk_str (tl args))))"
  "parse_write ''SADD'' args = (if length args < 2 then None else Some (WSAdd (bulk_str (args ! 0)) (map bulk_str (tl args))))"
  "parse_write ''SREM'' args = (if length args < 2 then None else Some (WSRem (bulk_str (args ! 0)) (map bulk_str (tl args))))"
  by (cases args; cases "tl args"; simp add: parse_write_def)+

lemma parse_single:
  "parse_write ''LPOP'' args = (if length args \<noteq> 1 then None else Some (WPop True (bulk_str (args ! 0))))"
  "parse_write ''RPOP'' args = (if length args \<noteq> 1 then None else Some (WPop False (bulk_str (args ! 0))))"
  "parse_write ''PERSIST'' args = (if length args \<noteq> 1 then None else Some (WPersist (bulk_str (args ! 0))))"
  by (cases args; cases "tl args"; simp add: parse_write_def)+

lemma parse_other:
  "parse_write ''SET'' args = (if length args \<noteq> 2 then None else Some (WSet (bulk_str (args ! 0)) (bulk_str (args ! 1))))"
  "parse_write ''DEL'' args = (if length args < 1 then None else Some (WDel (map bulk_str args)))"
  "parse_write ''HSET'' args = (if length args < 3 \<or> length args mod 2 = 0 then None
     else Some (WHSet (bulk_str (args ! 0)) (pair_args (tl args))))"
  by (cases args; cases "tl args"; cases "tl (tl args)"; simp add: parse_write_def; presburger)+

lemma parse_expire:
  "parse_write ''EXPIRE'' args = (if length args \<noteq> 2 then None
     else map_option (\<lambda>s. WExpire (bulk_str (args ! 0)) (wrap64 (s * Second))) (ParseInt (bulk_str (args ! 1))))"
  "parse_write ''PEXPIRE'' args = (if length args \<noteq> 2 then None
     else map_option (\<lambda>s. WExpire (bulk_str (args ! 0)) (wrap64 (s * Millisecond))) (ParseInt (bulk_str (args ! 1))))"
  by (cases args; cases "tl args"; cases "tl (tl args)"; simp add: parse_write_def)+

lemma pair_args_nonempty: "2 \<le> length args \<Longrightarrow> pair_args args \<noteq> []"
  by (cases args rule: pair_args.cases) auto

lemma tl_nonempty: "\<not> length args < 2 \<Longrightarrow> map bulk_str (tl args) \<noteq> []"
  by (cases args; cases "tl args") auto

text \<open>The shape the handlers share: refuse a bad request, otherwise one store operation and its reply.\<close>

lemma refines_shape:
  assumes parse: "\<And>args. parse_write name args = (if bad args then None else Some (w args))"
    and h: "\<And>env d args. h env d args =
      (if bad args then (d, err) else (fst (op env d args), rep (snd (op env d args))))"
    and op: "\<And>env d args. db_ok d \<Longrightarrow> \<not> bad args \<Longrightarrow> db_ok (fst (op env d args)) \<and>
      (keyspace (fst (op env d args)), rep (snd (op env d args))) = exec (clock env) (w args) (keyspace d)"
    and err: "is_error err"
  shows "refines_write name h"
  by (rule refines_writeI) (auto simp: parse h err op split: if_splits dest!: op)

lemma refines_push: "refines_write ''LPUSH'' cmd_LPush" "refines_write ''RPUSH'' cmd_RPush"
  by (rule refines_shape [OF parse_push(1) cmd_LPush_def [unfolded count_case]]
      refines_shape [OF parse_push(2) cmd_RPush_def [unfolded count_case]];
      auto simp: bulkArgs_def dest: tl_nonempty intro!: db_LPush_refines db_RPush_refines pairI)+

lemma refines_pop: "refines_write ''LPOP'' cmd_LPop" "refines_write ''RPOP'' cmd_RPop"
  by (rule refines_shape [OF parse_single(1) cmd_LPop_def [unfolded bulk_case]]
      refines_shape [OF parse_single(2) cmd_RPop_def [unfolded bulk_case]];
      auto simp: db_LPop_refines db_RPop_refines intro!: pairI)+

lemma refines_set: "refines_write ''SET'' cmd_Set"
  by (rule refines_writeI) (auto simp: parse_other cmd_Set_def db_Set_refines split: if_splits)

lemma refines_del: "refines_write ''DEL'' cmd_Del"
proof (rule refines_shape [OF parse_other(2)])
  show "cmd_Del env d args = (if length args < 1 then (d, wrongArgs ''del'')
      else (fst (db_Del env d (map bulk_str args)), (IntegerV \<circ> int) (snd (db_Del env d (map bulk_str args)))))"
    for env d args by (simp add: cmd_Del_def integerValue_def split: prod.splits)
qed (simp_all add: db_Del_refines)

lemma refines_hash: "refines_write ''HSET'' cmd_HSet" "refines_write ''HDEL'' cmd_HDel"
proof -
  show "refines_write ''HSET'' cmd_HSet"
  proof (rule refines_shape [OF parse_other(3) cmd_HSet_def [unfolded count_case]])
    fix env d and args :: "resp list"
    assume d: "db_ok d" and "\<not> (length args < 3 \<or> length args mod 2 = 0)"
    then have "pair_args (tl args) \<noteq> []" by (intro pair_args_nonempty) auto
    then show "db_ok (fst (db_HSet env d (bulk_str (args ! 0)) (pair_args (tl args)))) \<and>
      (keyspace (fst (db_HSet env d (bulk_str (args ! 0)) (pair_args (tl args)))),
        count_reply (snd (db_HSet env d (bulk_str (args ! 0)) (pair_args (tl args))))) =
      exec (clock env) (WHSet (bulk_str (args ! 0)) (pair_args (tl args))) (keyspace d)"
      by (auto simp: db_HSet_refines [OF d] intro!: pairI)
  qed simp
  show "refines_write ''HDEL'' cmd_HDel"
    by (rule refines_shape [OF parse_push(3) cmd_HDel_def [unfolded count_case]])
      (auto simp: db_HDel_refines intro!: pairI)
qed

lemma refines_sets: "refines_write ''SADD'' cmd_SAdd" "refines_write ''SREM'' cmd_SRem"
  by (rule refines_shape [OF parse_push(4) cmd_SAdd_def [unfolded count_case]]
      refines_shape [OF parse_push(5) cmd_SRem_def [unfolded count_case]];
      auto simp: bulkArgs_def db_SAdd_refines [OF _ tl_nonempty] db_SRem_refines intro!: pairI)+

lemma refines_expire: "refines_write ''EXPIRE'' cmd_Expire" "refines_write ''PEXPIRE'' cmd_PExpire"
  by (rule refines_writeI;
      auto simp: parse_expire cmd_Expire_def cmd_PExpire_def bool_case db_Expire_refines
        split: if_splits option.splits intro!: pairI)+

lemma refines_persist: "refines_write ''PERSIST'' cmd_Persist"
  by (rule refines_shape [OF parse_single(3) cmd_Persist_def [unfolded bool_case]])
    (auto simp: db_Persist_refines intro!: pairI)

lemmas refines_all = refines_push refines_pop refines_set refines_del refines_hash refines_sets
  refines_expire refines_persist

lemma write_refines:
  assumes "name \<in> set writeCommands" and "map_of commands name = Some h"
  shows "refines_write name h"
  using assms refines_all by (auto simp: writeCommands_def commands_def)

section \<open>Read commands\<close>

datatype rcmd =
    RGet string
  | RExists "string list"
  | RLLen string
  | RLRange string int int
  | RHGet string string
  | RHGetAll string
  | RHKeys string
  | RHVals string
  | RHLen string
  | RSIsMember string string
  | RSMembers string
  | RSCard string
  | RTTL string int

definition parse_read :: "string \<Rightarrow> resp list \<Rightarrow> rcmd option" where
  "parse_read name args =
     (case map bulk_str args of
        [k] \<Rightarrow>
          if name = ''GET'' then Some (RGet k) else if name = ''LLEN'' then Some (RLLen k)
          else if name = ''HGETALL'' then Some (RHGetAll k) else if name = ''HKEYS'' then Some (RHKeys k)
          else if name = ''HVALS'' then Some (RHVals k) else if name = ''HLEN'' then Some (RHLen k)
          else if name = ''SMEMBERS'' then Some (RSMembers k) else if name = ''SCARD'' then Some (RSCard k)
          else if name = ''TTL'' then Some (RTTL k Second) else if name = ''PTTL'' then Some (RTTL k Millisecond)
          else if name = ''EXISTS'' then Some (RExists [k]) else None
      | [k, x] \<Rightarrow>
          if name = ''HGET'' then Some (RHGet k x) else if name = ''SISMEMBER'' then Some (RSIsMember k x)
          else if name = ''EXISTS'' then Some (RExists [k, x]) else None
      | k # x # y # zs \<Rightarrow>
          if name = ''LRANGE'' \<and> zs = []
          then (case (ParseInt x, ParseInt y) of (Some i, Some j) \<Rightarrow> Some (RLRange k i j) | _ \<Rightarrow> None)
          else if name = ''EXISTS'' then Some (RExists (k # x # y # zs)) else None
      | [] \<Rightarrow> None)"

text \<open>The names \<open>parse_read\<close> knows.\<close>

definition readCommands :: "string list" where
  "readCommands =
     [''GET'', ''EXISTS'', ''LRANGE'', ''LLEN'', ''HGET'', ''HGETALL'', ''HKEYS'', ''HVALS'', ''HLEN'',
      ''SISMEMBER'', ''SMEMBERS'', ''SCARD'', ''TTL'', ''PTTL'']"

text \<open>
  The replies a read may give: unique, except that the elements of a hash or a set come in any order.
\<close>

definition reply_is :: "db_error + 'a \<Rightarrow> ('a \<Rightarrow> resp \<Rightarrow> bool) \<Rightarrow> resp \<Rightarrow> bool" where
  "reply_is res P r = (case res of Inl err \<Rightarrow> r = replyForErr err | Inr x \<Rightarrow> P x r)"

fun answer :: "(nat \<Rightarrow> int) \<Rightarrow> rcmd \<Rightarrow> keyspace \<Rightarrow> resp \<Rightarrow> bool" where
  "answer clk (RGet k) K r = reply_is (spec_get (clk 0) k K) (\<lambda>v r. r = BulkString v) r"
| "answer clk (RExists ks) K r =
     (r = IntegerV (int (card {i. i < length ks \<and> live (clk i) K (ks ! i) \<noteq> None})))"
| "answer clk (RLLen k) K r = reply_is (spec_list_read length (clk 0) k K) (\<lambda>n r. r = IntegerV (int n)) r"
| "answer clk (RLRange k i j) K r =
     reply_is (spec_list_read (lrange i j) (clk 0) k K) (\<lambda>l r. r = bulkArrayValue l) r"
| "answer clk (RHGet k f) K r =
     reply_is (spec_hash_read (\<lambda>m. m f) (clk 0) k K) (\<lambda>v r. r = BulkString v) r"
| "answer clk (RHGetAll k) K r =
     reply_is (spec_hash_read id (clk 0) k K)
       (\<lambda>m r. \<exists>ps. gomap_ok ps \<and> map_of ps = m \<and>
          r = arrayValue (concat (map (\<lambda>(f, v). [BulkString (Some f), BulkString (Some v)]) ps))) r"
| "answer clk (RHKeys k) K r =
     reply_is (spec_hash_read dom (clk 0) k K) (\<lambda>F r. \<exists>fs. distinct fs \<and> set fs = F \<and> r = bulkArrayValue fs) r"
| "answer clk (RHVals k) K r =
     reply_is (spec_hash_read (\<lambda>m. image_mset (\<lambda>f. the (m f)) (mset_set (dom m))) (clk 0) k K)
       (\<lambda>V r. \<exists>vs. mset vs = V \<and> r = bulkArrayValue vs) r"
| "answer clk (RHLen k) K r =
     reply_is (spec_hash_read (\<lambda>m. card (dom m)) (clk 0) k K) (\<lambda>n r. r = IntegerV (int n)) r"
| "answer clk (RSIsMember k m) K r =
     reply_is (spec_set_read (\<lambda>S. m \<in> S) (clk 0) k K) (\<lambda>b r. r = IntegerV (if b then 1 else 0)) r"
| "answer clk (RSMembers k) K r =
     reply_is (spec_set_read id (clk 0) k K) (\<lambda>S r. \<exists>ms. distinct ms \<and> set ms = S \<and> r = bulkArrayValue ms) r"
| "answer clk (RSCard k) K r = reply_is (spec_set_read card (clk 0) k K) (\<lambda>n r. r = IntegerV (int n)) r"
| "answer clk (RTTL k unit) K r =
     (r = IntegerV (case live (clk 0) K k of
        None \<Rightarrow> -2
      | Some (_, None) \<Rightarrow> -1
      | Some (_, Some x) \<Rightarrow> wrap64 (sat64 (x - clk 1) + unit sdiv 2) sdiv unit))"

definition refines_read :: "string \<Rightarrow> handler \<Rightarrow> bool" where
  "refines_read name h \<longleftrightarrow>
     (\<forall>env d args. db_ok d \<longrightarrow>
        (case parse_read name args of
           None \<Rightarrow> fst (h env d args) = d \<and> is_error (snd (h env d args))
         | Some q \<Rightarrow> db_ok (fst (h env d args)) \<and> answer (clock env) q (keyspace d) (snd (h env d args)) \<and>
             keyspace (fst (h env d args)) \<subseteq>\<^sub>m keyspace d \<and>
             (\<forall>t \<ge> clock env 0. live t (keyspace (fst (h env d args))) = live t (keyspace d))))"

lemma read_shape:
  assumes parse: "\<And>args. parse_read name args = (if bad args then None else Some (q args))"
    and h: "\<And>env d args. h env d args = (if bad args then (d, err) else (d, rep env d args))"
    and op: "\<And>env d args. db_ok d \<Longrightarrow> \<not> bad args \<Longrightarrow> answer (clock env) (q args) (keyspace d) (rep env d args)"
    and err: "is_error err"
  shows "refines_read name h"
  unfolding refines_read_def using op err by (auto simp: parse h)

lemma parse_read_single:
  "parse_read ''GET'' args = (if length args \<noteq> 1 then None else Some (RGet (bulk_str (args ! 0))))"
  "parse_read ''LLEN'' args = (if length args \<noteq> 1 then None else Some (RLLen (bulk_str (args ! 0))))"
  "parse_read ''HGETALL'' args = (if length args \<noteq> 1 then None else Some (RHGetAll (bulk_str (args ! 0))))"
  "parse_read ''HKEYS'' args = (if length args \<noteq> 1 then None else Some (RHKeys (bulk_str (args ! 0))))"
  "parse_read ''HVALS'' args = (if length args \<noteq> 1 then None else Some (RHVals (bulk_str (args ! 0))))"
  "parse_read ''HLEN'' args = (if length args \<noteq> 1 then None else Some (RHLen (bulk_str (args ! 0))))"
  "parse_read ''SMEMBERS'' args = (if length args \<noteq> 1 then None else Some (RSMembers (bulk_str (args ! 0))))"
  "parse_read ''SCARD'' args = (if length args \<noteq> 1 then None else Some (RSCard (bulk_str (args ! 0))))"
  "parse_read ''TTL'' args = (if length args \<noteq> 1 then None else Some (RTTL (bulk_str (args ! 0)) Second))"
  "parse_read ''PTTL'' args = (if length args \<noteq> 1 then None else Some (RTTL (bulk_str (args ! 0)) Millisecond))"
  by (cases args; cases "tl args"; cases "tl (tl args)"; simp add: parse_read_def)+

lemma parse_read_other:
  "parse_read ''HGET'' args = (if length args \<noteq> 2 then None else Some (RHGet (bulk_str (args ! 0)) (bulk_str (args ! 1))))"
  "parse_read ''SISMEMBER'' args = (if length args \<noteq> 2 then None else Some (RSIsMember (bulk_str (args ! 0)) (bulk_str (args ! 1))))"
  "parse_read ''EXISTS'' args = (if length args < 1 then None else Some (RExists (map bulk_str args)))"
  by (cases args; cases "tl args"; cases "tl (tl args)"; simp add: parse_read_def)+

lemma parse_read_lrange:
  "parse_read ''LRANGE'' args = (if length args \<noteq> 3 then None else
     (case (ParseInt (bulk_str (args ! 1)), ParseInt (bulk_str (args ! 2))) of
        (Some i, Some j) \<Rightarrow> Some (RLRange (bulk_str (args ! 0)) i j) | _ \<Rightarrow> None))"
  by (cases args; cases "tl args"; cases "tl (tl args)"; cases "tl (tl (tl args))"; simp add: parse_read_def split: option.split)

lemma sum_reply:
  "(case res of Inl err \<Rightarrow> (d, replyForErr err) | Inr x \<Rightarrow> (d, f x)) =
     (d, case res of Inl err \<Rightarrow> replyForErr err | Inr x \<Rightarrow> f x)"
  by (simp split: sum.splits)

lemma option_reply:
  "(case res of Inl err \<Rightarrow> (d, replyForErr err) | Inr None \<Rightarrow> (d, nullBulkValue)
      | Inr (Some v) \<Rightarrow> (d, bulkValue (Some v))) = (d, bulk_reply res)"
  by (auto simp: bulk_reply_def bulkValue_def nullBulkValue_def split: sum.splits option.splits)

lemma reply_isI:
  assumes "\<And>x. res' = Inr x \<Longrightarrow> \<exists>y. res = Inr y \<and> P y (f x)" and "\<And>err. res' = Inl err \<Longrightarrow> res = Inl err"
  shows "reply_is res P (case res' of Inl err \<Rightarrow> replyForErr err | Inr x \<Rightarrow> f x)"
  using assms unfolding reply_is_def by (cases res') auto

lemma reply_is_same: "(\<And>x. P x (f x)) \<Longrightarrow> reply_is res P (case res of Inl err \<Rightarrow> replyForErr err | Inr x \<Rightarrow> f x)"
  by (rule reply_isI) auto

lemma reads_count:
  "refines_read ''LLEN'' cmd_LLen" "refines_read ''HLEN'' cmd_HLen" "refines_read ''SCARD'' cmd_SCard"
  by (rule read_shape [OF parse_read_single(2) cmd_LLen_def [unfolded sum_reply]]
      read_shape [OF parse_read_single(6) cmd_HLen_def [unfolded sum_reply]]
      read_shape [OF parse_read_single(8) cmd_SCard_def [unfolded sum_reply]];
      auto simp: db_LLen_refines db_HLen_refines db_SCard_refines integerValue_def intro!: reply_is_same)+

lemma reads_bulk: "refines_read ''HGET'' cmd_HGet"
  by (rule read_shape [OF parse_read_other(1) cmd_HGet_def [unfolded option_reply]])
    (auto simp: db_HGet_refines bulk_reply_def intro!: reply_is_same)

lemma reads_member: "refines_read ''SISMEMBER'' cmd_SIsMember"
  by (rule read_shape [OF parse_read_other(2) cmd_SIsMember_def [unfolded sum_reply]])
    (auto simp: db_SIsMember_refines boolReply_def integerValue_def intro!: reply_is_same)

lemma reads_exists: "refines_read ''EXISTS'' cmd_Exists"
  by (rule read_shape [OF parse_read_other(3) cmd_Exists_def])
    (auto simp: db_Exists_refines integerValue_def)

lemma reads_ttl: "refines_read ''TTL'' cmd_TTL" "refines_read ''PTTL'' cmd_PTTL"
proof -
  have ttl: "(case db_TTL env d k of (remaining, ex, hasTTL) \<Rightarrow> (d, integerValue (ttlReply remaining ex hasTTL unit))) =
      (d, IntegerV (case live (clock env 0) (keyspace d) k of
        None \<Rightarrow> -2 | Some (_, None) \<Rightarrow> -1
      | Some (_, Some x) \<Rightarrow> wrap64 (sat64 (x - clock env 1) + unit sdiv 2) sdiv unit))" for env d k unit
    unfolding db_TTL_refines by (auto simp: ttlReply_def integerValue_def split: option.splits)
  show "refines_read ''TTL'' cmd_TTL"
    by (rule read_shape [OF parse_read_single(9) cmd_TTL_def [unfolded ttl]]) auto
  show "refines_read ''PTTL'' cmd_PTTL"
    by (rule read_shape [OF parse_read_single(10) cmd_PTTL_def [unfolded ttl]]) auto
qed

lemma reads_lrange: "refines_read ''LRANGE'' cmd_LRange"
proof -
  have "answer (clock env) (RLRange k i j) (keyspace d)
      (case db_LRange env d k i j of Inl err \<Rightarrow> replyForErr err | Inr items \<Rightarrow> bulkArrayValue items)" for env d k i j
    by (auto simp: db_LRange_refines intro!: reply_is_same)
  then show ?thesis
    unfolding refines_read_def cmd_LRange_def sum_reply parse_read_lrange
    by (auto split: option.splits)
qed

text \<open>The unordered reads fail exactly when their specification does.\<close>

lemma collection_errors:
  "db_HGetAll env d k = Inl err \<Longrightarrow> spec_hash_read f (clock env 0) k (keyspace d) = Inl err"
  "db_HKeys env d k = Inl err \<Longrightarrow> spec_hash_read f (clock env 0) k (keyspace d) = Inl err"
  "db_HVals env d k = Inl err \<Longrightarrow> spec_hash_read f (clock env 0) k (keyspace d) = Inl err"
  "db_SMembers env d k = Inl err \<Longrightarrow> spec_set_read g (clock env 0) k (keyspace d) = Inl err"
  by (cases "peek (clock env 0) (shardFor d k) k";
      auto simp: db_HGetAll_def db_HKeys_def db_HVals_def db_SMembers_def spec_hash_read_def spec_set_read_def
        live_keyspace wrong_hash wrong_set Let_def split: if_splits)+

lemma reads_collections:
  "refines_read ''HKEYS'' cmd_HKeys" "refines_read ''HVALS'' cmd_HVals" "refines_read ''SMEMBERS'' cmd_SMembers"
  by (rule read_shape [OF parse_read_single(4) cmd_HKeys_def [unfolded sum_reply]]
      read_shape [OF parse_read_single(5) cmd_HVals_def [unfolded sum_reply]]
      read_shape [OF parse_read_single(7) cmd_SMembers_def [unfolded sum_reply]];
      auto dest: db_HKeys_refines db_HVals_refines db_SMembers_refines collection_errors intro!: reply_isI)+

lemma interleave_zip:
  "length fs = length vs \<Longrightarrow>
     concat (map (\<lambda>i. [f (fs ! i), f (vs ! i)]) [0..<length fs]) =
     concat (map (\<lambda>(x, y). [f x, f y]) (zip fs vs))"
proof -
  assume "length fs = length vs"
  then have "zip fs vs = map (\<lambda>i. (fs ! i, vs ! i)) [0..<length fs]"
    by (intro nth_equalityI) auto
  then show ?thesis by (simp add: comp_def)
qed

lemma reads_hgetall: "refines_read ''HGETALL'' cmd_HGetAll"
proof -
  have split: "(case res of Inl err \<Rightarrow> (d, replyForErr err) | Inr (fs, vs) \<Rightarrow> (d, f fs vs)) =
      (d, case res of Inl err \<Rightarrow> replyForErr err | Inr p \<Rightarrow> f (fst p) (snd p))" for res d f
    by (simp split: sum.splits prod.splits)
  show ?thesis
  proof (rule read_shape [OF parse_read_single(3) cmd_HGetAll_def [unfolded split]])
    fix env d and args :: "resp list"
    assume d: "db_ok d"
    show "answer (clock env) (RHGetAll (bulk_str (args ! 0))) (keyspace d)
       (case db_HGetAll env d (bulk_str (args ! 0)) of Inl err \<Rightarrow> replyForErr err
        | Inr p \<Rightarrow> arrayValue (concat (map (\<lambda>i. [bulkValue (Some (fst p ! i)), bulkValue (Some (snd p ! i))])
            [0..<length (fst p)])))"
      unfolding answer.simps
    proof (rule reply_isI, goal_cases)
      case (1 p)
      obtain fs vs where p: "p = (fs, vs)" by fastforce
      from db_HGetAll_refines [OF d 1 [unfolded p]] have len: "length fs = length vs" "distinct fs"
        and spec: "spec_hash_read id (clock env 0) (bulk_str (args ! 0)) (keyspace d) = Inr (map_of (zip fs vs))" by auto
      from len have "gomap_ok (zip fs vs)" by simp
      with len spec show ?case
        by (intro exI [of _ "map_of (zip fs vs)"] conjI exI [of _ "zip fs vs"])
          (use interleave_zip [OF len(1), of "\<lambda>x. BulkString (Some x)"] in \<open>auto simp: p bulkValue_def\<close>)
    qed (rule collection_errors)
  qed simp
qed

lemma reads_get: "refines_read ''GET'' cmd_Get"
proof -
  have "answer (clock env) (RGet k) (keyspace d) (bulk_reply (snd (db_Get env d k)))" if "db_ok d" for env d k
    using db_Get_refines [OF that] by (auto simp: bulk_reply_def intro!: reply_is_same)
  moreover have "live t (keyspace (fst (db_Get env d k))) = live t (keyspace d)"
    if "db_ok d" "clock env 0 \<le> t" for env d k t
    using db_Get_refines [OF that(1), of env k] live_later_purge [OF that(2), of k "keyspace d"] by auto
  moreover have "keyspace (fst (db_Get env d k)) \<subseteq>\<^sub>m keyspace d" if "db_ok d" for env d k
    using db_Get_refines [OF that, of env k] purge_map_le [of "clock env 0" k "keyspace d"] by auto
  ultimately show ?thesis
    unfolding refines_read_def parse_read_single cmd_Get_def bulk_case
    by (auto simp: db_Get_refines)
qed

lemmas reads_all = reads_count reads_bulk reads_member reads_exists reads_ttl reads_lrange
  reads_collections reads_hgetall reads_get

lemma read_refines:
  assumes "name \<in> set readCommands" and "map_of commands name = Some h"
  shows "refines_read name h"
  using assms reads_all by (auto simp: readCommands_def commands_def)

lemma command_names:
  "map fst commands = [''PING'', ''ECHO'', ''SET'', ''GET'', ''DEL'', ''EXISTS'', ''LPUSH'', ''RPUSH'',
     ''LPOP'', ''RPOP'', ''LRANGE'', ''LLEN'', ''HSET'', ''HGET'', ''HDEL'', ''HGETALL'', ''HKEYS'',
     ''HVALS'', ''HLEN'', ''SADD'', ''SREM'', ''SISMEMBER'', ''SMEMBERS'', ''SCARD'', ''EXPIRE'',
     ''PEXPIRE'', ''TTL'', ''PTTL'', ''PERSIST'', ''PUBLISH'']"
  by (simp add: commands_def)

lemma command_classes:
  assumes "map_of commands name = Some h"
  obtains (writes) "name \<in> set writeCommands" | (reads) "name \<in> set readCommands"
  | (ping) "name = ''PING''" "h = cmd_Ping" | (echo) "name = ''ECHO''" "h = cmd_Echo"
  | (publish) "name = ''PUBLISH''" "h = cmd_Publish"
  using assms by (auto simp: commands_def writeCommands_def readCommands_def split: if_splits)

section \<open>Dispatch\<close>

definition req_name :: "unicode \<Rightarrow> resp \<Rightarrow> string" where
  "req_name u r = ToUpper u (bulk_str (hd (val_Array r)))"

definition req_args :: "resp \<Rightarrow> resp list" where
  "req_args r = tl (val_Array r)"

definition well_formed :: "resp \<Rightarrow> bool" where
  "well_formed r \<longleftrightarrow> is_array r \<and> val_Array r \<noteq> []"

lemma Dispatch_cases:
  obtains (bad) err where "\<not> well_formed r \<or> map_of commands (req_name u r) = None" "is_error err"
      "\<And>env d. Dispatch u env d r = (d, err)"
  | (run) h where "well_formed r" "map_of commands (req_name u r) = Some h"
      "\<And>env d. Dispatch u env d r = h env d (req_args r)"
proof (cases "well_formed r \<and> map_of commands (req_name u r) \<noteq> None")
  case True
  then show thesis
    using run by (auto simp: Dispatch_def well_formed_def req_name_def req_args_def Let_def)
next
  case False
  show thesis
  proof (rule bad)
    show "\<not> well_formed r \<or> map_of commands (req_name u r) = None" using False by blast
    show "Dispatch u env d r = (d, if well_formed r then unknownCommand (req_name u r)
        else errorValue ''ERR invalid request: expected a non-empty array'')" for env d
      using False by (auto simp: Dispatch_def well_formed_def req_name_def Let_def)
  qed (simp add: unknownCommand_def errorValue_def is_error_def)
qed

lemma publish_frame:
  assumes "db_ok d"
  shows "db_ok (fst (cmd_Publish env d args)) \<and> keyspace (fst (cmd_Publish env d args)) = keyspace d"
proof -
  have "db_ok (d\<lparr>pubsub := b\<rparr>)" if "broker_ok b" for b
    using assms that by (simp add: db_ok_def)
  with assms broker_ok_Publish [of "pubsub d"] show ?thesis
    by (auto simp: cmd_Publish_def keyspace_def fun_eq_iff shardFor_def db_ok_def [of d] split: prod.splits)
      (metis fst_conv)
qed

lemma Dispatch_write:
  assumes "db_ok d" and "well_formed r" and "req_name u r \<in> set writeCommands"
  shows "case parse_write (req_name u r) (req_args r) of
      None \<Rightarrow> fst (Dispatch u env d r) = d \<and> is_error (snd (Dispatch u env d r))
    | Some w \<Rightarrow> db_ok (fst (Dispatch u env d r)) \<and>
        (keyspace (fst (Dispatch u env d r)), snd (Dispatch u env d r)) = exec (clock env) w (keyspace d)"
proof (cases rule: Dispatch_cases [of r u])
  case (bad err)
  with assms have "req_name u r \<notin> fst ` set commands" by (simp add: map_of_eq_None_iff)
  with assms(3) show ?thesis by (simp add: writeCommands_def flip: set_map add: command_names)
next
  case (run h)
  from write_refines [OF assms(3) run(2)] assms(1) show ?thesis
    unfolding refines_write_def run(3) by blast
qed

lemma Dispatch_read:
  assumes "db_ok d" and "well_formed r" and "req_name u r \<in> set readCommands"
  shows "case parse_read (req_name u r) (req_args r) of
      None \<Rightarrow> fst (Dispatch u env d r) = d \<and> is_error (snd (Dispatch u env d r))
    | Some q \<Rightarrow> db_ok (fst (Dispatch u env d r)) \<and>
        answer (clock env) q (keyspace d) (snd (Dispatch u env d r)) \<and>
        keyspace (fst (Dispatch u env d r)) \<subseteq>\<^sub>m keyspace d \<and>
        (\<forall>t \<ge> clock env 0. live t (keyspace (fst (Dispatch u env d r))) = live t (keyspace d))"
proof (cases rule: Dispatch_cases [of r u])
  case (bad err)
  with assms have "req_name u r \<notin> fst ` set commands" by (simp add: map_of_eq_None_iff)
  with assms(3) show ?thesis by (simp add: readCommands_def flip: set_map add: command_names)
next
  case (run h)
  from read_refines [OF assms(3) run(2)] assms(1) show ?thesis
    unfolding refines_read_def run(3) by blast
qed

lemma ping_echo_frame: "fst (cmd_Ping env d args) = d" "fst (cmd_Echo env d args) = d"
  by (simp_all add: cmd_Ping_def cmd_Echo_def split: list.split)

lemma Dispatch_db_ok:
  assumes ok: "db_ok d"
  shows "db_ok (fst (Dispatch u env d r))"
proof (cases rule: Dispatch_cases [of r u])
  case (bad err)
  with ok show ?thesis by simp
next
  case (run h)
  from run(2) show ?thesis
  proof (cases rule: command_classes)
    case writes
    from Dispatch_write [OF ok run(1) this, of env] ok show ?thesis by (auto split: option.splits)
  next
    case reads
    from Dispatch_read [OF ok run(1) this, of env] ok show ?thesis by (auto split: option.splits)
  qed (use ok publish_frame in \<open>simp_all add: run(3) ping_echo_frame\<close>)
qed

lemma exec_error: "is_error (snd (exec clk w K)) \<Longrightarrow> fst (exec clk w K) = K"
  by (cases w)
    (auto simp: apsnd_def spec_push_def spec_pop_def spec_hset_def spec_hdel_def spec_sadd_def spec_srem_def
      spec_expire_def spec_persist_def count_reply_def bulk_reply_def is_error_def reply_defs
      split: option.splits prod.splits obj.splits if_splits)

text \<open>Only a write command that does not answer with an error changes what clients can see.\<close>

lemma Dispatch_frame:
  assumes ok: "db_ok d" and t: "clock env 0 \<le> t"
    and "is_error (snd (Dispatch u env d r)) \<or> req_name u r \<notin> set writeCommands"
  shows "live t (keyspace (fst (Dispatch u env d r))) = live t (keyspace d)"
proof (cases rule: Dispatch_cases [of r u])
  case (bad err)
  then show ?thesis by simp
next
  case (run h)
  from run(2) show ?thesis
  proof (cases rule: command_classes)
    case writes
    with assms(3) have e: "is_error (snd (Dispatch u env d r))" by simp
    show ?thesis
    proof (cases "parse_write (req_name u r) (req_args r)")
      case None
      with Dispatch_write [OF ok run(1) writes, of env] show ?thesis by simp
    next
      case (Some w)
      with Dispatch_write [OF ok run(1) writes, of env] have
        "exec (clock env) w (keyspace d) = (keyspace (fst (Dispatch u env d r)), snd (Dispatch u env d r))" by simp
      with exec_error [of "clock env" w "keyspace d"] e show ?thesis by simp
    qed
  next
    case reads
    from Dispatch_read [OF ok run(1) this, of env] t show ?thesis by (auto split: option.splits)
  qed (use ok publish_frame in \<open>simp_all add: run(3) ping_echo_frame\<close>)
qed

section \<open>Without deadlines\<close>

definition no_ttl :: "keyspace \<Rightarrow> bool" where
  "no_ttl K \<longleftrightarrow> (\<forall>k v. K k = Some v \<longrightarrow> snd v = None)"

definition sets_ttl :: "wcmd \<Rightarrow> bool" where
  "sets_ttl w = (case w of WExpire _ _ \<Rightarrow> True | _ \<Rightarrow> False)"

lemma live_no_ttl: "no_ttl K \<Longrightarrow> live t K = K"
  by (auto simp: live_def no_ttl_def dead_def fun_eq_iff split: option.splits)

lemma exec_no_ttl:
  assumes "no_ttl K" and "\<not> sets_ttl w"
  shows "exec clk w K = exec clk' w K" and "no_ttl (fst (exec clk w K))"
proof -
  note live = live_no_ttl [OF assms(1)]
  show "exec clk w K = exec clk' w K" using assms(2)
    by (cases w) (simp_all add: live spec_push_def spec_pop_def spec_hset_def spec_hdel_def spec_sadd_def
        spec_srem_def spec_persist_def sets_ttl_def)
  show "no_ttl (fst (exec clk w K))" using assms
    by (cases w) (auto simp: live apsnd_def spec_push_def spec_pop_def spec_hset_def spec_hdel_def spec_sadd_def
        spec_srem_def spec_persist_def sets_ttl_def no_ttl_def restrict_map_def
        split: option.splits prod.splits obj.splits if_splits)
qed

section \<open>Properties\<close>

text \<open>
  C8: Every write command implements its specification on the keyspace. A request that names a write
  command, in any letter case, and parses has exactly the effect and the reply of the abstract
  executor; one that does not parse (wrong number of arguments, a number out of range) answers an
  error and changes nothing. The store's invariant is kept.
\<close>

theorem write_commands_refine:
  assumes "db_ok d" and "well_formed r" and "req_name u r \<in> set writeCommands"
  shows "case parse_write (req_name u r) (req_args r) of
      None \<Rightarrow> fst (Dispatch u env d r) = d \<and> is_error (snd (Dispatch u env d r))
    | Some w \<Rightarrow> db_ok (fst (Dispatch u env d r)) \<and>
        (keyspace (fst (Dispatch u env d r)), snd (Dispatch u env d r)) = exec (clock env) w (keyspace d)"
  by (rule Dispatch_write [OF assms])

theorem write_commands_refine_witness:
  "(let u = \<lparr>upper_table = id, lower_table = id\<rparr>;
        r = ArrayV (Some (map (\<lambda>s. BulkString (Some s)) [''rpush'', ''k'', ''a'', ''b'']))
    in db_ok db_New \<and> well_formed r \<and> req_name u r = ''RPUSH'' \<and>
       keyspace (fst (Dispatch u (at_time 0) db_New r)) = [''k'' \<mapsto> (RList [''a'', ''b''], None)] \<and>
       snd (Dispatch u (at_time 0) db_New r) = IntegerV 2)"
proof -
  let ?u = "\<lparr>upper_table = id, lower_table = id\<rparr>"
  let ?r = "ArrayV (Some (map (\<lambda>s. BulkString (Some s)) [''rpush'', ''k'', ''a'', ''b'']))"
  have r: "well_formed ?r" "req_args ?r = map (\<lambda>s. BulkString (Some s)) [''k'', ''a'', ''b'']"
    by (simp_all add: well_formed_def req_args_def val_defs)
  have n: "req_name ?u ?r = ''RPUSH''" by code_simp
  have "''RPUSH'' \<in> set writeCommands" by (simp add: writeCommands_def)
  with write_commands_refine [OF db_ok_New r(1), of ?u "at_time 0"] n r db_ok_New show ?thesis
    by (simp add: parse_write_def val_defs spec_push_def live_def keyspace_New count_reply_def)
qed

text \<open>
  C9: Every read command answers the keyspace as of its clock reading: the reply is the one its
  specification allows (unique but for the order of the elements of a hash or set), a malformed
  request answers an error, and nothing a client can see from then on changes.
\<close>

theorem read_commands_answer:
  assumes "db_ok d" and "well_formed r" and "req_name u r \<in> set readCommands"
  shows "case parse_read (req_name u r) (req_args r) of
      None \<Rightarrow> fst (Dispatch u env d r) = d \<and> is_error (snd (Dispatch u env d r))
    | Some q \<Rightarrow> db_ok (fst (Dispatch u env d r)) \<and>
        answer (clock env) q (keyspace d) (snd (Dispatch u env d r)) \<and>
        (\<forall>t \<ge> clock env 0. live t (keyspace (fst (Dispatch u env d r))) = live t (keyspace d))"
  using Dispatch_read [OF assms, of env] by (simp split: option.splits)

theorem read_commands_answer_witness:
  "(let u = \<lparr>upper_table = id, lower_table = id\<rparr>; d = fst (db_Expire (at_time 0) (db_Set db_New ''k'' ''v'') ''k'' 5);
        r = ArrayV (Some (map (\<lambda>s. BulkString (Some s)) [''get'', ''k'']))
    in db_ok d \<and> well_formed r \<and> req_name u r \<in> set readCommands \<and>
       snd (Dispatch u (at_time 4) d r) = BulkString (Some ''v'') \<and>
       snd (Dispatch u (at_time 5) d r) = BulkString None)"
proof -
  let ?u = "\<lparr>upper_table = id, lower_table = id\<rparr>"
  let ?r = "ArrayV (Some (map (\<lambda>s. BulkString (Some s)) [''get'', ''k'']))"
  have r: "well_formed ?r" "req_args ?r = [BulkString (Some ''k'')]"
    by (simp_all add: well_formed_def req_args_def val_defs)
  have n: "req_name ?u ?r = ''GET''" by code_simp
  have "''GET'' \<in> set readCommands" by (simp add: readCommands_def)
  with read_commands_answer [OF expiring_key(1) r(1), of ?u "at_time 4" "''k''" "''v''"]
    read_commands_answer [OF expiring_key(1) r(1), of ?u "at_time 5" "''k''" "''v''"] n r expiring_key(1) [of "''k''" "''v''"]
  show ?thesis
    by (simp add: parse_read_def val_defs reply_is_def spec_get_def expiring_key(2) live_def dead_def)
qed

lemma sdiv_pos: "0 \<le> a \<Longrightarrow> 0 < b \<Longrightarrow> a sdiv b = a div (b :: int)"
  by (cases "a = 0") (simp_all add: signed_divide_int_def sgn_if)

lemma sdiv_neg: "a < 0 \<Longrightarrow> 0 < b \<Longrightarrow> a sdiv b = - ((- a) div (b :: int))"
  by (simp add: signed_divide_int_def sgn_if)

lemma ttl_units:
  assumes "unit = Second \<or> unit = Millisecond"
  shows "unit sdiv 2 = unit div 2" "0 < unit" "2 * (unit div 2) = unit" "unit \<le> Second"
  using assms by (auto simp: sdiv_pos)

text \<open>
  C30: TTL arithmetic. For a remaining time whose rounding does not overflow, the reply is the nearest
  multiple of the unit: it is off by at most half a unit. For a remaining time within half a unit of
  the largest duration the addition wraps around and the reply is negative, which a client cannot
  tell from its codes for a missing key or deadline.
\<close>

theorem ttlReply_rounds:
  assumes "unit = Second \<or> unit = Millisecond" and "0 \<le> remaining" and "in_int64 remaining"
  shows "if in_int64 (remaining + unit div 2)
    then \<bar>ttlReply remaining True True unit * unit - remaining\<bar> \<le> unit div 2
    else ttlReply remaining True True unit < 0"
proof (cases "in_int64 (remaining + unit div 2)")
  case True
  note u = ttl_units [OF assms(1)]
  let ?x = "remaining + unit div 2"
  have "ttlReply remaining True True unit = ?x div unit"
    using True assms(2) u(2) by (simp add: ttlReply_def u(1) sdiv_pos)
  then have "ttlReply remaining True True unit * unit = ?x - ?x mod unit" by (simp add: minus_mod_eq_div_mult)
  moreover have "0 \<le> ?x mod unit" "?x mod unit < unit" using u(2) by simp_all
  ultimately have "\<bar>ttlReply remaining True True unit * unit - remaining\<bar> \<le> unit div 2" using u(3) by arith
  with True show ?thesis by auto
next
  case False
  note u = ttl_units [OF assms(1)]
  let ?x = "remaining + unit div 2"
  have x: "9223372036854775808 \<le> ?x" "?x < 9223372037354775808" using False assms u by (auto simp: in_int64_def)
  then have "wrap64 ?x = ?x - 18446744073709551616" by (intro wrap64_above) simp_all
  then have "ttlReply remaining True True unit = - ((18446744073709551616 - ?x) div unit)"
    using x u(2) by (simp add: ttlReply_def u(1) sdiv_neg)
  moreover have "0 < (18446744073709551616 - ?x) div unit" using x u by (simp add: pos_imp_zdiv_pos_iff)
  ultimately show ?thesis using False by simp
qed

theorem ttlReply_rounds_witness:
  "in_int64 (1499999999 + Second div 2) \<and> \<bar>ttlReply 1499999999 True True Second * Second - 1499999999\<bar> \<le> Second div 2 \<and>
   \<not> in_int64 (9223372036854500000 + Millisecond div 2) \<and> ttlReply 9223372036854500000 True True Millisecond < 0"
  using ttlReply_rounds [of Second 1499999999] ttlReply_rounds [of Millisecond 9223372036854500000]
  by (simp add: in_int64_def)



end
