(* ===== verification/State_Machine.thy ===== *)
theory State_Machine
  imports Command_Spec
begin

text \<open>
  Why replaying commands rebuilds a state: the interface of a machine whose steps refine a
  function of the abstract state, whatever the readings of the outside world. The log and the
  replication stream are its clients; the command dispatcher is its instance, on databases and
  commands without deadlines.
\<close>

locale deterministic_machine =
  fixes step :: "'e \<Rightarrow> 'c \<Rightarrow> 's \<Rightarrow> 's"
    and ok :: "'s \<Rightarrow> bool"
    and abs :: "'s \<Rightarrow> 'a"
    and good :: "'c \<Rightarrow> bool"
    and spec :: "'c \<Rightarrow> 'a \<Rightarrow> 'a"
  assumes step_ok: "ok s \<Longrightarrow> good c \<Longrightarrow> ok (step e c s)"
    and step_abs: "ok s \<Longrightarrow> good c \<Longrightarrow> abs (step e c s) = spec c (abs s)"
begin

lemma run:
  assumes "ok s" and "list_all good cs"
  shows "ok (fst (foldl (\<lambda>p c. (step (es (snd p)) c (fst p), Suc (snd p))) (s, i) cs))"
    and "abs (fst (foldl (\<lambda>p c. (step (es (snd p)) c (fst p), Suc (snd p))) (s, i) cs)) = fold spec cs (abs s)"
proof -
  have "ok (fst (foldl (\<lambda>p c. (step (es (snd p)) c (fst p), Suc (snd p))) (s, i) cs)) \<and>
    abs (fst (foldl (\<lambda>p c. (step (es (snd p)) c (fst p), Suc (snd p))) (s, i) cs)) = fold spec cs (abs s)"
    using assms by (induction cs arbitrary: s i) (simp_all add: step_ok step_abs)
  then show "ok (fst (foldl (\<lambda>p c. (step (es (snd p)) c (fst p), Suc (snd p))) (s, i) cs))"
    "abs (fst (foldl (\<lambda>p c. (step (es (snd p)) c (fst p), Suc (snd p))) (s, i) cs)) = fold spec cs (abs s)"
    by auto
qed

end

section \<open>The dispatcher as a machine\<close>

definition ttl_free :: "unicode \<Rightarrow> resp \<Rightarrow> bool" where
  "ttl_free u r \<longleftrightarrow> req_name u r \<noteq> ''EXPIRE'' \<and> req_name u r \<noteq> ''PEXPIRE''"

definition spec_apply :: "unicode \<Rightarrow> resp \<Rightarrow> keyspace \<Rightarrow> keyspace" where
  "spec_apply u r K =
     (if well_formed r \<and> req_name u r \<in> set writeCommands
      then case parse_write (req_name u r) (req_args r) of
             None \<Rightarrow> K
           | Some w \<Rightarrow> fst (exec (\<lambda>_. 0) w K)
      else K)"

lemma parse_ttl: "parse_write name args = Some w \<Longrightarrow> sets_ttl w \<Longrightarrow> name = ''EXPIRE'' \<or> name = ''PEXPIRE''"
  by (auto simp: parse_write_def sets_ttl_def split: list.splits if_splits option.splits)

lemma spec_apply_no_ttl: "no_ttl K \<Longrightarrow> ttl_free u r \<Longrightarrow> no_ttl (spec_apply u r K)"
  using parse_ttl [of "req_name u r" "req_args r"]
  by (auto simp: spec_apply_def ttl_free_def intro!: exec_no_ttl(2) split: option.splits)

lemma Dispatch_shrinks:
  assumes ok: "db_ok d" and "\<not> (well_formed r \<and> req_name u r \<in> set writeCommands)"
  shows "keyspace (fst (Dispatch u env d r)) \<subseteq>\<^sub>m keyspace d"
proof -
  have "req_name u r \<in> set readCommands \<and> well_formed r \<Longrightarrow> keyspace (fst (Dispatch u env d r)) \<subseteq>\<^sub>m keyspace d"
    using Dispatch_read [OF ok, of r u env] by (auto split: option.splits)
  moreover have "\<not> (req_name u r \<in> set readCommands \<and> well_formed r) \<Longrightarrow> keyspace (fst (Dispatch u env d r)) = keyspace d"
  proof (cases rule: Dispatch_cases [of r u])
    case (run h)
    assume "\<not> (req_name u r \<in> set readCommands \<and> well_formed r)"
    with run(1) assms(2) have "req_name u r \<notin> set readCommands" "req_name u r \<notin> set writeCommands" by auto
    with run(2) show ?thesis
      by (cases rule: command_classes) (simp_all add: run(3) ping_echo_frame publish_frame [OF ok])
  qed simp
  ultimately show ?thesis by fastforce
qed

lemma Dispatch_no_ttl:
  assumes ok: "db_ok d" and nt: "no_ttl (keyspace d)" and r: "ttl_free u r"
  shows "keyspace (fst (Dispatch u env d r)) = spec_apply u r (keyspace d)"
proof (cases "well_formed r \<and> req_name u r \<in> set writeCommands")
  case True
  show ?thesis
  proof (cases "parse_write (req_name u r) (req_args r)")
    case None
    with Dispatch_write [OF ok, of r u env] True show ?thesis by (simp add: spec_apply_def)
  next
    case (Some w)
    with r parse_ttl [OF Some] have "\<not> sets_ttl w" by (auto simp: ttl_free_def)
    from exec_no_ttl(1) [OF nt this, of "clock env" "\<lambda>_. 0"] Some True
      Dispatch_write [OF ok, of r u env] show ?thesis
      by (simp add: spec_apply_def) (metis fst_conv)
  qed
next
  case False
  have le: "keyspace (fst (Dispatch u env d r)) \<subseteq>\<^sub>m keyspace d" by (rule Dispatch_shrinks [OF ok False])
  then have "no_ttl (keyspace (fst (Dispatch u env d r)))"
    using nt unfolding no_ttl_def map_le_def by (metis domI)
  moreover have "live (clock env 0) (keyspace (fst (Dispatch u env d r))) = live (clock env 0) (keyspace d)"
    if "well_formed r" using that False by (intro Dispatch_frame [OF ok]) auto
  moreover have "keyspace (fst (Dispatch u env d r)) = keyspace d" if "\<not> well_formed r"
    using that by (cases rule: Dispatch_cases [of r u]) auto
  ultimately show ?thesis using False nt by (cases "well_formed r") (auto simp: spec_apply_def live_no_ttl)
qed

interpretation dispatching: deterministic_machine "\<lambda>env r d. fst (Dispatch u env d r)"
    "\<lambda>d. db_ok d \<and> no_ttl (keyspace d)" keyspace "ttl_free u" "spec_apply u" for u
  by unfold_locales (auto simp: Dispatch_db_ok Dispatch_no_ttl spec_apply_no_ttl)

end
