(* ===== verification/Disk.thy ===== *)
theory Disk
  imports Prelude
begin

text \<open>
  What the persistence layer uses of the operating system: files as inodes with the content
  other processes see (\<open>f_content\<close>, the page cache) and the content that survives a power loss
  (\<open>f_durable\<close>, as of the last fsync), and a directory from paths to inodes. An open file handle
  is its inode, so a handle survives the rename or removal of its path. The durability of
  directory entries themselves is not modelled.
\<close>

record inode =
  f_content :: string
  f_durable :: string

record disk =
  inodes :: "nat \<Rightarrow> inode"
  dir :: "string \<rightharpoonup> nat"
  next_inode :: nat

definition empty_disk :: disk where
  "empty_disk = \<lparr>inodes = (\<lambda>_. \<lparr>f_content = [], f_durable = []\<rparr>), dir = Map.empty, next_inode = 0\<rparr>"

definition read_path :: "disk \<Rightarrow> string \<Rightarrow> string option" where
  "read_path d path = map_option (\<lambda>i. f_content (inodes d i)) (dir d path)"

definition durable_path :: "disk \<Rightarrow> string \<Rightarrow> string option" where
  "durable_path d path = map_option (\<lambda>i. f_durable (inodes d i)) (dir d path)"

text \<open>\<open>O_CREATE|O_APPEND\<close>: an existing file is continued.\<close>

definition open_append :: "disk \<Rightarrow> string \<Rightarrow> disk \<times> nat" where
  "open_append d path =
     (case dir d path of
        Some i \<Rightarrow> (d, i)
      | None \<Rightarrow>
          (d\<lparr>inodes := (inodes d)(next_inode d := \<lparr>f_content = [], f_durable = []\<rparr>),
             dir := (dir d)(path \<mapsto> next_inode d), next_inode := Suc (next_inode d)\<rparr>,
           next_inode d))"

definition set_content :: "disk \<Rightarrow> nat \<Rightarrow> string \<Rightarrow> disk" where
  "set_content d i bs = d\<lparr>inodes := (inodes d)(i := (inodes d i)\<lparr>f_content := bs\<rparr>)\<rparr>"

text \<open>\<open>O_CREATE|O_TRUNC\<close>.\<close>

definition open_trunc :: "disk \<Rightarrow> string \<Rightarrow> disk \<times> nat" where
  "open_trunc d path = (case open_append d path of (d', i) \<Rightarrow> (set_content d' i [], i))"

definition append_bytes :: "disk \<Rightarrow> nat \<Rightarrow> string \<Rightarrow> disk" where
  "append_bytes d i bs = set_content d i (f_content (inodes d i) @ bs)"

definition sync_file :: "disk \<Rightarrow> nat \<Rightarrow> disk" where
  "sync_file d i = d\<lparr>inodes := (inodes d)(i := (inodes d i)\<lparr>f_durable := f_content (inodes d i)\<rparr>)\<rparr>"

definition rename_path :: "disk \<Rightarrow> string \<Rightarrow> string \<Rightarrow> disk" where
  "rename_path d old new = d\<lparr>dir := (dir d)(new := dir d old, old := None)\<rparr>"

definition remove_path :: "disk \<Rightarrow> string \<Rightarrow> disk" where
  "remove_path d path = d\<lparr>dir := (dir d)(path := None)\<rparr>"

text \<open>No two paths share an inode, and inode numbers are fresh.\<close>

definition disk_ok :: "disk \<Rightarrow> bool" where
  "disk_ok d \<longleftrightarrow> (\<forall>p i. dir d p = Some i \<longrightarrow> i < next_inode d) \<and>
     (\<forall>p q i. dir d p = Some i \<longrightarrow> dir d q = Some i \<longrightarrow> p = q)"

lemma disk_ok_empty: "disk_ok empty_disk"
  by (simp add: disk_ok_def empty_disk_def)

lemma dir_ops [simp]:
  "dir (append_bytes d i bs) = dir d" "dir (sync_file d i) = dir d" "dir (set_content d i bs) = dir d"
  "next_inode (append_bytes d i bs) = next_inode d" "next_inode (sync_file d i) = next_inode d"
  "next_inode (set_content d i bs) = next_inode d"
  by (simp_all add: append_bytes_def sync_file_def set_content_def)

lemma content_ops [simp]:
  "f_content (inodes (append_bytes d i bs) j) = (if j = i then f_content (inodes d i) @ bs else f_content (inodes d j))"
  "f_content (inodes (sync_file d i) j) = f_content (inodes d j)"
  "f_content (inodes (set_content d i bs) j) = (if j = i then bs else f_content (inodes d j))"
  "f_durable (inodes (append_bytes d i bs) j) = f_durable (inodes d j)"
  "f_durable (inodes (set_content d i bs) j) = f_durable (inodes d j)"
  "f_durable (inodes (sync_file d i) j) = (if j = i then f_content (inodes d i) else f_durable (inodes d j))"
  by (simp_all add: append_bytes_def sync_file_def set_content_def)

lemma disk_ok_ops:
  "disk_ok d \<Longrightarrow> disk_ok (append_bytes d i bs)" "disk_ok d \<Longrightarrow> disk_ok (sync_file d i)"
  "disk_ok d \<Longrightarrow> disk_ok (set_content d i bs)" "disk_ok d \<Longrightarrow> disk_ok (remove_path d p)"
  "disk_ok d \<Longrightarrow> disk_ok (rename_path d p q)"
  by (auto simp: disk_ok_def remove_path_def rename_path_def split: if_splits)

lemma open_append_spec:
  assumes ok: "disk_ok d" and op: "open_append d path = (d', i)"
  shows "disk_ok d'" and "dir d' path = Some i" and "i < next_inode d'"
    and "f_content (inodes d' i) = (case read_path d path of None \<Rightarrow> [] | Some s \<Rightarrow> s)"
    and "p \<noteq> path \<Longrightarrow> dir d' p = dir d p"
    and "j < next_inode d \<Longrightarrow> inodes d' j = inodes d j" and "next_inode d \<le> next_inode d'"
  using assms
  by (auto simp: open_append_def disk_ok_def read_path_def less_Suc_eq split: option.splits if_splits)
    (metis less_irrefl)+

lemma open_trunc_spec:
  assumes ok: "disk_ok d" and op: "open_trunc d path = (d', i)"
  shows "disk_ok d'" and "dir d' path = Some i" and "f_content (inodes d' i) = []"
    and "p \<noteq> path \<Longrightarrow> dir d' p = dir d p"
    and "j < next_inode d \<Longrightarrow> j \<noteq> i \<Longrightarrow> inodes d' j = inodes d j" and "next_inode d \<le> next_inode d'"
proof -
  obtain d1 where o: "open_append d path = (d1, i)" and d': "d' = set_content d1 i []"
    using op by (auto simp: open_trunc_def split: prod.splits)
  note spec = open_append_spec [OF ok o]
  show "disk_ok d'" "dir d' path = Some i" "f_content (inodes d' i) = []" "p \<noteq> path \<Longrightarrow> dir d' p = dir d p"
    "next_inode d \<le> next_inode d'"
    using spec by (simp_all add: d' disk_ok_ops)
  show "j < next_inode d \<Longrightarrow> j \<noteq> i \<Longrightarrow> inodes d' j = inodes d j"
    using spec(6) by (simp add: d' set_content_def)
qed

end
