(* ===== verification/Frame_Stream.thy ===== *)
theory Frame_Stream
  imports Resp
begin

text \<open>
  The contract between the wire format and its clients. \<open>frame_codec\<close> is what the codec promises:
  frames decode to what was encoded, a cut frame reports an unexpected end, the end between frames
  is the plain end of the stream. \<open>stream_loop\<close> is a client that decodes frame after frame and
  feeds each value to a step: log replay and the replica's stream are such loops.
\<close>

locale frame_codec =
  fixes decode :: "io_err \<Rightarrow> string \<Rightarrow> 'v decoded"
    and enc :: "'v \<Rightarrow> string"
    and good :: "'v \<Rightarrow> bool"
  assumes whole: "good v \<Longrightarrow> decode e (enc v @ r) = Ret v r"
    and torn: "good v \<Longrightarrow> enc v = p @ q \<Longrightarrow> p \<noteq> [] \<Longrightarrow> q \<noteq> [] \<Longrightarrow> decode e p = Fail (unexpectEOF e)"
    and at_end: "decode e [] = Fail e"
begin

lemma enc_nonempty: "good v \<Longrightarrow> enc v \<noteq> []"
  using whole [of v EOF "[]"] at_end [of EOF] by auto

text \<open>No frame is a proper prefix of another: the stream can be cut in one way only.\<close>

lemma enc_prefix_free:
  assumes "good v" and "good w" and "enc v @ r = enc w @ s"
  shows "v = w \<and> r = s"
  using whole [OF assms(1), of EOF r, unfolded assms(3)] whole [OF assms(2), of EOF s] by simp

text \<open>What is left after cutting a stream of frames anywhere: whole frames and a cut one, if any.\<close>

lemma cut_stream:
  assumes "list_all good vs" and "p @ q = concat (map enc vs)"
  obtains ws xs cut rest where "vs = ws @ xs" and "p = concat (map enc ws) @ cut"
    and "cut = [] \<or> (\<exists>x ys. xs = x # ys \<and> enc x = cut @ rest \<and> rest \<noteq> [])"
  using assms
proof (induction vs arbitrary: p thesis)
  case Nil
  from Nil.prems(1) [of "[]" "[]" "[]" "[]"] Nil.prems(3) show ?case by simp
next
  case (Cons v vs)
  consider (inside) rest where "enc v = p @ rest" "rest \<noteq> []" | (past) p' where "p = enc v @ p'" "p' @ q = concat (map enc vs)"
  proof -
    from Cons.prems(3) obtain us where "p = enc v @ us \<and> us @ q = concat (map enc vs) \<or> p @ us = enc v \<and> q = us @ concat (map enc vs)"
      by (auto simp: append_eq_append_conv2)
    with inside [of us] past [of us] past [of "[]"] show thesis by (cases "us = []") auto
  qed
  then show ?case
  proof cases
    case inside
    with Cons.prems(1) [of "[]" "v # vs" p rest] show ?thesis by auto
  next
    case past
    show ?thesis
    proof (rule Cons.IH [OF _ _ past(2)])
      fix ws xs cut rest
      assume "vs = ws @ xs" "p' = concat (map enc ws) @ cut"
        "cut = [] \<or> (\<exists>x ys. xs = x # ys \<and> enc x = cut @ rest \<and> rest \<noteq> [])"
      with past(1) Cons.prems(1) [of "v # ws" xs cut rest] show thesis by simp
    qed (use Cons.prems(2) in simp)
  qed
qed

end

locale stream_loop = frame_codec +
  fixes loop :: "string \<Rightarrow> 's \<Rightarrow> 'r"
    and e :: io_err
    and step :: "'s \<Rightarrow> 'a \<Rightarrow> 's"
    and stop :: "io_err \<Rightarrow> 's \<Rightarrow> 'r"
  assumes loop_step: "decode e bs = Ret v r \<Longrightarrow> loop bs s = loop r (step s v)"
    and loop_stop: "decode e bs = Fail x \<Longrightarrow> loop bs s = stop x s"
begin

lemma loop_frames: "list_all good vs \<Longrightarrow> loop (concat (map enc vs) @ t) s = loop t (foldl step s vs)"
  by (induction vs arbitrary: s) (simp_all add: loop_step [OF whole])

text \<open>A stream of whole frames feeds them all, in order, and stops at the end.\<close>

lemma loop_all: "list_all good vs \<Longrightarrow> loop (concat (map enc vs)) s = stop e (foldl step s vs)"
  using loop_frames [of vs "[]" s] loop_stop [OF at_end, of "foldl step s vs"] by simp

text \<open>A stream cut anywhere feeds exactly the whole frames before the cut.\<close>

lemma loop_torn:
  assumes "list_all good (vs @ [v])" and "enc v = p @ q" and "q \<noteq> []"
  shows "loop (concat (map enc vs) @ p) s = stop (if p = [] then e else unexpectEOF e) (foldl step s vs)"
proof (cases "p = []")
  case True
  with assms loop_all [of vs s] show ?thesis by simp
next
  case False
  with assms torn [of v p q e] loop_stop [of p] show ?thesis by (simp add: loop_frames)
qed

end

end
