(* ===== verification/Resp_Codec.thy ===== *)
theory Resp_Codec
  imports Frame_Stream
begin

text \<open>
  Correctness of the wire format: decoding inverts encoding, whatever was decoded can be encoded
  and decoded again, a decoder consumes exactly one frame, and a frame cut short is reported as
  \<open>io.ErrUnexpectedEOF\<close>.
\<close>

section \<open>Values the wire carries\<close>

text \<open>
  What a value must satisfy to survive the wire: no line feed in a line-based payload, an
  \<open>int64\<close>, lengths the decoder can allocate, a known type byte.
\<close>

fun wire_ok :: "resp \<Rightarrow> bool" where
  "wire_ok (SimpleString s) = (LF \<notin> set s)"
| "wire_ok (ErrorV s) = (LF \<notin> set s)"
| "wire_ok (IntegerV n) = in_int64 n"
| "wire_ok (BulkString None) = True"
| "wire_ok (BulkString (Some b)) = (int (length b) + 2 \<le> maxAlloc)"
| "wire_ok (ArrayV None) = True"
| "wire_ok (ArrayV (Some vs)) = (value_size * int (length vs) \<le> maxAlloc \<and> list_all wire_ok vs)"
| "wire_ok (BadType c) = False"

section \<open>Lines and integers\<close>

lemma ReadBytes_line: "LF \<notin> set l \<Longrightarrow> ReadBytes (l @ LF # r) = Some (l @ [LF], r)"
  by (induction l) auto

lemma ReadBytes_none: "LF \<notin> set s \<Longrightarrow> ReadBytes s = None"
  by (induction s) auto

lemma readLine_line: "LF \<notin> set l \<Longrightarrow> readLine e (l @ CR # LF # r) = Ret l r"
  using ReadBytes_line [of "l @ [CR]" r] by (simp add: readLine_def nth_append)

lemma readLine_torn: "LF \<notin> set s \<Longrightarrow> readLine e s = Fail (unexpectEOF e)"
  by (simp add: readLine_def ReadBytes_none)

lemma readLine_Ret:
  assumes "readLine e s = Ret l r"
  shows "s = l @ CR # LF # r \<and> LF \<notin> set l"
proof -
  from assms obtain line where rb: "ReadBytes s = Some (line, r)"
    and len: "2 \<le> length line" and cr: "line ! (length line - 2) = CR"
    and l: "l = take (length line - 2) line"
    by (auto simp: readLine_def split: option.splits if_splits)
  from ReadBytes_split [OF rb] have s: "s = line @ r" and "line \<noteq> []" "last line = LF"
    and nolf: "LF \<notin> set (butlast line)" by auto
  then obtain k where k: "line = k @ [LF]" by (metis append_butlast_last_id)
  with len obtain j c where j: "k = j @ [c]" by (cases k rule: rev_cases) auto
  with k cr have "c = CR" by (simp add: nth_append)
  with k j l have "line = l @ [CR, LF]" and "l = j" by simp_all
  with s nolf k j show ?thesis by (simp add: butlast_append)
qed

lemma readLine_not_panic [simp]: "readLine e s \<noteq> Panic"
  by (auto simp: readLine_def split: option.splits)

lemma readInt_line:
  "LF \<notin> set l \<Longrightarrow> ParseInt l = Some n \<Longrightarrow> readInt e (l @ CR # LF # r) = Ret n r"
  by (simp add: readInt_def readLine_line)

lemma readInt_FormatInt: "in_int64 n \<Longrightarrow> readInt e (FormatInt n @ CR # LF # r) = Ret n r"
  by (simp add: readInt_line FormatInt_no_eol ParseInt_FormatInt)

lemma readInt_torn: "LF \<notin> set s \<Longrightarrow> readInt e s = Fail (unexpectEOF e)"
  by (simp add: readInt_def readLine_torn)

lemma readInt_Ret:
  assumes "readInt e s = Ret n r"
  shows "\<exists>l. s = l @ CR # LF # r \<and> LF \<notin> set l \<and> ParseInt l = Some n"
  using assms by (auto simp: readInt_def split: decoded.splits option.splits dest!: readLine_Ret)

lemma readInt_not_panic [simp]: "readInt e s \<noteq> Panic"
  by (auto simp: readInt_def split: decoded.splits option.splits)

section \<open>Frames\<close>

text \<open>
  \<open>framed f c v\<close>: the bytes \<open>c\<close> are exactly one frame of decoder \<open>f\<close> with value \<open>v\<close>. Followed by
  anything they decode to \<open>v\<close> and leave what follows; every proper non-empty part of them is a
  torn frame.
\<close>

definition framed :: "(io_err \<Rightarrow> string \<Rightarrow> 'a decoded) \<Rightarrow> string \<Rightarrow> 'a \<Rightarrow> bool" where
  "framed f c v \<longleftrightarrow>
     (\<forall>e t. f e (c @ t) = Ret v t) \<and>
     (\<forall>e p q. c = p @ q \<longrightarrow> q \<noteq> [] \<longrightarrow> p \<noteq> [] \<longrightarrow> f e p = Fail (unexpectEOF e))"

lemma framedI:
  assumes "\<And>e t. f e (c @ t) = Ret v t"
    and "\<And>e p q. c = p @ q \<Longrightarrow> q \<noteq> [] \<Longrightarrow> p \<noteq> [] \<Longrightarrow> f e p = Fail (unexpectEOF e)"
  shows "framed f c v"
  using assms by (auto simp: framed_def)

lemma framedD:
  assumes "framed f c v"
  shows "f e (c @ t) = Ret v t"
    and "c = p @ q \<Longrightarrow> q \<noteq> [] \<Longrightarrow> p \<noteq> [] \<Longrightarrow> f e p = Fail (unexpectEOF e)"
  using assms by (auto simp: framed_def)

lemma line_prefix:
  assumes eq: "l @ CR # LF # b = p @ q" and l: "LF \<notin> set l"
  shows "LF \<notin> set p \<or> (\<exists>p'. p = l @ CR # LF # p' \<and> b = p' @ q)"
proof -
  from eq have "(l @ [CR, LF]) @ b = p @ q" by simp
  then consider (inside) us where "l @ [CR, LF] = p @ us" | (beyond) us where "p = (l @ [CR, LF]) @ us" "b = us @ q"
    using append_eq_append_conv2 [of "l @ [CR, LF]" b p q] by metis
  then show ?thesis
  proof cases
    case (inside us)
    show ?thesis
    proof (cases us rule: rev_cases)
      case Nil
      with inside eq show ?thesis by auto
    next
      case (snoc us' x)
      with inside have "(l @ [CR]) @ [LF] = (p @ us') @ [x]" by simp
      then have "set p \<subseteq> set (l @ [CR])" by (metis append1_eq_conv set_append Un_upper1)
      with l show ?thesis by auto
    qed
  next
    case (beyond us)
    then show ?thesis by simp
  qed
qed

text \<open>Three ways frames are put together: a type byte, a length line, and one after another.\<close>

lemma framed_tag:
  assumes f: "\<And>e s. f e (x # s) = g e s" and g: "framed g c v"
    and nil: "\<And>e. g e [] = Fail (unexpectEOF e)"
  shows "framed f (x # c) v"
proof (rule framedI)
  fix e p q assume a: "x # c = p @ q" "q \<noteq> []" "p \<noteq> []"
  then obtain p' where p: "p = x # p'" "c = p' @ q" by (cases p) auto
  with framedD(2) [OF g p(2) a(2)] nil show "f e p = Fail (unexpectEOF e)"
    by (cases "p' = []") (simp_all add: f)
qed (simp add: f framedD(1) [OF g])

lemma framed_header:
  assumes f: "\<And>e t. f e (l @ CR # LF # t) = g e t" and g: "framed g c v"
    and torn: "\<And>e p. LF \<notin> set p \<Longrightarrow> f e p = Fail (unexpectEOF e)"
    and nil: "\<And>e. c \<noteq> [] \<Longrightarrow> g e [] = Fail (unexpectEOF e)" and l: "LF \<notin> set l"
  shows "framed f (l @ CR # LF # c) v"
proof (rule framedI)
  fix e p q assume a: "l @ CR # LF # c = p @ q" "q \<noteq> []"
  then consider "LF \<notin> set p" | p' where "p = l @ CR # LF # p'" "c = p' @ q"
    using line_prefix [OF a(1) l] by blast
  then show "f e p = Fail (unexpectEOF e)"
  proof cases
    case (2 p')
    with framedD(2) [OF g 2(2) a(2)] nil a(2) show ?thesis by (cases "p' = []") (auto simp: f)
  qed (simp add: torn)
qed (simp add: f framedD(1) [OF g])

lemma framed_append:
  assumes f: "framed f a v" and g: "framed g b w"
    and ok: "\<And>e s t u. f e s = Ret v t \<Longrightarrow> g e t = Ret w u \<Longrightarrow> h e s = Ret z u"
    and torn_f: "\<And>e s x. f e s = Fail x \<Longrightarrow> h e s = Fail (unexpectEOF x)"
    and torn_g: "\<And>e s t x. f e s = Ret v t \<Longrightarrow> g e t = Fail x \<Longrightarrow> h e s = Fail x"
    and nil: "\<And>e. b \<noteq> [] \<Longrightarrow> g e [] = Fail (unexpectEOF e)"
  shows "framed h (a @ b) z"
proof (rule framedI)
  fix e t show "h e ((a @ b) @ t) = Ret z t"
    using ok [OF framedD(1) [OF f] framedD(1) [OF g]] by simp
next
  fix e p q assume pq: "a @ b = p @ q" "q \<noteq> []" "p \<noteq> []"
  from pq(1) obtain us where "a = p @ us \<and> us @ b = q \<or> p = a @ us \<and> b = us @ q"
    using append_eq_append_conv2 [of a b p q] by metis
  then consider "a = p @ us" "us \<noteq> []" | us where "p = a @ us" "b = us @ q"
    by (cases "us = []") auto
  then show "h e p = Fail (unexpectEOF e)"
  proof cases
    case 1
    from torn_f [OF framedD(2) [OF f 1 pq(3)]] show ?thesis by (simp add: unexpectEOF_def)
  next
    case (2 us)
    have "g e us = Fail (unexpectEOF e)"
      using framedD(2) [OF g 2(2) pq(2)] nil 2(2) pq(2) by (cases "us = []") auto
    with torn_g [OF framedD(1) [OF f]] 2(1) show ?thesis by simp
  qed
qed

section \<open>What the decoders consume\<close>

lemma Decode_Nil [simp]: "Decode e [] = Fail e"
  by (simp add: Decode.simps)

lemma framed_end: "framed (\<lambda>e. Ret v) [] v"
  by (simp add: framed_def)

lemma makeslice_bulk:
  assumes "0 \<le> n" and "in_int64 n"
  shows "makeslice_ok 1 (wrap64 (n + 2)) \<longleftrightarrow> n + 2 \<le> maxAlloc"
proof (cases "n + 2 \<le> max_int64")
  case True
  with assms(1) have "in_int64 (n + 2)" by (simp add: in_int64_def)
  with assms(1) show ?thesis by (simp add: makeslice_ok_def)
next
  case False
  with assms have "(n + 2 + 9223372036854775808) mod 18446744073709551616
      = n + 2 + 9223372036854775808 - 18446744073709551616"
    by (subst mod_pos_geq) (simp_all add: in_int64_def)
  with False assms show ?thesis
    by (simp add: makeslice_ok_def wrap64_def in_int64_def maxAlloc_def)
qed

text \<open>The body of a bulk string of length \<open>n\<close>, after its length line.\<close>

definition bulk_body :: "nat \<Rightarrow> io_err \<Rightarrow> string \<Rightarrow> resp decoded" where
  "bulk_body n e r =
     (if length r < n + 2 then Fail (unexpectEOF e)
      else if r ! n \<noteq> CR \<or> r ! (n + 1) \<noteq> LF then Fail BulkNotCRLF
      else Ret (BulkString (Some (take n r))) (drop (n + 2) r))"

lemma decodeBulk_body:
  assumes "readInt e s = Ret n r" and "0 \<le> n" and "n + 2 \<le> maxAlloc"
  shows "decodeBulk e s = bulk_body (nat n) e r"
proof -
  have "in_int64 n" using assms(2,3) by (simp add: in_int64_def maxAlloc_def)
  with assms have ms: "makeslice_ok 1 (wrap64 (n + 2))" by (simp add: makeslice_bulk)
  have n: "nat (n + 1) = Suc (nat n)" "nat (n + 2) = Suc (Suc (nat n))"
    and len: "int (length r) < n + 2 \<longleftrightarrow> length r < nat n + 2" using assms(2) by auto
  show ?thesis
    using assms ms len by (simp add: decodeBulk_def bulk_body_def Let_def n min_def)
qed

lemma framed_bulk_body: "framed (bulk_body (length b)) (b @ [CR, LF]) (BulkString (Some b))"
proof (rule framedI)
  fix e p q assume a: "b @ [CR, LF] = p @ q" "q \<noteq> []"
  then have "length (b @ [CR, LF]) = length p + length q" by (simp only: length_append)
  with a(2) show "bulk_body (length b) e p = Fail (unexpectEOF e)"
    by (cases q) (auto simp: bulk_body_def)
qed (simp add: bulk_body_def nth_append)

lemma bulk_body_Ret:
  assumes "bulk_body n e r = Ret v r'"
  shows "\<exists>b. r = b @ CR # LF # r' \<and> length b = n \<and> v = BulkString (Some b)"
proof -
  from assms have len: "n + 2 \<le> length r" "r ! n = CR" "r ! (n + 1) = LF"
    and v: "v = BulkString (Some (take n r))" "r' = drop (n + 2) r"
    by (auto simp: bulk_body_def split: if_splits)
  have "r = take n r @ r ! n # r ! Suc n # drop (Suc (Suc n)) r"
    using len(1) by (metis Cons_nth_drop_Suc Suc_le_lessD add_2_eq_Suc' append_take_drop_id
        le_eq_less_or_eq less_le_trans lessI)
  with len v show ?thesis by (intro exI [of _ "take n r"]) auto
qed

lemma framed_decodeBulk:
  assumes "decodeBulk e s = Ret v r"
  shows "\<exists>c. s = c @ r \<and> framed decodeBulk c v \<and> wire_ok v"
proof -
  from assms obtain n r0 where rn: "readInt e s = Ret n r0"
    by (auto simp: decodeBulk_def split: decoded.splits)
  from readInt_Ret [OF this] obtain l where l: "s = l @ CR # LF # r0" "LF \<notin> set l"
    "ParseInt l = Some n" by blast
  note hd = readInt_line [OF l(2,3)]
  have torn: "LF \<notin> set p \<Longrightarrow> decodeBulk e p = Fail (unexpectEOF e)" for e p
    by (simp add: decodeBulk_def readInt_torn)
  show ?thesis
  proof (cases "n < 0")
    case True
    with assms rn have v: "v = BulkString None" "r = r0" by (auto simp: decodeBulk_def)
    have "framed decodeBulk (l @ CR # LF # []) v"
      using True v hd by (intro framed_header [OF _ framed_end torn _ l(2)])
        (auto simp: decodeBulk_def)
    with v l show ?thesis by (intro exI [of _ "l @ [CR, LF]"]) simp
  next
    case False
    with assms rn makeslice_bulk [OF _ ParseInt_in_int64 [OF l(3)]] have le: "n + 2 \<le> maxAlloc"
      by (auto simp: decodeBulk_def split: if_splits)
    from decodeBulk_body [OF rn _ le] False assms have "bulk_body (nat n) e r0 = Ret v r" by simp
    from bulk_body_Ret [OF this] obtain b where b: "r0 = b @ CR # LF # r" "length b = nat n"
      "v = BulkString (Some b)" by blast
    have "framed decodeBulk (l @ CR # LF # (b @ [CR, LF])) v"
      unfolding b(3) using False le decodeBulk_body [OF hd]
      by (intro framed_header [OF _ framed_bulk_body torn _ l(2)])
        (auto simp: b(2) bulk_body_def)
    with l b False le show ?thesis by (intro exI [of _ "l @ CR # LF # (b @ [CR, LF])"]) auto
  qed
qed

lemma framed_line_value:
  assumes "readLine e s = Ret l r"
    and "\<And>e s. f e s = (case readLine e s of Ret l r \<Rightarrow> Ret (g l) r | Fail x \<Rightarrow> Fail x | Panic \<Rightarrow> Panic)"
  shows "\<exists>c. s = c @ r \<and> framed f c (g l) \<and> (\<forall>e. f e [] = Fail (unexpectEOF e))"
proof -
  from readLine_Ret [OF assms(1)] have l: "s = l @ CR # LF # r" "LF \<notin> set l" by auto
  have "framed f (l @ CR # LF # []) (g l)"
    by (rule framed_header [OF _ framed_end _ _ l(2)]) (simp_all add: assms(2) readLine_line l readLine_torn)
  with l show ?thesis by (intro exI [of _ "l @ [CR, LF]"]) (simp add: assms(2) readLine_torn)
qed

lemma framed_int_value:
  assumes "readInt e s = Ret n r"
    and "\<And>e s. f e s = (case readInt e s of Ret n r \<Rightarrow> Ret (g n) r | Fail x \<Rightarrow> Fail x | Panic \<Rightarrow> Panic)"
  shows "\<exists>c. s = c @ r \<and> framed f c (g n) \<and> in_int64 n \<and> (\<forall>e. f e [] = Fail (unexpectEOF e))"
proof -
  from readInt_Ret [OF assms(1)] obtain l where l: "s = l @ CR # LF # r" "LF \<notin> set l"
    "ParseInt l = Some n" by blast
  have "framed f (l @ CR # LF # []) (g n)"
    by (rule framed_header [OF _ framed_end _ _ l(2)]) (simp_all add: assms(2) readInt_line l readInt_torn)
  with l show ?thesis
    by (intro exI [of _ "l @ [CR, LF]"]) (auto simp: assms(2) readInt_torn dest: ParseInt_in_int64)
qed

definition elems_framed :: "int \<Rightarrow> string \<Rightarrow> resp list \<Rightarrow> bool" where
  "elems_framed n c vs \<longleftrightarrow>
     framed (\<lambda>e. decodeElems e n) c vs \<and> list_all wire_ok vs \<and> int (length vs) = max 0 n \<and>
     (\<forall>e. c \<noteq> [] \<longrightarrow> decodeElems e n [] = Fail (unexpectEOF e))"

lemma elems_framed_end: "n \<le> 0 \<Longrightarrow> elems_framed n [] []"
  by (auto simp: elems_framed_def framed_def decodeElems.simps)

lemma elems_framed_Cons:
  assumes n: "\<not> n \<le> 0" and v: "framed Decode a v" "wire_ok v" and vs: "elems_framed (n - 1) b vs"
  shows "elems_framed n (a @ b) (v # vs)"
proof -
  from vs have b: "framed (\<lambda>e. decodeElems e (n - 1)) b vs"
    and nil: "\<And>e. b \<noteq> [] \<Longrightarrow> decodeElems e (n - 1) [] = Fail (unexpectEOF e)"
    by (auto simp: elems_framed_def)
  have "framed (\<lambda>e. decodeElems e n) (a @ b) (v # vs)"
    by (rule framed_append [OF v(1) b]) (use n nil in \<open>auto simp: decodeElems.simps [of _ n]\<close>)
  moreover have "decodeElems e n [] = Fail (unexpectEOF e)" for e
    using n by (simp add: decodeElems.simps [of e n])
  ultimately show ?thesis using vs v n by (auto simp: elems_framed_def)
qed

lemma framed_decodeArray:
  assumes "decodeArray e s = Ret v r"
    and elems: "\<And>n r0 vs. readInt e s = Ret n r0 \<Longrightarrow> decodeElems e n r0 = Ret vs r \<Longrightarrow>
      0 \<le> n \<Longrightarrow> makeslice_ok value_size n \<Longrightarrow> \<exists>c. r0 = c @ r \<and> elems_framed n c vs"
  shows "\<exists>c. s = c @ r \<and> framed decodeArray c v \<and> wire_ok v"
proof -
  from assms(1) obtain n r0 where rn: "readInt e s = Ret n r0"
    by (auto simp: decodeArray.simps split: decoded.splits)
  from readInt_Ret [OF this] obtain l where l: "s = l @ CR # LF # r0" "LF \<notin> set l"
    "ParseInt l = Some n" by blast
  note hd = readInt_line [OF l(2,3)]
  have torn: "LF \<notin> set p \<Longrightarrow> decodeArray e p = Fail (unexpectEOF e)" for e p
    by (simp add: decodeArray.simps readInt_torn)
  show ?thesis
  proof (cases "n < 0")
    case True
    with assms rn have v: "v = ArrayV None" "r = r0" by (auto simp: decodeArray.simps)
    have "framed decodeArray (l @ CR # LF # []) v"
      using True v hd by (intro framed_header [OF _ framed_end torn _ l(2)])
        (auto simp: decodeArray.simps)
    with v l show ?thesis by (intro exI [of _ "l @ [CR, LF]"]) simp
  next
    case False
    with assms(1) rn obtain vs where ms: "makeslice_ok value_size n"
      and el: "decodeElems e n r0 = Ret vs r" and v: "v = ArrayV (Some vs)"
      by (auto simp: decodeArray.simps split: decoded.splits if_splits)
    from elems [OF rn el _ ms] False obtain c where r0: "r0 = c @ r" and c: "elems_framed n c vs" by auto
    let ?g = "\<lambda>e r. case decodeElems e n r of Ret arr r' \<Rightarrow> Ret (ArrayV (Some arr)) r'
      | Fail x \<Rightarrow> Fail x | Panic \<Rightarrow> Panic"
    from c have "framed ?g c v" by (auto simp: elems_framed_def framed_def v)
    then have "framed decodeArray (l @ CR # LF # c) v"
      by (rule framed_header [OF _ _ torn _ l(2), rotated])
        (use c False ms hd in \<open>auto simp: elems_framed_def decodeArray.simps\<close>)
    with v l r0 c ms False show ?thesis
      by (intro exI [of _ "l @ CR # LF # c"]) (auto simp: makeslice_ok_def elems_framed_def)
  qed
qed

lemma Decode_frames:
  "\<forall>v r. Decode e s = Ret v r \<longrightarrow> (\<exists>c. s = c @ r \<and> c \<noteq> [] \<and> framed Decode c v \<and> wire_ok v)"
  "\<forall>v r. decodeArray e s = Ret v r \<longrightarrow> (\<exists>c. s = c @ r \<and> framed decodeArray c v \<and> wire_ok v)"
  "\<forall>vs r. decodeElems e n s = Ret vs r \<longrightarrow> (\<exists>c. s = c @ r \<and> elems_framed n c vs)"
proof (induction e s and e s and e n s rule: Decode_decodeArray_decodeElems.induct)
  case (2 e x s)
  have tag: "\<exists>c. s = c @ r \<and> framed f c v \<and> wire_ok v \<and> (\<forall>e. f e [] = Fail (unexpectEOF e)) \<Longrightarrow>
      (\<And>e s. Decode e (x # s) = f e s) \<Longrightarrow>
      \<exists>c. x # s = c @ r \<and> c \<noteq> [] \<and> framed Decode c v \<and> wire_ok v" for f v r
    by (metis append_Cons framed_tag list.distinct(1))
  show ?case
  proof (intro allI impI)
    fix v r assume d: "Decode e (x # s) = Ret v r"
    consider (line) l where "readLine e s = Ret l r"
        "x = CHR ''+'' \<and> v = SimpleString l \<or> x = CHR ''-'' \<and> v = ErrorV l"
      | (int) n where "readInt e s = Ret n r" "x = CHR '':''" "v = IntegerV n"
      | (bulk) "decodeBulk e s = Ret v r" "x = CHR ''$''"
      | (arr) "decodeArray e s = Ret v r" "x = CHR ''*''"
      using d by (auto simp: Decode.simps split: if_splits decoded.splits)
    then show "\<exists>c. x # s = c @ r \<and> c \<noteq> [] \<and> framed Decode c v \<and> wire_ok v"
    proof cases
      case line
      from readLine_Ret [OF line(1)] line(2) framed_line_value [OF line(1) refl, of SimpleString]
        framed_line_value [OF line(1) refl, of ErrorV]
      show ?thesis by (elim disjE) (rule tag; fastforce simp: Decode.simps)+
    next
      case int
      from framed_int_value [OF int(1) refl, of IntegerV] int(2,3)
      show ?thesis by (intro tag) (fastforce simp: Decode.simps)+
    next
      case bulk
      from framed_decodeBulk [OF bulk(1)] bulk(2) show ?thesis
        by (intro tag [where f = decodeBulk]) (auto simp: Decode.simps decodeBulk_def readInt_torn)
    next
      case arr
      with 2 show ?thesis
        by (intro tag [where f = decodeArray])
          (auto simp: Decode.simps decodeArray.simps [of _ "[]"] readInt_torn)
    qed
  qed
next
  case (3 e s)
  then show ?case by (intro allI impI framed_decodeArray) (auto simp: not_less)
next
  case (4 e n s)
  show ?case
  proof (intro allI impI, cases "n \<le> 0")
    fix vs r assume "decodeElems e n s = Ret vs r" "n \<le> 0"
    then show "\<exists>c. s = c @ r \<and> elems_framed n c vs"
      by (intro exI [of _ "[]"]) (auto simp: decodeElems.simps elems_framed_end)
  next
    fix vs r assume d: "decodeElems e n s = Ret vs r" and n: "\<not> n \<le> 0"
    then obtain v r0 vs' where v: "Decode e s = Ret v r0" "decodeElems e (n - 1) r0 = Ret vs' r"
      and vs: "vs = v # vs'"
      by (auto simp: decodeElems.simps [of e n s] split: decoded.splits)
    from 4(1) [OF n] 4(2) [OF n v(1)] v show "\<exists>c. s = c @ r \<and> elems_framed n c vs"
      unfolding vs by (metis append_assoc elems_framed_Cons [OF n])
  qed
qed simp

section \<open>Decoding inverts encoding\<close>

lemma Encode_ok: "wire_ok v \<Longrightarrow> snd (Encode v)" "list_all wire_ok vs \<Longrightarrow> snd (encodeElems vs)"
  by (induction v and vs rule: Encode_encodeElems.induct) (auto split: prod.splits bool.splits)

lemma wires_Cons: "wire_ok v \<Longrightarrow> wires (v # vs) = wire v @ wires vs"
  using Encode_ok(1) [of v] by (auto split: prod.splits bool.splits)

lemma readInt_Itoa: "int n \<le> maxAlloc \<Longrightarrow> readInt e (Itoa n @ CR # LF # r) = Ret (int n) r"
  by (simp add: Itoa_def readInt_FormatInt in_int64_def maxAlloc_def)

lemma readInt_minus1: "readInt e (CHR ''-'' # CHR ''1'' # CR # LF # r) = Ret (-1) r"
  using readInt_line [of "''-1''" "-1" e r] by (simp add: ParseInt_def is_digit_def digit_val_def)

lemma Decode_Encode:
  "wire_ok v \<Longrightarrow> Decode e (wire v @ r) = Ret v r"
  "list_all wire_ok vs \<Longrightarrow> decodeElems e (int (length vs)) (wires vs @ r) = Ret vs r"
proof (induction v and vs arbitrary: r and r rule: Encode_encodeElems.induct)
  case (5 b)
  then have len: "int (length b) + 2 \<le> maxAlloc" by simp
  have "decodeBulk e (Itoa (length b) @ CR # LF # (b @ [CR, LF] @ r)) = Ret (BulkString (Some b)) r"
    using decodeBulk_body [OF readInt_Itoa _ len] framedD(1) [OF framed_bulk_body, of b e r] len by simp
  then show ?case by (simp add: Decode.simps)
next
  case (7 vs)
  then have len: "makeslice_ok value_size (int (length vs))" "int (length vs) \<le> maxAlloc"
    by (auto simp: makeslice_ok_def maxAlloc_def)
  with 7 show ?case
    by (auto simp: Decode.simps decodeArray.simps readInt_Itoa split: prod.splits)
next
  case (10 v vs)
  then have "wires (v # vs) = wire v @ wires vs" by (intro wires_Cons) simp
  moreover obtain x where "Encode v = (x, True)" using 10(3) Encode_ok(1) [of v] by (cases "Encode v") auto
  ultimately show ?case using 10 by (simp add: decodeElems.simps [of e "1 + int (length vs)"])
qed (simp_all add: Decode.simps decodeArray.simps decodeBulk_def readLine_line readInt_FormatInt
    readInt_minus1 decodeElems.simps)

lemma framed_wire: "wire_ok v \<Longrightarrow> framed Decode (wire v) v"
  by (metis Decode_Encode(1) Decode_frames(1) append_Nil2)

lemma wire_nonempty: "wire_ok v \<Longrightarrow> wire v \<noteq> []"
  using Decode_Encode(1) [of v EOF "[]"] by auto

lemma Decode_shorter: "Decode e s = Ret v r \<Longrightarrow> length r < length s"
  using Decode_frames(1) [of e s] by auto

interpretation resp_wire: frame_codec Decode "\<lambda>v. fst (Encode v)" wire_ok
proof
  show "wire_ok v \<Longrightarrow> Decode e (fst (Encode v) @ r) = Ret v r" for v e r by (rule Decode_Encode(1))
  show "wire_ok v \<Longrightarrow> fst (Encode v) = p @ q \<Longrightarrow> p \<noteq> [] \<Longrightarrow> q \<noteq> [] \<Longrightarrow> Decode e p = Fail (unexpectEOF e)" for v p q e
    by (rule framedD(2) [OF framed_wire])
qed simp

section \<open>Properties\<close>

text \<open>
  C10: Round trip of the wire format. A value that fits the format (lines without a line feed, integers of
  64 bits, sizes the runtime can allocate) encodes without error, and decoding its bytes gives the
  value back and leaves whatever follows untouched, for bulk strings of arbitrary bytes and nested
  arrays alike.
\<close>

theorem Decode_inverts_Encode:
  assumes "wire_ok v"
  shows "snd (Encode v) \<and> Decode e (fst (Encode v) @ rest) = Ret v rest"
  using Encode_ok(1) [OF assms] Decode_Encode(1) [OF assms] by simp

theorem Decode_inverts_Encode_witness:
  "(let v = ArrayV (Some [BulkString (Some (''SET'' @ CRLF)), BulkString None, IntegerV (-5), ArrayV None])
    in wire_ok v \<and> Decode EOF (fst (Encode v) @ ''rest'') = Ret v ''rest'')"
  using Decode_inverts_Encode [of "ArrayV (Some [BulkString (Some (''SET'' @ CRLF)), BulkString None, IntegerV (-5), ArrayV None])"
      EOF "''rest''"]
  by (simp add: in_int64_def maxAlloc_def Let_def)

text \<open>
  C22: Framing. Whatever a client sends, a value the decoder returns was framed by a prefix of the input of
  at least one byte that decodes to it regardless of what follows, and the value is one that
  survives re-encoding. The decoder therefore always makes progress and never looks past its frame.
\<close>

theorem Decode_frames_input:
  assumes "Decode e s = Ret v r"
  shows "length r < length s \<and> (\<exists>c. s = c @ r \<and> (\<forall>e' t. Decode e' (c @ t) = Ret v t)) \<and>
    wire_ok v \<and> (\<forall>e' t. Decode e' (fst (Encode v) @ t) = Ret v t)"
proof -
  from Decode_frames(1) [of e s] assms obtain c where c: "s = c @ r" "c \<noteq> []" "framed Decode c v" "wire_ok v"
    by blast
  with framedD(1) [OF c(3)] Decode_Encode(1) [OF c(4)] show ?thesis by auto
qed

theorem Decode_frames_input_witness:
  "Decode EOF ('':+7'' @ CRLF @ ''x'') = Ret (IntegerV 7) ''x'' \<and> wire_ok (IntegerV 7) \<and>
   (\<forall>e t. Decode e (fst (Encode (IntegerV 7)) @ t) = Ret (IntegerV 7) t)"
proof -
  have "Decode EOF ('':+7'' @ CRLF @ ''x'') = Ret (IntegerV 7) ''x''"
    using readInt_line [of "''+7''" 7 EOF "''x''"] by (simp add: Decode.simps ParseInt_def is_digit_def digit_val_def)
  with Decode_frames_input [OF this] show ?thesis by blast
qed

text \<open>
  C36: Oversized headers. A client that announces an array or a bulk string larger than the runtime can
  allocate makes the decoder panic, and with it the process, since nothing recovers: the header
  alone suffices, before any element or payload is sent.
\<close>

theorem oversized_header_panics:
  assumes "in_int64 n"
  shows "(maxAlloc < value_size * n \<longrightarrow> Decode e (''*'' @ FormatInt n @ CRLF @ rest) = Panic) \<and>
    (maxAlloc < n + 2 \<longrightarrow> Decode e (''$'' @ FormatInt n @ CRLF @ rest) = Panic)"
proof -
  have ri: "readInt e (FormatInt n @ CR # LF # rest) = Ret n rest"
    by (rule readInt_line [OF FormatInt_no_eol(1) ParseInt_FormatInt [OF assms]])
  show ?thesis
  proof (intro conjI impI)
    assume big: "maxAlloc < value_size * n"
    then have "0 \<le> n" by (simp add: maxAlloc_def)
    with ri big show "Decode e (''*'' @ FormatInt n @ CRLF @ rest) = Panic"
      by (simp add: Decode.simps decodeArray.simps makeslice_ok_def)
  next
    assume big: "maxAlloc < n + 2"
    then have "0 \<le> n" by (simp add: maxAlloc_def)
    with ri big makeslice_bulk [OF _ assms] show "Decode e (''$'' @ FormatInt n @ CRLF @ rest) = Panic"
      by (simp add: Decode.simps decodeBulk_def)
  qed
qed

theorem oversized_header_panics_witness:
  "Decode EOF (''*'' @ FormatInt 9223372036854775807 @ CRLF) = Panic \<and>
   Decode EOF (''$'' @ FormatInt 9223372036854775807 @ CRLF) = Panic"
  using oversized_header_panics [of 9223372036854775807 EOF "[]"] by (simp add: in_int64_def maxAlloc_def)

end
