(* ===== verification/Aof.thy ===== *)
theory Aof
  imports Disk Resp_Codec
begin

text \<open>
  The append-only log of \<open>internal/persistence/aof.go\<close>. The outcome of the system calls an operation
  makes is an argument of it; every statement that does not constrain it holds for all outcomes.
\<close>

section \<open>Fsync policies\<close>

datatype FsyncMode = FsyncEverySec | FsyncAlways | FsyncNo

fun FsyncMode_String :: "FsyncMode \<Rightarrow> string" where
  "FsyncMode_String FsyncAlways = ''always''"
| "FsyncMode_String FsyncEverySec = ''everysec''"
| "FsyncMode_String FsyncNo = ''no''"

definition ParseFsyncMode :: "string \<Rightarrow> FsyncMode option" where
  "ParseFsyncMode s =
     (if s = ''always'' then Some FsyncAlways
      else if s = ''everysec'' then Some FsyncEverySec
      else if s = ''no'' then Some FsyncNo
      else None)"

section \<open>The log\<close>

text \<open>
  \<open>a_buf\<close> and \<open>a_err\<close> are the \<open>bufio.Writer\<close>: the bytes it still holds and its sticky error (after a
  failed write it refuses every later one). \<open>a_counting\<close> tells whether the writer goes through
  \<open>countingWriter\<close>, and \<open>a_counted\<close> is what that has added to the metric. The \<open>stop\<close>/\<open>done\<close>
  channels of the ticker are the flag \<open>a_ticking\<close>.
\<close>

record aof =
  a_file :: nat
  a_buf :: string
  a_err :: bool
  a_mode :: FsyncMode
  a_baseSize :: int
  a_ticking :: bool
  a_counting :: bool
  a_counted :: nat
  a_closed :: bool

text \<open>
  Outcomes of one operation's system calls: \<open>o_write\<close> is \<open>None\<close> when the writes succeed and
  \<open>Some n\<close> when an error stops them after \<open>n\<close> bytes; \<open>o_spill\<close> is how much the buffer had already
  pushed out when encoding was abandoned.
\<close>

record os_outcome =
  o_open :: bool
  o_stat :: bool
  o_spill :: nat
  o_write :: "nat option"
  o_sync :: bool
  o_close :: bool

definition all_well :: os_outcome where
  "all_well = \<lparr>o_open = True, o_stat = True, o_spill = 0, o_write = None, o_sync = True, o_close = True\<rparr>"

definition Open :: "os_outcome \<Rightarrow> disk \<Rightarrow> string \<Rightarrow> FsyncMode \<Rightarrow> disk \<times> aof option" where
  "Open os d path mode =
     (if \<not> o_open os then (d, None)
      else case open_append d path of
             (d', i) \<Rightarrow>
               (d', Some \<lparr>a_file = i, a_buf = [], a_err = False, a_mode = mode,
                  a_baseSize = (if o_stat os then int (length (f_content (inodes d' i))) else 0),
                  a_ticking = (mode = FsyncEverySec), a_counting = True, a_counted = 0,
                  a_closed = False\<rparr>))"

text \<open>Handing \<open>bs\<close> to the file below the buffer.\<close>

definition emit :: "disk \<Rightarrow> aof \<Rightarrow> string \<Rightarrow> disk \<times> aof" where
  "emit d a bs =
     (append_bytes d (a_file a) bs,
      a\<lparr>a_counted := (if a_counting a then a_counted a + length bs else a_counted a)\<rparr>)"

text \<open>\<open>bufio.Writer.Flush\<close>.\<close>

definition w_Flush :: "os_outcome \<Rightarrow> disk \<Rightarrow> aof \<Rightarrow> disk \<times> aof \<times> bool" where
  "w_Flush os d a =
     (if a_err a then (d, a, False)
      else if a_buf a = [] then (d, a, True)
      else case o_write os of
             None \<Rightarrow> (case emit d a (a_buf a) of (d', a') \<Rightarrow> (d', a'\<lparr>a_buf := []\<rparr>, True))
           | Some n \<Rightarrow>
               (case emit d a (take n (a_buf a)) of
                  (d', a') \<Rightarrow> (d', a'\<lparr>a_buf := drop n (a_buf a), a_err := True\<rparr>, False)))"

definition fsync :: "os_outcome \<Rightarrow> disk \<Rightarrow> nat \<Rightarrow> disk \<times> bool" where
  "fsync os d i = (if o_sync os then (sync_file d i, True) else (d, False))"

text \<open>
  \<open>Append\<close>: encode into the buffer, flush, and fsync in \<open>FsyncAlways\<close>. Writes the buffer makes on
  its own when it fills up are part of the flush, since their outcome is the same. The boolean is
  whether the error is nil.
\<close>

definition Append :: "os_outcome \<Rightarrow> disk \<Rightarrow> aof \<Rightarrow> resp \<Rightarrow> disk \<times> aof \<times> bool" where
  "Append os d a cmd =
     (if a_err a then (d, a, False)
      else case Encode cmd of
             (bs, False) \<Rightarrow>
               let buf = a_buf a @ bs
               in (case emit d a (take (o_spill os) buf) of
                     (d', a') \<Rightarrow> (d', a'\<lparr>a_buf := drop (o_spill os) buf\<rparr>, False))
           | (bs, True) \<Rightarrow>
               (case w_Flush os d (a\<lparr>a_buf := a_buf a @ bs\<rparr>) of
                  (d', a', False) \<Rightarrow> (d', a', False)
                | (d', a', True) \<Rightarrow>
                    if a_mode a' = FsyncAlways
                    then (case fsync os d' (a_file a') of (d'', ok) \<Rightarrow> (d'', a', ok))
                    else (d', a', True)))"

definition aof_Flush :: "os_outcome \<Rightarrow> disk \<Rightarrow> aof \<Rightarrow> disk \<times> aof \<times> bool" where
  "aof_Flush os d a = w_Flush os d a"

text \<open>One tick of \<open>syncEverySec\<close>.\<close>

definition syncEverySec :: "os_outcome \<Rightarrow> disk \<Rightarrow> aof \<Rightarrow> disk" where
  "syncEverySec os d a = (if a_ticking a then fst (fsync os d (a_file a)) else d)"

definition Size :: "os_outcome \<Rightarrow> disk \<Rightarrow> aof \<Rightarrow> int option" where
  "Size os d a = (if o_stat os then Some (int (length (f_content (inodes d (a_file a))))) else None)"

abbreviation rewriteGrowthFactor :: int where "rewriteGrowthFactor \<equiv> 2"
abbreviation minRewriteSize :: int where "minRewriteSize \<equiv> 64 * 1024"

definition ShouldRewrite :: "os_outcome \<Rightarrow> disk \<Rightarrow> aof \<Rightarrow> bool" where
  "ShouldRewrite os d a =
     (case Size os d a of
        None \<Rightarrow> False
      | Some sz \<Rightarrow> minRewriteSize \<le> sz \<and> wrap64 (rewriteGrowthFactor * a_baseSize a) \<le> sz)"

text \<open>\<open>Close\<close> stops the ticker, then flushes, syncs and closes in every case.\<close>

definition aof_Close :: "os_outcome \<Rightarrow> disk \<Rightarrow> aof \<Rightarrow> disk \<times> aof \<times> bool" where
  "aof_Close os d a =
     (case w_Flush os d (a\<lparr>a_ticking := False\<rparr>) of
        (d1, a1, flushed) \<Rightarrow>
          (case fsync os d1 (a_file a1) of
             (d2, synced) \<Rightarrow> (d2, a1\<lparr>a_closed := True\<rparr>, flushed \<and> synced \<and> o_close os)))"

section \<open>What the file holds\<close>

text \<open>
  The log is in good order on a disk: its handle is the file at the path, nothing is pending in the
  buffer and no error is stuck.
\<close>

definition aof_ok :: "disk \<Rightarrow> string \<Rightarrow> aof \<Rightarrow> bool" where
  "aof_ok d path a \<longleftrightarrow> disk_ok d \<and> dir d path = Some (a_file a) \<and> a_buf a = [] \<and> \<not> a_err a"

definition log_bytes :: "disk \<Rightarrow> aof \<Rightarrow> string" where
  "log_bytes d a = f_content (inodes d (a_file a))"

lemma Open_ok:
  assumes "disk_ok d" and "Open os d path mode = (d', Some a)"
  shows "aof_ok d' path a \<and> log_bytes d' a = (case read_path d path of None \<Rightarrow> [] | Some s \<Rightarrow> s) \<and>
    a_mode a = mode"
  using assms open_append_spec [OF assms(1)]
  by (auto simp: Open_def aof_ok_def log_bytes_def split: prod.splits if_splits)

lemma Open_works: "o_open os \<Longrightarrow> \<exists>d' a. Open os d path mode = (d', Some a)"
  by (simp add: Open_def split: prod.splits)

text \<open>
  A successful append adds exactly the frame of its command; a failed one adds a proper or improper
  prefix of it, and then, unless only the fsync failed, the log refuses everything that follows.
\<close>

lemma w_Flush_success:
  assumes "w_Flush os d a = (d', a', True)"
  shows "\<not> a_err a" "d' = append_bytes d (a_file a) (a_buf a) \<or> (a_buf a = [] \<and> d' = d)"
    "a_buf a' = []" "a_err a' = a_err a" "a_file a' = a_file a" "a_mode a' = a_mode a"
  using assms by (auto simp: w_Flush_def emit_def split: if_splits option.splits)

lemma Append_success:
  assumes a: "aof_ok d path a" and ok: "Append os d a cmd = (d', a', True)"
  shows "aof_ok d' path a'" and "log_bytes d' a' = log_bytes d a @ wire cmd" and "a_mode a' = a_mode a"
    and "a_mode a = FsyncAlways \<Longrightarrow> durable_path d' path = Some (log_bytes d' a')"
proof -
  obtain bs where e: "Encode cmd = (bs, True)" using ok by (auto simp: Append_def Let_def split: prod.splits if_splits bool.splits)
  obtain d1 where f: "w_Flush os d (a\<lparr>a_buf := bs\<rparr>) = (d1, a', True)"
    and d': "d' = (if a_mode a' = FsyncAlways then sync_file d1 (a_file a') else d1)"
    using ok a e by (auto simp: Append_def aof_ok_def fsync_def split: prod.splits if_splits bool.splits)
  note fl = w_Flush_success [OF f]
  show "a_mode a' = a_mode a" using fl by simp
  show "aof_ok d' path a'" using fl a d' by (auto simp: aof_ok_def disk_ok_ops)
  show "log_bytes d' a' = log_bytes d a @ wire cmd" using fl d' e by (auto simp: log_bytes_def)
  show "durable_path d' path = Some (log_bytes d' a')" if "a_mode a = FsyncAlways"
    using fl a d' that by (auto simp: durable_path_def log_bytes_def aof_ok_def)
qed

text \<open>After a write error nothing more reaches the log.\<close>

lemma Append_stuck: "a_err a \<Longrightarrow> Append os d a cmd = (d, a, False)"
  by (simp add: Append_def)

lemma Append_works:
  assumes "aof_ok d path a" and "wire_ok cmd" and "o_write os = None" and "o_sync os"
  shows "\<exists>d' a'. Append os d a cmd = (d', a', True)"
proof -
  obtain bs where "Encode cmd = (bs, True)" "bs \<noteq> []"
    using Encode_ok(1) [OF assms(2)] wire_nonempty [OF assms(2)] by (cases "Encode cmd") auto
  with assms show ?thesis
    by (simp add: Append_def aof_ok_def w_Flush_def emit_def fsync_def)
qed

text \<open>A clean close leaves everything appended on stable storage, whatever the mode.\<close>

lemma aof_Close_durable:
  assumes "aof_ok d path a" and "aof_Close os d a = (d', a', True)"
  shows "durable_path d' path = read_path d path \<and> read_path d' path = read_path d path"
  using assms
  by (auto simp: aof_Close_def aof_ok_def w_Flush_def fsync_def durable_path_def read_path_def split: if_splits)

lemma syncEverySec_durable:
  assumes "aof_ok d path a" and "a_ticking a" and "o_sync os"
  shows "durable_path (syncEverySec os d a) path = read_path d path"
  using assms by (simp add: syncEverySec_def fsync_def durable_path_def read_path_def aof_ok_def)

section \<open>A fresh log, the threshold of a rewrite, and the policy flag\<close>

lemma fresh_log:
  fixes path mode
  defines "d \<equiv> fst (Open all_well empty_disk path mode)" and "a \<equiv> the (snd (Open all_well empty_disk path mode))"
  shows "aof_ok d path a" and "log_bytes d a = []" and "a_mode a = mode" and "a_ticking a = (mode = FsyncEverySec)"
proof -
  have o: "Open all_well empty_disk path mode = (d, Some a)"
    by (simp add: d_def a_def Open_def all_well_def split: prod.splits)
  from Open_ok [OF disk_ok_empty o] show "aof_ok d path a" "log_bytes d a = []" "a_mode a = mode"
    by (simp_all add: read_path_def empty_disk_def)
  from o show "a_ticking a = (mode = FsyncEverySec)" by (auto simp: Open_def split: prod.splits if_splits)
qed

text \<open>
  The compaction trigger. When the log can be measured and doubling its base size does not overflow,
  a rewrite is due exactly when the log has reached 64 KiB and at least twice its base size.
\<close>

lemma ShouldRewrite_threshold:
  assumes "o_stat os" and "in_int64 (2 * a_baseSize a)"
  shows "ShouldRewrite os d a \<longleftrightarrow>
    65536 \<le> length (log_bytes d a) \<and> 2 * a_baseSize a \<le> int (length (log_bytes d a))"
  using assms by (auto simp: ShouldRewrite_def Size_def log_bytes_def)

text \<open>
  The names of the fsync policies round-trip: parsing accepts exactly the three names \<open>String\<close> prints
  and gives back the policy printed.
\<close>

lemma ParseFsyncMode_round_trip: "ParseFsyncMode s = Some m \<longleftrightarrow> s = FsyncMode_String m"
  by (cases m) (auto simp: ParseFsyncMode_def)

end
