(* ===== verification/Replay_Log.thy ===== *)
theory Replay_Log
  imports Aof
begin

text \<open>
  \<open>internal/persistence/replay.go\<close>: reading the log back, frame by frame, and handing each command to
  the caller's \<open>apply\<close>. \<open>e\<close> is what the reader reports after the file's last byte: \<open>EOF\<close>, or the
  error of a failed read.
\<close>

datatype replay_end =
    Replayed nat
  | ReplayFailed nat io_err
  | ReplayApplyFailed nat string
  | ReplayOpenFailed
  | ReplayPanic

function replay_loop ::
  "io_err \<Rightarrow> ('s \<Rightarrow> resp \<Rightarrow> 's \<times> string option) \<Rightarrow> string \<Rightarrow> 's \<Rightarrow> nat \<Rightarrow> 's \<times> replay_end" where
  "replay_loop e apply bs s applied =
     (case Decode e bs of
        Fail x \<Rightarrow>
          if x = EOF then (s, Replayed applied)
          else if x = UnexpectedEOF then (s, Replayed applied)
          else (s, ReplayFailed applied x)
      | Panic \<Rightarrow> (s, ReplayPanic)
      | Ret cmd r \<Rightarrow>
          (case apply s cmd of
             (s', Some err) \<Rightarrow> (s', ReplayApplyFailed applied err)
           | (s', None) \<Rightarrow> replay_loop e apply r s' (Suc applied)))"
  by pat_completeness auto
termination
  by (relation "measure (\<lambda>(e, f, bs, s, n). length bs)") (auto dest: Decode_shorter)

declare replay_loop.simps [simp del]

definition Replay ::
  "bool \<Rightarrow> io_err \<Rightarrow> disk \<Rightarrow> string \<Rightarrow> ('s \<Rightarrow> resp \<Rightarrow> 's \<times> string option) \<Rightarrow> 's \<Rightarrow> 's \<times> replay_end" where
  "Replay openable e d path apply s =
     (case read_path d path of
        None \<Rightarrow> (s, Replayed 0)
      | Some bs \<Rightarrow> if \<not> openable then (s, ReplayOpenFailed) else replay_loop e apply bs s 0)"

section \<open>The loop as a client of the codec\<close>

definition never_fails :: "('s \<Rightarrow> resp \<Rightarrow> 's) \<Rightarrow> 's \<Rightarrow> resp \<Rightarrow> 's \<times> string option" where
  "never_fails f s c = (f s c, None)"

definition replay_stop :: "io_err \<Rightarrow> 's \<times> nat \<Rightarrow> 's \<times> replay_end" where
  "replay_stop x p =
     (fst p, if x = EOF \<or> x = UnexpectedEOF then Replayed (snd p) else ReplayFailed (snd p) x)"

interpretation replaying: stream_loop Decode "\<lambda>v. fst (Encode v)" wire_ok
    "\<lambda>bs p. replay_loop e (never_fails f) bs (fst p) (snd p)" e "\<lambda>p c. (f (fst p) c, Suc (snd p))" replay_stop
  for e f
  by unfold_locales (simp_all add: replay_loop.simps replay_stop_def never_fails_def)

lemma foldl_count: "foldl (\<lambda>p c. (f (fst p) c, Suc (snd p))) (s, n) cs = (foldl f s cs, n + length cs)"
  by (induction cs arbitrary: s n) simp_all

lemma replay_all:
  assumes "list_all wire_ok cmds"
  shows "replay_loop EOF (never_fails f) (concat (map wire cmds)) s 0 = (foldl f s cmds, Replayed (length cmds))"
  using replaying.loop_all [OF assms, of EOF f "(s, 0)"] by (simp add: foldl_count replay_stop_def)

text \<open>Any cut of the file: the commands that are whole before the cut are applied, no others.\<close>

text \<open>
  The header of an array cut right behind it swallows the command appended after it: the decoder
  takes that command for the first element and then runs out of input.
\<close>

lemma Decode_header_swallows:
  assumes "wire_ok w" and "2 \<le> n" and "value_size * int n \<le> maxAlloc"
  shows "Decode EOF (''*'' @ Itoa n @ CRLF @ wire w) = Fail UnexpectedEOF"
proof -
  have n: "int n \<le> maxAlloc" "makeslice_ok value_size (int n)" using assms(3) by (simp_all add: makeslice_ok_def)
  have "decodeElems EOF (int n - 1) [] = Fail UnexpectedEOF"
    using assms(2) by (subst decodeElems.simps) (simp add: unexpectEOF_def)
  then have "decodeElems EOF (int n) (wire w) = Fail UnexpectedEOF"
    using assms(2) Decode_Encode(1) [OF assms(1), of EOF "[]"] by (subst decodeElems.simps) simp
  with n readInt_Itoa [OF n(1), of EOF "wire w"] show ?thesis
    by (simp add: Decode.simps decodeArray.simps)
qed

lemma replay_swallows:
  assumes "list_all wire_ok cmds" and "wire_ok w" and "2 \<le> n" and "value_size * int n \<le> maxAlloc"
  shows "replay_loop EOF (never_fails f) (concat (map wire cmds) @ ''*'' @ Itoa n @ CRLF @ wire w) s 0 =
    (foldl f s cmds, Replayed (length cmds))"
  using replaying.loop_frames [OF assms(1), of EOF f "''*'' @ Itoa n @ CRLF @ wire w" "(s, 0)"]
    replaying.loop_stop [OF Decode_header_swallows [OF assms(2-4)], of f "(foldl f s cmds, length cmds)"]
  by (simp add: foldl_count replay_stop_def)

section \<open>Properties\<close>

text \<open>
  C33: The log is reopened without trimming a torn tail. When the tail is the header of the command that
  was being appended, the next command the server appends and acknowledges, durably or not, is
  swallowed by that header: a later replay ends before it and reports no error.
\<close>

theorem torn_tail_swallows_append:
  assumes "list_all wire_ok cmds" and "wire_ok w" and "2 \<le> n" and "value_size * int n \<le> maxAlloc"
    and "disk_ok d" and "read_path d path = Some (concat (map (\<lambda>c. fst (Encode c)) cmds) @ ''*'' @ Itoa n @ CRLF)"
    and "Open os d path mode = (d1, Some a)" and "Append os' d1 a w = (d2, a2, True)"
  shows "Replay True EOF d2 path (never_fails f) s = (foldl f s cmds, Replayed (length cmds))"
proof -
  from Open_ok [OF assms(5,7)] have a: "aof_ok d1 path a"
    and l: "log_bytes d1 a = concat (map wire cmds) @ ''*'' @ Itoa n @ CRLF" by (simp_all add: assms(6))
  from Append_success(1,2) [OF a assms(8)] l
  have "read_path d2 path = Some (concat (map wire cmds) @ ''*'' @ Itoa n @ CRLF @ wire w)"
    by (simp add: aof_ok_def read_path_def log_bytes_def)
  then show ?thesis using replay_swallows [OF assms(1-4), of f s] by (simp add: Replay_def)
qed

theorem torn_tail_swallows_append_witness:
  "(let d = append_bytes (fst (open_append empty_disk ''log'')) 0 (''*3'' @ CRLF);
        oa = Open all_well d ''log'' FsyncAlways; p = Append all_well (fst oa) (the (snd oa)) (IntegerV 7)
    in snd oa \<noteq> None \<and> snd (snd p) \<and> durable_path (fst p) ''log'' = Some (''*3'' @ CRLF @ '':7'' @ CRLF) \<and>
       Replay True EOF (fst p) ''log'' (never_fails (\<lambda>s c. s @ [c])) [] = ([], Replayed 0))"
proof -
  let ?d = "append_bytes (fst (open_append empty_disk ''log'')) 0 (''*3'' @ CRLF)"
  have d: "disk_ok ?d" "read_path ?d ''log'' = Some (''*3'' @ CRLF)"
    by (auto simp: disk_ok_def read_path_def append_bytes_def set_content_def open_append_def empty_disk_def split: if_splits)
  have itoa: "Itoa 3 = ''3''" and w7: "fst (Encode (IntegerV 7)) = '':7'' @ CRLF" by code_simp+
  obtain d1 a where o: "Open all_well ?d ''log'' FsyncAlways = (d1, Some a)" using Open_works [of all_well ?d "''log''" FsyncAlways] by (auto simp: all_well_def)
  note ok = Open_ok [OF d(1) o]
  obtain d2 a2 where p: "Append all_well d1 a (IntegerV 7) = (d2, a2, True)"
    using Append_works [OF ok [THEN conjunct1], of "IntegerV 7" all_well] by (auto simp: in_int64_def all_well_def)
  have r: "read_path ?d ''log'' = Some (concat (map (\<lambda>c. fst (Encode c)) []) @ ''*'' @ Itoa 3 @ CRLF)"
    unfolding d(2) itoa by simp
  have w: "list_all wire_ok []" "wire_ok (IntegerV 7)" "2 \<le> (3::nat)" "value_size * int 3 \<le> maxAlloc"
    by (simp_all add: in_int64_def maxAlloc_def)
  from torn_tail_swallows_append [OF w d(1) r o p, of "\<lambda>s c. s @ [c]" "[]"]
    Append_success [OF ok [THEN conjunct1] p] ok d(2) o p w7
  show ?thesis by (simp add: Let_def)
qed

end
