(* ===== verification/Snapshot_Store.thy ===== *)
theory Snapshot_Store
  imports Store_Keys
begin

text \<open>
  \<open>internal/db/snapshot.go\<close>: the deep copy of the live keyspace that the log rewriter serialises.
  Copies are values here, so \<open>cloneBytes\<close> and \<open>cloneByteSlices\<close> are the identity; the theory \<open>Slices\<close>
  has them on explicit memory.
\<close>

section \<open>Operations\<close>

datatype SnapshotKind = SnapshotString | SnapshotList | SnapshotHash | SnapshotSet

record snapshot_entry =
  sn_Key :: string
  sn_Kind :: SnapshotKind
  sn_Str :: string
  sn_List :: "string list"
  sn_Fields :: "string list"
  sn_Values :: "string list"
  sn_Members :: "string list"
  sn_ExpireAt :: "int option"

text \<open>One entry's copy; \<open>cs\<close> orders the inner \<open>range\<close> over a hash or a set.\<close>

definition snapshotEntry :: "choices \<Rightarrow> string \<Rightarrow> entry \<Rightarrow> snapshot_entry" where
  "snapshotEntry cs key e =
     (let se = \<lparr>sn_Key = key, sn_Kind = SnapshotString, sn_Str = [], sn_List = [], sn_Fields = [],
                sn_Values = [], sn_Members = [], sn_ExpireAt = expireAt e\<rparr>
      in case e_kind e of
           kindString \<Rightarrow> se\<lparr>sn_Kind := SnapshotString, sn_Str := e_str e\<rparr>
         | kindList \<Rightarrow> se\<lparr>sn_Kind := SnapshotList, sn_List := e_list e\<rparr>
         | kindHash \<Rightarrow>
             se\<lparr>sn_Kind := SnapshotHash, sn_Fields := map fst (go_range cs (e_hash e)),
                sn_Values := map snd (go_range cs (e_hash e))\<rparr>
         | kindSet \<Rightarrow> se\<lparr>sn_Kind := SnapshotSet, sn_Members := map fst (go_range cs (e_set e))\<rparr>)"

fun snapshot_shard :: "env \<Rightarrow> int \<Rightarrow> nat \<Rightarrow> nat \<Rightarrow> (string \<times> entry) list \<Rightarrow> snapshot_entry list" where
  "snapshot_shard env now i j [] = []"
| "snapshot_shard env now i j ((key, e) # es) =
     (if expired now e then snapshot_shard env now i (Suc j) es
      else snapshotEntry (iter env [i, j]) key e # snapshot_shard env now i (Suc j) es)"

definition Snapshot :: "env \<Rightarrow> db \<Rightarrow> snapshot_entry list" where
  "Snapshot env d =
     concat (map (\<lambda>i. snapshot_shard env (clock env 0) i 0 (go_range (iter env [i]) (shards d ! i)))
       [0..<length (shards d)])"

section \<open>What a snapshot stands for\<close>

definition snap_obj :: "snapshot_entry \<Rightarrow> obj" where
  "snap_obj se =
     (case sn_Kind se of
        SnapshotString \<Rightarrow> RString (sn_Str se)
      | SnapshotList \<Rightarrow> RList (sn_List se)
      | SnapshotHash \<Rightarrow> RHash (map_of (zip (sn_Fields se) (sn_Values se)))
      | SnapshotSet \<Rightarrow> RSet (set (sn_Members se)))"

definition abs_snap :: "snapshot_entry \<Rightarrow> string \<times> obj \<times> int option" where
  "abs_snap se = (sn_Key se, snap_obj se, sn_ExpireAt se)"

definition snap_ok :: "snapshot_entry \<Rightarrow> bool" where
  "snap_ok se =
     (case sn_Kind se of
        SnapshotString \<Rightarrow> True
      | SnapshotList \<Rightarrow> sn_List se \<noteq> []
      | SnapshotHash \<Rightarrow> distinct (sn_Fields se) \<and> length (sn_Fields se) = length (sn_Values se) \<and>
          sn_Fields se \<noteq> []
      | SnapshotSet \<Rightarrow> distinct (sn_Members se) \<and> sn_Members se \<noteq> [])"

lemma snapshotEntry_key [simp]: "sn_Key (snapshotEntry cs key e) = key"
  by (simp add: snapshotEntry_def Let_def split: kind.split)

lemma snapshotEntry_expire [simp]: "sn_ExpireAt (snapshotEntry cs key e) = expireAt e"
  by (simp add: snapshotEntry_def Let_def split: kind.split)

lemma go_range_nonempty [simp]: "go_range cs xs = [] \<longleftrightarrow> xs = []"
  by (metis length_0_conv length_go_range)

lemma snapshotEntry_ok:
  assumes "entry_ok e"
  shows "snap_ok (snapshotEntry cs key e)" and "snap_obj (snapshotEntry cs key e) = abs_obj e"
  using assms
  by (cases "e_kind e"; simp add: snapshotEntry_def Let_def snap_ok_def snap_obj_def abs_obj_def zip_map_fst_snd)+

lemma abs_snap_entry: "entry_ok e \<Longrightarrow> abs_snap (snapshotEntry cs key e) = (key, abs_entry e)"
  by (simp add: abs_snap_def snapshotEntry_ok abs_entry_def)

lemma snapshot_shard_abs:
  assumes "\<forall>(k, e) \<in> set es. entry_ok e"
  shows "map abs_snap (snapshot_shard env now i j es) =
    map (\<lambda>(k, e). (k, abs_entry e)) (filter (\<lambda>(k, e). \<not> expired now e) es)"
    and "\<forall>se \<in> set (snapshot_shard env now i j es). snap_ok se"
  using assms
  by (induction env now i j es rule: snapshot_shard.induct) (auto simp: abs_snap_entry snapshotEntry_ok)

lemma shard_entries_ok: "shard_ok i sh \<Longrightarrow> \<forall>(k, e) \<in> set (go_range cs sh). entry_ok e \<and> shardIndex k = i"
  by (auto simp: shard_ok_def intro: map_of_is_SomeI)

text \<open>The live entries of one shard, as the snapshot lists them.\<close>

definition live_entries :: "int \<Rightarrow> (string \<times> entry) list \<Rightarrow> (string \<times> obj \<times> int option) list" where
  "live_entries now es = map (\<lambda>(k, e). (k, abs_entry e)) (filter (\<lambda>(k, e). \<not> expired now e) es)"

lemma distinct_live_entries: "gomap_ok es \<Longrightarrow> distinct (map fst (live_entries now es))"
  by (induction es) (force simp: live_entries_def)+

lemma set_live_entries:
  "gomap_ok es \<Longrightarrow> (k, v) \<in> set (live_entries now es) \<longleftrightarrow>
     (\<exists>e. map_of es k = Some e \<and> \<not> expired now e \<and> v = abs_entry e)"
  by (auto simp: live_entries_def map_of_eq_Some_iff)

lemma Snapshot_abs:
  assumes "db_ok d"
  shows "map abs_snap (Snapshot env d) =
    concat (map (\<lambda>i. live_entries (clock env 0) (go_range (iter env [i]) (shards d ! i))) [0..<32])"
    and "\<forall>se \<in> set (Snapshot env d). snap_ok se"
proof -
  have len: "length (shards d) = 32" using assms by (simp add: db_ok_def)
  have ok: "\<forall>(k, e) \<in> set (go_range (iter env [i]) (shards d ! i)). entry_ok e" if "i < 32" for i
    using shard_entries_ok [of i "shards d ! i"] assms that by (fastforce simp: db_ok_def)
  show "map abs_snap (Snapshot env d) =
    concat (map (\<lambda>i. live_entries (clock env 0) (go_range (iter env [i]) (shards d ! i))) [0..<32])"
    unfolding Snapshot_def len map_concat map_map live_entries_def
    by (intro arg_cong [where f = concat] map_cong refl) (use snapshot_shard_abs(1) [OF ok] in simp)
  show "\<forall>se \<in> set (Snapshot env d). snap_ok se"
    using snapshot_shard_abs(2) [OF ok] by (simp add: Snapshot_def len)
qed

lemma Snapshot_live:
  assumes ok: "db_ok d"
  shows "distinct (map sn_Key (Snapshot env d))"
    and "map_of (map abs_snap (Snapshot env d)) = live (clock env 0) (keyspace d)"
proof -
  let ?L = "\<lambda>i. live_entries (clock env 0) (go_range (iter env [i]) (shards d ! i))"
  have sh: "shard_ok i (shards d ! i)" if "i < 32" for i using ok that by (simp add: db_ok_def)
  then have g: "gomap_ok (go_range (iter env [i]) (shards d ! i))"
    and idx: "map_of (shards d ! i) k = Some e \<Longrightarrow> shardIndex k = i" if "i < 32" for i k e
    using that by (simp_all add: shard_ok_def)
  have mem: "(k, v) \<in> set (?L i) \<longleftrightarrow>
      (\<exists>e. map_of (shards d ! i) k = Some e \<and> \<not> expired (clock env 0) e \<and> v = abs_entry e)" if "i < 32" for i k v
    using set_live_entries [OF g [OF that]] g [OF that] by simp
  have keys: "fst ` set (?L i) \<subseteq> {k. shardIndex k = i}" if "i < 32" for i
    using mem [OF that] idx [OF that] by auto
  have "distinct (concat (map (\<lambda>i. map fst (?L i)) [0..<n]))" if "n \<le> 32" for n
    using that
  proof (induction n)
    case (Suc n)
    have "k \<notin> fst ` set (?L i)" if "i < n" "k \<in> fst ` set (?L n)" for i k
      using keys [of n] keys [of i] that Suc.prems by auto
    then have "fst ` set (?L n) \<inter> (\<Union>i<n. fst ` set (?L i)) = {}" by blast
    with Suc distinct_live_entries [OF g [of n]] show ?case
      by (simp add: atLeast0LessThan Int_commute image_UN)
  qed simp
  then have dist: "distinct (map fst (map abs_snap (Snapshot env d)))"
    unfolding Snapshot_abs(1) [OF ok] map_concat map_map comp_def by simp
  then show "distinct (map sn_Key (Snapshot env d))" by (simp add: abs_snap_def comp_def)
  have "(k, v) \<in> set (map abs_snap (Snapshot env d)) \<longleftrightarrow> live (clock env 0) (keyspace d) k = Some v" for k v
  proof -
    have "(k, v) \<in> set (map abs_snap (Snapshot env d)) \<longleftrightarrow> (\<exists>i < 32. (k, v) \<in> set (?L i))"
      unfolding Snapshot_abs(1) [OF ok] by auto
    also have "\<dots> \<longleftrightarrow> (k, v) \<in> set (?L (shardIndex k))"
      using mem idx by (metis shardIndex_less)
    also have "\<dots> \<longleftrightarrow> live (clock env 0) (keyspace d) k = Some v"
      by (auto simp: mem live_keyspace peek_Some shardFor_def)
    finally show ?thesis .
  qed
  then show "map_of (map abs_snap (Snapshot env d)) = live (clock env 0) (keyspace d)"
    using map_of_eq_Some_iff [OF dist] by (metis (no_types) ext not_Some_eq)
qed

end
