(* ===== verification/Rewrite_Log.thy ===== *)
theory Rewrite_Log
  imports Replay_Log Snapshot_Store Command_Spec
begin

text \<open>
  \<open>internal/persistence/rewrite.go\<close>: compaction of the log to the commands that recreate a snapshot,
  written to a sibling file that is then renamed over the log.
\<close>

section \<open>The commands of a snapshot\<close>

definition bulkCmd :: "string \<Rightarrow> string list \<Rightarrow> resp" where
  "bulkCmd name args = ArrayV (Some (BulkString (Some name) # map (\<lambda>a. BulkString (Some a)) args))"

definition prependKey :: "string \<Rightarrow> string list \<Rightarrow> string list" where
  "prependKey key elems = key # elems"

text \<open>The remaining time in milliseconds, at least one.\<close>

definition expireMs :: "int \<Rightarrow> int \<Rightarrow> int" where
  "expireMs now x = (let ms = sat64 (x - now) sdiv Millisecond in if ms < 1 then 1 else ms)"

definition encodeExpire :: "int \<Rightarrow> snapshot_entry \<Rightarrow> string" where
  "encodeExpire now r =
     (case sn_ExpireAt r of
        None \<Rightarrow> []
      | Some x \<Rightarrow> wire (bulkCmd ''PEXPIRE'' [sn_Key r, FormatInt (expireMs now x)]))"

definition encodeRecord :: "int \<Rightarrow> snapshot_entry \<Rightarrow> string" where
  "encodeRecord now r =
     (case sn_Kind r of
        SnapshotString \<Rightarrow> wire (bulkCmd ''SET'' [sn_Key r, sn_Str r]) @ encodeExpire now r
      | SnapshotList \<Rightarrow>
          if sn_List r = [] then []
          else wire (bulkCmd ''RPUSH'' (prependKey (sn_Key r) (sn_List r))) @ encodeExpire now r
      | SnapshotHash \<Rightarrow>
          let args = sn_Key r # concat (map (\<lambda>i. [sn_Fields r ! i, sn_Values r ! i]) [0..<length (sn_Fields r)])
          in if length args = 1 then []
             else wire (bulkCmd ''HSET'' args) @ encodeExpire now r
      | SnapshotSet \<Rightarrow>
          if sn_Members r = [] then []
          else wire (bulkCmd ''SADD'' (prependKey (sn_Key r) (sn_Members r))) @ encodeExpire now r)"

text \<open>\<open>clock env i\<close> is the reading made for record \<open>i\<close>.\<close>

fun writeSnapshot :: "env \<Rightarrow> snapshot_entry list \<Rightarrow> string" where
  "writeSnapshot env [] = []"
| "writeSnapshot env (r # rs) = encodeRecord (clock env 0) r @ writeSnapshot (later env 1) rs"

section \<open>Swapping the log\<close>

record rewrite_outcome =
  r_open :: bool
  r_write :: "nat option"
  r_sync :: bool
  r_close :: bool
  r_remove :: bool
  r_rename :: bool
  r_reopen :: bool
  r_flush :: os_outcome
  r_stat :: bool

definition rewrite_well :: rewrite_outcome where
  "rewrite_well = \<lparr>r_open = True, r_write = None, r_sync = True, r_close = True, r_remove = True,
     r_rename = True, r_reopen = True, r_flush = all_well, r_stat = True\<rparr>"

definition Rewrite ::
  "rewrite_outcome \<Rightarrow> env \<Rightarrow> disk \<Rightarrow> aof \<Rightarrow> string \<Rightarrow> snapshot_entry list \<Rightarrow> disk \<times> aof \<times> bool" where
  "Rewrite os env d a path records =
     (let tmp = path @ ''.tmp'';
          bytes = writeSnapshot env records;
          cleanup = (\<lambda>d. if r_remove os then remove_path d tmp else d)
      in if \<not> r_open os then (d, a, False)
         else case open_trunc d tmp of
           (d1, f) \<Rightarrow>
             (case r_write os of
                Some n \<Rightarrow> (cleanup (append_bytes d1 f (take n bytes)), a, False)
              | None \<Rightarrow>
                  let d2 = append_bytes d1 f bytes
                  in if \<not> r_sync os then (cleanup d2, a, False)
                     else let d3 = sync_file d2 f
                       in if \<not> r_close os then (cleanup d3, a, False)
                          else if \<not> r_rename os then (cleanup d3, a, False)
                          else let d4 = rename_path d3 tmp path
                            in if \<not> r_reopen os then (d4, a, False)
                               else case open_append d4 path of
                                 (d5, nf) \<Rightarrow>
                                   (case w_Flush (r_flush os) d5 a of
                                      (d6, a6, _) \<Rightarrow>
                                        (d6, a6\<lparr>a_file := nf, a_buf := [], a_err := False, a_counting := False,
                                              a_baseSize := (if r_stat os then int (length (f_content (inodes d6 nf)))
                                                             else a_baseSize a)\<rparr>, True))))"

section \<open>The swap\<close>

lemma tmp_inode:
  assumes ok: "disk_ok d" and own: "dir d path = Some i" and o: "open_trunc d (path @ ''.tmp'') = (d1, f)"
  shows "f \<noteq> i"
proof
  note t = open_trunc_spec [OF ok o]
  assume "f = i"
  with own t(2) t(4) [of path] have "dir d1 path = Some f" by simp
  with t(1,2) have "path = path @ ''.tmp''" unfolding disk_ok_def by blast
  then show False by simp
qed

lemma w_Flush_other:
  assumes "w_Flush os d a = (d', a', b)" and "i \<noteq> a_file a"
  shows "inodes d' i = inodes d i \<and> dir d' = dir d \<and> next_inode d' = next_inode d"
  using assms by (auto simp: w_Flush_def emit_def append_bytes_def set_content_def split: if_splits option.splits)

lemma disk_ok_same: "dir d' = dir d \<Longrightarrow> next_inode d' = next_inode d \<Longrightarrow> disk_ok d' = disk_ok d"
  by (simp add: disk_ok_def)

text \<open>A rewrite that reports success has installed exactly the snapshot, on stable storage, and the log goes on from it.\<close>

lemma Rewrite_success:
  assumes ok: "disk_ok d" and own: "dir d path = Some (a_file a)"
    and rw: "Rewrite os env d a path records = (d', a', True)"
  shows "aof_ok d' path a' \<and> read_path d' path = Some (writeSnapshot env records) \<and>
    durable_path d' path = Some (writeSnapshot env records) \<and> a_mode a' = a_mode a"
proof -
  let ?bs = "writeSnapshot env records"
  obtain d1 f where o: "open_trunc d (path @ ''.tmp'') = (d1, f)" by fastforce
  note t = open_trunc_spec [OF ok o]
  define d3 where "d3 = sync_file (append_bytes d1 f ?bs) f"
  define d4 where "d4 = rename_path d3 (path @ ''.tmp'') path"
  have d4: "dir d4 path = Some f" "disk_ok d4" "f_content (inodes d4 f) = ?bs" "f_durable (inodes d4 f) = ?bs"
    subgoal using t by (simp add: d4_def d3_def rename_path_def)
    subgoal using t by (simp add: d4_def d3_def disk_ok_ops)
    subgoal using t by (simp add: d4_def d3_def rename_path_def)
    subgoal using t by (simp add: d4_def d3_def rename_path_def)
    done
  have nf: "open_append d4 path = (d4, f)" using d4 by (simp add: open_append_def)
  note ne = tmp_inode [OF ok own o]
  obtain a6 b where fl: "w_Flush (r_flush os) d4 a = (d', a6, b)"
    and a': "a' = a6\<lparr>a_file := f, a_buf := [], a_err := False, a_counting := False,
        a_baseSize := (if r_stat os then int (length (f_content (inodes d' f))) else a_baseSize a)\<rparr>"
    using rw o nf by (auto simp: Rewrite_def Let_def d3_def [symmetric] d4_def [symmetric] split: if_splits option.splits prod.splits)
  have mode: "a_mode a6 = a_mode a" using fl by (auto simp: w_Flush_def emit_def split: if_splits option.splits)
  from w_Flush_other [OF fl ne] d4 disk_ok_same [of d' d4] show ?thesis
    by (simp add: a' mode aof_ok_def read_path_def durable_path_def)
qed

text \<open>A rewrite that fails before the rename leaves the log as it was.\<close>

lemma Rewrite_failure:
  assumes ok: "disk_ok d" and own: "dir d path = Some (a_file a)"
    and rw: "Rewrite os env d a path records = (d', a', False)" and re: "r_reopen os \<or> \<not> r_rename os"
  shows "a' = a \<and> dir d' path = dir d path \<and> read_path d' path = read_path d path \<and>
    durable_path d' path = durable_path d path \<and> disk_ok d'"
proof -
  obtain d1 f where o: "open_trunc d (path @ ''.tmp'') = (d1, f)" by fastforce
  note t = open_trunc_spec [OF ok o]
  note ne = tmp_inode [OF ok own o]
  have "a_file a < next_inode d" using ok own by (simp add: disk_ok_def)
  with t(5) ne have same: "inodes d1 (a_file a) = inodes d (a_file a)" by simp
  have "a' = a \<and> (d' = d \<or> dir d' path = dir d1 path \<and>
      f_content (inodes d' (a_file a)) = f_content (inodes d1 (a_file a)) \<and>
      f_durable (inodes d' (a_file a)) = f_durable (inodes d1 (a_file a)))"
    using rw re o ne
    by (auto simp: Rewrite_def Let_def remove_path_def split: if_splits option.splits prod.splits)
  moreover have "disk_ok d'"
    using rw re o ok t(1)
    by (auto simp: Rewrite_def Let_def disk_ok_ops split: if_splits option.splits prod.splits)
  ultimately show ?thesis using own same t(4) [of path] by (auto simp: read_path_def durable_path_def)
qed

text \<open>
  A rewrite whose reopen fails has already replaced the log, but the handle still points at the
  old file: later appends succeed and never reach the log.
\<close>

lemma Rewrite_reopen_failure:
  assumes ok: "disk_ok d" and own: "dir d path = Some (a_file a)" and "r_open os" "r_write os = None"
    "r_sync os" "r_close os" "r_rename os" "\<not> r_reopen os"
    and rw: "Rewrite os env d a path records = (d', a', r)"
  shows "\<not> r \<and> a' = a \<and> read_path d' path = Some (writeSnapshot env records) \<and> dir d' path \<noteq> Some (a_file a')"
proof -
  obtain d1 f where o: "open_trunc d (path @ ''.tmp'') = (d1, f)" by fastforce
  note t = open_trunc_spec [OF ok o]
  from assms(3-) o tmp_inode [OF ok own o] t show ?thesis
    by (auto simp: Rewrite_def Let_def rename_path_def read_path_def)
qed

lemma Append_elsewhere:
  assumes "dir d path \<noteq> Some (a_file a)" and "Append os d a cmd = (d', a', r)"
  shows "read_path d' path = read_path d path \<and> dir d' path = dir d path \<and> a_file a' = a_file a"
proof -
  obtain bs b where e: "Encode cmd = (bs, b)" by fastforce
  have "a_file a' = a_file a \<and> (\<exists>x. d' = d \<or> d' = append_bytes d (a_file a) x \<or> d' = sync_file d (a_file a) \<or>
      d' = sync_file (append_bytes d (a_file a) x) (a_file a))"
    using assms(2) e
    by (auto simp: Append_def w_Flush_def emit_def fsync_def Let_def split: if_splits option.splits bool.splits)
  with assms(1) show ?thesis by (cases "dir d path") (auto simp: read_path_def)
qed

section \<open>Replaying a snapshot\<close>

definition valueCmd :: "snapshot_entry \<Rightarrow> resp" where
  "valueCmd r =
     (case sn_Kind r of
        SnapshotString \<Rightarrow> bulkCmd ''SET'' [sn_Key r, sn_Str r]
      | SnapshotList \<Rightarrow> bulkCmd ''RPUSH'' (sn_Key r # sn_List r)
      | SnapshotHash \<Rightarrow>
          bulkCmd ''HSET'' (sn_Key r # concat (map (\<lambda>(f, v). [f, v]) (zip (sn_Fields r) (sn_Values r))))
      | SnapshotSet \<Rightarrow> bulkCmd ''SADD'' (sn_Key r # sn_Members r))"

definition expireCmds :: "int \<Rightarrow> snapshot_entry \<Rightarrow> resp list" where
  "expireCmds now r =
     (case sn_ExpireAt r of
        None \<Rightarrow> [] | Some x \<Rightarrow> [bulkCmd ''PEXPIRE'' [sn_Key r, FormatInt (expireMs now x)]])"

definition recordCmds :: "int \<Rightarrow> snapshot_entry \<Rightarrow> resp list" where
  "recordCmds now r = valueCmd r # expireCmds now r"

fun snapshotCmds :: "env \<Rightarrow> snapshot_entry list \<Rightarrow> resp list" where
  "snapshotCmds env [] = []"
| "snapshotCmds env (r # rs) = recordCmds (clock env 0) r @ snapshotCmds (later env 1) rs"

lemma encodeRecord_cmds:
  assumes "snap_ok r"
  shows "encodeRecord now r = concat (map wire (recordCmds now r))"
proof -
  have exp: "encodeExpire now r = concat (map wire (expireCmds now r))"
    by (simp add: encodeExpire_def expireCmds_def split: option.splits)
  show ?thesis
  proof (cases "sn_Kind r")
    case SnapshotHash
    with assms have len: "length (sn_Fields r) = length (sn_Values r)" "sn_Fields r \<noteq> []" by (simp_all add: snap_ok_def)
    have "concat (map (\<lambda>i. [sn_Fields r ! i, sn_Values r ! i]) [0..<length (sn_Fields r)]) =
        concat (map (\<lambda>(f, v). [f, v]) (zip (sn_Fields r) (sn_Values r)))"
      using interleave_zip [OF len(1), of id] by simp
    moreover have "concat (map (\<lambda>(f, v). [f, v]) (zip (sn_Fields r) (sn_Values r))) \<noteq> []"
      using len by (cases "sn_Fields r"; cases "sn_Values r") auto
    ultimately show ?thesis
      using SnapshotHash exp by (simp add: encodeRecord_def recordCmds_def valueCmd_def Let_def del: concat_eq_Nil_conv)
  qed (use assms exp in \<open>simp_all add: encodeRecord_def recordCmds_def valueCmd_def prependKey_def snap_ok_def\<close>)
qed

lemma writeSnapshot_cmds:
  "\<forall>r \<in> set rs. snap_ok r \<Longrightarrow> writeSnapshot env rs = concat (map wire (snapshotCmds env rs))"
  by (induction env rs rule: snapshotCmds.induct) (simp_all add: encodeRecord_cmds)

lemma write_name_upper: "name \<in> set writeCommands \<Longrightarrow> ToUpper u name = name"
  by (auto simp: writeCommands_def ToUpper_def ascii_def upper_char_def)

lemma Dispatch_bulkCmd:
  assumes "db_ok d" and "name \<in> set writeCommands"
    and "parse_write name (map (\<lambda>a. BulkString (Some a)) args) = Some w"
  shows "db_ok (fst (Dispatch u env d (bulkCmd name args)))"
    and "keyspace (fst (Dispatch u env d (bulkCmd name args))) = fst (exec (clock env) w (keyspace d))"
    and "snd (Dispatch u env d (bulkCmd name args)) = snd (exec (clock env) w (keyspace d))"
proof -
  have n: "req_name u (bulkCmd name args) = name" "well_formed (bulkCmd name args)"
    "req_args (bulkCmd name args) = map (\<lambda>a. BulkString (Some a)) args"
    using write_name_upper [OF assms(2)]
    by (simp_all add: req_name_def req_args_def well_formed_def bulkCmd_def val_defs)
  from Dispatch_write [OF assms(1) n(2), of u env, unfolded n(1,3)] assms
  have "db_ok (fst (Dispatch u env d (bulkCmd name args))) \<and>
      (keyspace (fst (Dispatch u env d (bulkCmd name args))), snd (Dispatch u env d (bulkCmd name args))) =
        exec (clock env) w (keyspace d)" by simp
  then show "db_ok (fst (Dispatch u env d (bulkCmd name args)))"
    "keyspace (fst (Dispatch u env d (bulkCmd name args))) = fst (exec (clock env) w (keyspace d))"
    "snd (Dispatch u env d (bulkCmd name args)) = snd (exec (clock env) w (keyspace d))"
    by (auto simp: prod_eq_iff)
qed

text \<open>The state while commands of a log are dispatched: command \<open>i\<close> sees the readings \<open>envs i\<close>.\<close>

definition replay_step :: "unicode \<Rightarrow> (nat \<Rightarrow> env) \<Rightarrow> db \<times> nat \<Rightarrow> resp \<Rightarrow> db \<times> nat" where
  "replay_step u envs s c = (fst (Dispatch u (envs (snd s)) (fst s) c), Suc (snd s))"

lemma pair_args_interleaved:
  "pair_args (map (\<lambda>a. BulkString (Some a)) (concat (map (\<lambda>(f, v). [f, v]) ps))) = ps"
  by (induction ps) (auto simp: val_defs)

lemma length_interleaved: "length (concat (map (\<lambda>(f, v). [f, v]) ps)) = 2 * length ps"
  by (induction ps) auto

lemma map_of_rev_distinct: "gomap_ok ps \<Longrightarrow> map_of (rev ps) = map_of ps"
  by (metis distinct_rev map_of_inject_set rev_map set_rev)

lemma bulk_str_bulk [simp]: "bulk_str (BulkString (Some a)) = a"
  by (simp add: val_defs)

lemma map_bulk_str [simp]: "map (bulk_str \<circ> (\<lambda>a. BulkString (Some a))) xs = xs"
  by (induction xs) simp_all

lemma valueCmd_restores:
  assumes d: "db_ok d" and r: "snap_ok r" and new: "keyspace d (sn_Key r) = None"
  shows "db_ok (fst (Dispatch u env d (valueCmd r))) \<and>
    keyspace (fst (Dispatch u env d (valueCmd r))) = (keyspace d)(sn_Key r \<mapsto> (snap_obj r, None))"
proof -
  have absent: "live t (keyspace d) (sn_Key r) = None" for t by (simp add: live_def new)
  have names: "''SET'' \<in> set writeCommands" "''RPUSH'' \<in> set writeCommands" "''HSET'' \<in> set writeCommands"
    "''SADD'' \<in> set writeCommands" by (simp_all add: writeCommands_def)
  show ?thesis
  proof (cases "sn_Kind r")
    case SnapshotString
    have "parse_write ''SET'' (map (\<lambda>a. BulkString (Some a)) [sn_Key r, sn_Str r]) = Some (WSet (sn_Key r) (sn_Str r))"
      by (simp add: parse_other)
    from Dispatch_bulkCmd [OF d names(1) this, of u env] SnapshotString show ?thesis
      by (simp add: valueCmd_def snap_obj_def)
  next
    case SnapshotList
    with r have ne: "sn_List r \<noteq> []" by (simp add: snap_ok_def)
    then have "parse_write ''RPUSH'' (map (\<lambda>a. BulkString (Some a)) (sn_Key r # sn_List r)) =
        Some (WPush False (sn_Key r) (sn_List r))" by (cases "sn_List r") (simp_all add: parse_push)
    from Dispatch_bulkCmd [OF d names(2) this, of u env] SnapshotList show ?thesis
      by (simp add: valueCmd_def snap_obj_def spec_push_def absent)
  next
    case SnapshotHash
    let ?ps = "zip (sn_Fields r) (sn_Values r)"
    let ?as = "concat (map (\<lambda>(f, v). [f, v]) ?ps)"
    from SnapshotHash r have len: "length (sn_Fields r) = length (sn_Values r)" "distinct (sn_Fields r)" "sn_Fields r \<noteq> []"
      by (simp_all add: snap_ok_def)
    have "parse_write ''HSET'' (map (\<lambda>a. BulkString (Some a)) (sn_Key r # ?as)) = Some (WHSet (sn_Key r) ?ps)"
      using len length_interleaved [of ?ps] pair_args_interleaved [of ?ps]
      by (cases "sn_Fields r") (auto simp: parse_other simp del: length_concat)
    from Dispatch_bulkCmd [OF d names(3) this, of u env] SnapshotHash len map_of_rev_distinct [of ?ps] show ?thesis
      by (simp add: valueCmd_def snap_obj_def spec_hset_def absent)
  next
    case SnapshotSet
    with r have ne: "sn_Members r \<noteq> []" by (simp add: snap_ok_def)
    then have "parse_write ''SADD'' (map (\<lambda>a. BulkString (Some a)) (sn_Key r # sn_Members r)) =
        Some (WSAdd (sn_Key r) (sn_Members r))" by (cases "sn_Members r") (simp_all add: parse_push)
    from Dispatch_bulkCmd [OF d names(4) this, of u env] SnapshotSet show ?thesis
      by (simp add: valueCmd_def snap_obj_def spec_sadd_def absent)
  qed
qed

lemma expireMs_bounds: "1 \<le> expireMs now x" "expireMs now x \<le> 9223372036854"
proof -
  let ?y = "sat64 (x - now)"
  show "1 \<le> expireMs now x" by (simp add: expireMs_def Let_def)
  have "?y sdiv 1000000 \<le> 9223372036854"
  proof (cases "0 \<le> ?y")
    case True
    have "?y \<le> 9223372036854775807" by (simp add: sat64_def)
    then have "?y div 1000000 \<le> 9223372036854775807 div 1000000" by (rule zdiv_mono1) simp
    then have "?y div 1000000 \<le> 9223372036854" by simp
    with True show ?thesis by (cases "?y = 0") (simp_all add: signed_divide_int_def)
  next
    case False
    then have "?y sdiv 1000000 = - ((- ?y) div 1000000)" by (simp add: signed_divide_int_def)
    also have "\<dots> \<le> 0" using False by (simp add: pos_imp_zdiv_nonneg_iff)
    finally show ?thesis by simp
  qed
  then show "expireMs now x \<le> 9223372036854" by (simp add: expireMs_def Let_def)
qed

lemma expireMs_exact:
  assumes "now \<le> x" and "in_int64 (x - now)"
  shows "expireMs now x = max 1 ((x - now) div 1000000)"
proof -
  have "(x - now) sdiv 1000000 = (x - now) div 1000000"
    using assms(1) by (cases "x = now") (simp_all add: signed_divide_int_def)
  with assms(2) show ?thesis by (simp add: expireMs_def Let_def max_def)
qed

text \<open>What replaying the commands of the records recreates: the values, with their time left counted from the replay.\<close>

fun restored :: "(nat \<Rightarrow> env) \<Rightarrow> nat \<Rightarrow> env \<Rightarrow> snapshot_entry list \<Rightarrow> (string \<times> obj \<times> int option) list" where
  "restored envs i env [] = []"
| "restored envs i env (r # rs) =
     (sn_Key r, snap_obj r,
      map_option (\<lambda>x. clock (envs (Suc i)) 1 + Millisecond * expireMs (clock env 0) x) (sn_ExpireAt r)) #
     restored envs (i + length (recordCmds (clock env 0) r)) (later env 1) rs"

lemma expireCmds_restores:
  assumes d: "db_ok d" and k: "keyspace d (sn_Key r) = Some (v, None)"
  shows "foldl (replay_step u envs) (d, i) (expireCmds now r) =
      (fst (foldl (replay_step u envs) (d, i) (expireCmds now r)), i + length (expireCmds now r)) \<and>
    db_ok (fst (foldl (replay_step u envs) (d, i) (expireCmds now r))) \<and>
    keyspace (fst (foldl (replay_step u envs) (d, i) (expireCmds now r))) =
      (keyspace d)(sn_Key r \<mapsto> (v, map_option (\<lambda>x. clock (envs i) 1 + Millisecond * expireMs now x) (sn_ExpireAt r)))"
proof (cases "sn_ExpireAt r")
  case None
  with d k show ?thesis by (simp add: expireCmds_def fun_upd_idem)
next
  case (Some x)
  let ?ms = "expireMs now x"
  have b: "in_int64 ?ms" "in_int64 (?ms * Millisecond)" "0 < ?ms * Millisecond"
    using expireMs_bounds [of now x] by (simp_all add: in_int64_def)
  have n: "''PEXPIRE'' \<in> set writeCommands" by (simp add: writeCommands_def)
  have "parse_write ''PEXPIRE'' (map (\<lambda>a. BulkString (Some a)) [sn_Key r, FormatInt ?ms]) =
      Some (WExpire (sn_Key r) (?ms * Millisecond))"
    using b by (simp add: parse_expire ParseInt_FormatInt)
  note disp = Dispatch_bulkCmd [OF d n this, of u "envs i"]
  have "live t (keyspace d) (sn_Key r) = Some (v, None)" for t using k by (simp add: live_def dead_def)
  with disp b Some show ?thesis
    by (simp add: expireCmds_def replay_step_def spec_expire_def mult.commute)
qed

lemma replay_record:
  fixes u envs i now
  assumes "db_ok d" and "snap_ok r" and "keyspace d (sn_Key r) = None"
  defines "s \<equiv> foldl (replay_step u envs) (d, i) (recordCmds now r)"
  shows "db_ok (fst s)" and "snd s = i + length (recordCmds now r)"
    and "keyspace (fst s) = (keyspace d)(sn_Key r \<mapsto>
      (snap_obj r, map_option (\<lambda>x. clock (envs (Suc i)) 1 + Millisecond * expireMs now x) (sn_ExpireAt r)))"
proof -
  note v = valueCmd_restores [OF assms(1-3), of u "envs i"]
  let ?d = "fst (Dispatch u (envs i) d (valueCmd r))"
  have s: "s = foldl (replay_step u envs) (?d, Suc i) (expireCmds now r)"
    by (simp add: s_def recordCmds_def replay_step_def)
  have "keyspace ?d (sn_Key r) = Some (snap_obj r, None)" using v by simp
  from expireCmds_restores [OF conjunct1 [OF v] this, of u envs "Suc i" now, folded s] v
  show "db_ok (fst s)" "snd s = i + length (recordCmds now r)"
    "keyspace (fst s) = (keyspace d)(sn_Key r \<mapsto>
      (snap_obj r, map_option (\<lambda>x. clock (envs (Suc i)) 1 + Millisecond * expireMs now x) (sn_ExpireAt r)))"
    by (auto simp: recordCmds_def prod_eq_iff)
qed

lemma map_add_upd_absent: "m k = None \<Longrightarrow> K(k \<mapsto> v) ++ m = K ++ m(k \<mapsto> v)"
  by (auto simp: map_add_def fun_eq_iff split: option.split)

lemma restored_keys: "map fst (restored envs i env rs) = map sn_Key rs"
  by (induction rs arbitrary: i env) simp_all

lemma replay_snapshotCmds:
  assumes "db_ok d" and "\<forall>r \<in> set rs. snap_ok r" and "distinct (map sn_Key rs)"
    and "\<forall>r \<in> set rs. keyspace d (sn_Key r) = None"
  shows "db_ok (fst (foldl (replay_step u envs) (d, i) (snapshotCmds env rs))) \<and>
    keyspace (fst (foldl (replay_step u envs) (d, i) (snapshotCmds env rs))) =
      keyspace d ++ map_of (restored envs i env rs)"
  using assms
proof (induction rs arbitrary: d i env)
  case Nil
  then show ?case by simp
next
  case (Cons r rs)
  let ?now = "clock env 0"
  let ?v = "(snap_obj r, map_option (\<lambda>x. clock (envs (Suc i)) 1 + Millisecond * expireMs ?now x) (sn_ExpireAt r))"
  let ?R = "restored envs (i + length (recordCmds ?now r)) (later env 1) rs"
  obtain d1 j where s1: "foldl (replay_step u envs) (d, i) (recordCmds ?now r) = (d1, j)" by fastforce
  from Cons.prems have r: "snap_ok r" "keyspace d (sn_Key r) = None" by simp_all
  note rec = replay_record [OF Cons.prems(1) r, of u envs i ?now, unfolded s1, simplified]
  have "\<forall>r' \<in> set rs. keyspace d1 (sn_Key r') = None" using Cons.prems(3,4) rec(3)
    by (auto simp: rev_image_eqI)
  with Cons.prems(2,3) rec(1) Cons.IH [of d1 j "later env 1"]
  have ih: "db_ok (fst (foldl (replay_step u envs) (d1, j) (snapshotCmds (later env 1) rs)))"
    "keyspace (fst (foldl (replay_step u envs) (d1, j) (snapshotCmds (later env 1) rs))) = keyspace d1 ++ map_of ?R"
    using rec(2) by simp_all
  have "sn_Key r \<notin> fst ` set ?R" using Cons.prems(3) restored_keys [of envs _ _ rs] by (metis distinct.simps(2) list.map(2) set_map)
  then have "map_of ?R (sn_Key r) = None" by (simp add: map_of_eq_None_iff)
  then have add: "(keyspace d)(sn_Key r \<mapsto> ?v) ++ map_of ?R = keyspace d ++ (map_of ?R)(sn_Key r \<mapsto> ?v)"
    by (rule map_add_upd_absent)
  have fold: "foldl (replay_step u envs) (d, i) (snapshotCmds env (r # rs)) =
      foldl (replay_step u envs) (d1, j) (snapshotCmds (later env 1) rs)" by (simp add: s1)
  have R: "map_of (restored envs i env (r # rs)) = (map_of ?R)(sn_Key r \<mapsto> ?v)" by simp
  have d1: "keyspace d1 = (keyspace d)(sn_Key r \<mapsto> ?v)" by (simp only: rec(3) One_nat_def)
  show ?case unfolding fold R add [symmetric] d1 [symmetric] using ih by blast
qed

lemma restored_lookup:
  "(case map_of (map abs_snap rs) k of
      None \<Rightarrow> map_of (restored envs i env rs) k = None
    | Some (v, x) \<Rightarrow> \<exists>m n. map_of (restored envs i env rs) k =
        Some (v, map_option (\<lambda>x. clock (envs m) 1 + Millisecond * expireMs (clock env n) x) x))"
proof (induction rs arbitrary: i env)
  case (Cons r rs)
  show ?case
  proof (cases "sn_Key r = k")
    case True
    then show ?thesis by (auto simp: abs_snap_def)
  next
    case False
    with Cons [of "i + length (recordCmds (clock env 0) r)" "later env 1"] show ?thesis
      by (auto simp: abs_snap_def split: option.splits)
  qed
qed simp

text \<open>
  Replaying a rewritten log into an empty store: exactly the keys that were alive at the snapshot,
  with their values; a deadline becomes the replay's reading of the clock plus the time that was left.
\<close>

lemma replay_rewritten:
  assumes ok: "db_ok d" and sizes: "list_all wire_ok (snapshotCmds wenv (Snapshot env d))"
  shows "\<exists>d' n. replay_loop EOF (never_fails (replay_step u envs)) (writeSnapshot wenv (Snapshot env d)) (db_New, 0) 0 =
      (d', Replayed n) \<and> db_ok (fst d') \<and>
    (\<forall>k. case live (clock env 0) (keyspace d) k of
        None \<Rightarrow> keyspace (fst d') k = None
      | Some (v, x) \<Rightarrow> \<exists>m j. keyspace (fst d') k =
          Some (v, map_option (\<lambda>x. clock (envs m) 1 + Millisecond * expireMs (clock wenv j) x) x))"
proof -
  let ?rs = "Snapshot env d"
  let ?d = "foldl (replay_step u envs) (db_New, 0) (snapshotCmds wenv ?rs)"
  have snap: "\<forall>r \<in> set ?rs. snap_ok r" "distinct (map sn_Key ?rs)"
    using Snapshot_abs(2) [OF ok] Snapshot_live(1) [OF ok] by blast+
  have "\<forall>r \<in> set ?rs. keyspace db_New (sn_Key r) = None" by (simp add: keyspace_New)
  from replay_snapshotCmds [OF db_ok_New snap this, of u envs 0 wenv] have
    k: "db_ok (fst ?d)" "keyspace (fst ?d) = map_of (restored envs 0 wenv ?rs)" by (simp_all add: keyspace_New)
  have "replay_loop EOF (never_fails (replay_step u envs)) (writeSnapshot wenv ?rs) (db_New, 0) 0 =
      (?d, Replayed (length (snapshotCmds wenv ?rs)))"
    unfolding writeSnapshot_cmds [OF snap(1)] by (rule replay_all [OF sizes])
  moreover have "\<forall>k. case live (clock env 0) (keyspace d) k of
        None \<Rightarrow> keyspace (fst ?d) k = None
      | Some (v, x) \<Rightarrow> \<exists>m j. keyspace (fst ?d) k =
          Some (v, map_option (\<lambda>x. clock (envs m) 1 + Millisecond * expireMs (clock wenv j) x) x)"
    unfolding k(2) Snapshot_live(2) [OF ok, of env, symmetric] by (intro allI restored_lookup)
  ultimately show ?thesis using k(1) by blast
qed

section \<open>Properties\<close>

lemma Rewrite_outcome:
  "\<exists>d' a'. Rewrite rewrite_well env d a path records = (d', a', True)"
  "\<exists>d' a'. Rewrite (rewrite_well\<lparr>r_rename := False\<rparr>) env d a path records = (d', a', False)"
  by (auto simp: Rewrite_def rewrite_well_def Let_def split: prod.splits)

text \<open>
  C17: Compaction is atomic on disk. A rewrite that succeeds leaves at the path exactly the encoded
  snapshot, on stable storage, with the log in good order; one that fails at any step before the
  reopening of the new file leaves the log, its handle and what is durable of it as they were.
\<close>

theorem Rewrite_atomic:
  assumes "disk_ok d" and "dir d path = Some (a_file a)" and "Rewrite os env d a path records = (d', a', r)"
    and "r_reopen os \<or> \<not> r_rename os"
  shows "if r
    then aof_ok d' path a' \<and> read_path d' path = Some (writeSnapshot env records) \<and>
      durable_path d' path = Some (writeSnapshot env records) \<and> a_mode a' = a_mode a
    else a' = a \<and> disk_ok d' \<and> dir d' path = dir d path \<and> read_path d' path = read_path d path \<and>
      durable_path d' path = durable_path d path"
  using Rewrite_success [OF assms(1,2), of os env records d' a'] Rewrite_failure [OF assms(1,2), of os env records d' a'] assms(3,4)
  by (cases r) auto

theorem Rewrite_atomic_witness:
  "(let d = fst (Open all_well empty_disk ''log'' FsyncNo); a = the (snd (Open all_well empty_disk ''log'' FsyncNo));
        se = \<lparr>sn_Key = ''k'', sn_Kind = SnapshotString, sn_Str = ''v'', sn_List = [], sn_Fields = [], sn_Values = [], sn_Members = [],
              sn_ExpireAt = None\<rparr>;
        good = Rewrite rewrite_well (at_time 0) d a ''log'' [se];
        bad = Rewrite (rewrite_well\<lparr>r_rename := False\<rparr>) (at_time 0) d a ''log'' [se]
    in snd (snd good) \<and> durable_path (fst good) ''log'' = Some (writeSnapshot (at_time 0) [se]) \<and>
       \<not> snd (snd bad) \<and> read_path (fst bad) ''log'' = Some [])"
proof -
  let ?d = "fst (Open all_well empty_disk ''log'' FsyncNo)" and ?a = "the (snd (Open all_well empty_disk ''log'' FsyncNo))"
  let ?se = "\<lparr>sn_Key = ''k'', sn_Kind = SnapshotString, sn_Str = ''v'', sn_List = [], sn_Fields = [], sn_Values = [],
    sn_Members = [], sn_ExpireAt = None\<rparr>"
  let ?bad = "rewrite_well\<lparr>r_rename := False\<rparr>"
  note l = fresh_log [of "''log''" FsyncNo]
  from l(1) have ok: "disk_ok ?d" "dir ?d ''log'' = Some (a_file ?a)" by (simp_all add: aof_ok_def)
  obtain d1 a1 where g: "Rewrite rewrite_well (at_time 0) ?d ?a ''log'' [?se] = (d1, a1, True)"
    using Rewrite_outcome(1) by blast
  obtain d2 a2 where b: "Rewrite ?bad (at_time 0) ?d ?a ''log'' [?se] = (d2, a2, False)"
    using Rewrite_outcome(2) by blast
  have "read_path ?d ''log'' = Some []" using l(1,2) by (simp add: aof_ok_def read_path_def log_bytes_def)
  with Rewrite_atomic [OF ok g] Rewrite_atomic [OF ok b] g b show ?thesis by (simp add: Let_def rewrite_well_def)
qed



text \<open>
  C16: A compacted log rebuilds the store: replaying it into an empty store gives exactly the keys that
  were live when the snapshot started, with their values; a deadline becomes the replay's clock
  reading plus the time that was left when the record was written, between 1 ms and the largest
  representable time and cut to whole milliseconds.
\<close>

theorem compacted_log_rebuilds:
  assumes "db_ok d" and "list_all wire_ok (snapshotCmds wenv (Snapshot env d))"
  shows "\<exists>d' n. replay_loop EOF (never_fails (replay_step u envs)) (writeSnapshot wenv (Snapshot env d)) (db_New, 0) 0 =
      (d', Replayed n) \<and> db_ok (fst d') \<and>
    (\<forall>k. case live (clock env 0) (keyspace d) k of
        None \<Rightarrow> keyspace (fst d') k = None
      | Some (v, x) \<Rightarrow> \<exists>m j. keyspace (fst d') k =
          Some (v, map_option (\<lambda>x. clock (envs m) 1 + Millisecond * expireMs (clock wenv j) x) x)) \<and>
    (\<forall>now x. 1 \<le> expireMs now x \<and> expireMs now x \<le> 9223372036854 \<and>
      (now \<le> x \<longrightarrow> in_int64 (x - now) \<longrightarrow> expireMs now x = max 1 ((x - now) div 1000000)))"
  using replay_rewritten [OF assms, of u envs] expireMs_bounds expireMs_exact by blast

theorem compacted_log_rebuilds_witness:
  "(let d = fst (db_Expire (at_time 0) (db_Set db_New ''k'' ''v'') ''k'' 5)
    in db_ok d \<and> list_all wire_ok (snapshotCmds (at_time 3) (Snapshot (at_time 3) d)) \<and>
       (\<exists>d' n. replay_loop EOF (never_fails (replay_step \<lparr>upper_table = id, lower_table = id\<rparr> (\<lambda>_. at_time 10)))
          (writeSnapshot (at_time 3) (Snapshot (at_time 3) d)) (db_New, 0) 0 = (d', Replayed n) \<and>
          keyspace (fst d') ''k'' = Some (RString ''v'', Some 1000010)))"
proof -
  let ?d = "fst (db_Expire (at_time 0) (db_Set db_New ''k'' ''v'') ''k'' 5)"
  let ?u = "\<lparr>upper_table = id, lower_table = id\<rparr>"
  note k = expiring_key [of "''k''" "''v''"]
  have w: "list_all wire_ok (snapshotCmds (at_time 3) (Snapshot (at_time 3) ?d))" by code_simp
  have "live 3 (keyspace ?d) ''k'' = Some (RString ''v'', Some 5)" by (simp add: k(2) live_def dead_def)
  moreover have "expireMs 3 5 = 1" by (simp add: expireMs_exact in_int64_def)
  ultimately show ?thesis
    using compacted_log_rebuilds [OF k(1) w, of ?u "\<lambda>_. at_time 10"] k(1) w
    by (fastforce dest: spec [of _ "''k''"])
qed

end
