(* ===== verification/Replication.thy ===== *)
theory Replication
  imports Mailbox Resp_Codec
begin

text \<open>
  Both ends of replication: the primary's registry of feeds (\<open>internal/replication/primary.go\<close>) and
  the replica's session with its primary (\<open>internal/replication/replica.go\<close>).
\<close>

section \<open>The primary's registry\<close>

abbreviation replicaQueueCap :: nat where "replicaQueueCap \<equiv> 256"

record replica =
  rep_addr :: string
  rep_lastAck :: int

text \<open>
  A \<open>*Replica\<close> is its id; its queue lives in the heap \<open>queues\<close> beyond its removal from the registry,
  as the pointer of the connection does. A send on or a close of a closed queue is \<open>rep_crashed\<close>.
\<close>

record replicas =
  reps :: "(nat, replica) gomap"
  queues :: "string heap"
  rep_next :: nat
  rep_crashed :: bool

definition NewReplicas :: replicas where
  "NewReplicas = \<lparr>reps = [], queues = Map.empty, rep_next = 0, rep_crashed = False\<rparr>"

definition Add :: "int \<Rightarrow> replicas \<Rightarrow> string \<Rightarrow> replicas \<times> nat" where
  "Add now r addr =
     (r\<lparr>reps := AList.update (rep_next r) \<lparr>rep_addr = addr, rep_lastAck = now\<rparr> (reps r),
        queues := (queues r)(rep_next r \<mapsto> make_chan), rep_next := Suc (rep_next r)\<rparr>,
      rep_next r)"

definition Remove :: "replicas \<Rightarrow> nat \<Rightarrow> replicas" where
  "Remove r rep =
     (let r' = r\<lparr>reps := AList.delete rep (reps r)\<rparr>
      in case queues r rep of
           None \<Rightarrow> r'\<lparr>rep_crashed := True\<rparr>
         | Some ch \<Rightarrow>
             if closed ch then r'\<lparr>rep_crashed := True\<rparr>
             else r'\<lparr>queues := (queues r)(rep \<mapsto> close_chan ch)\<rparr>)"

definition Any :: "replicas \<Rightarrow> bool" where
  "Any r \<longleftrightarrow> length (reps r) > 0"

text \<open>\<open>cs\<close> orders the iteration over the registry.\<close>

definition Propagate :: "choices \<Rightarrow> replicas \<Rightarrow> resp \<Rightarrow> replicas" where
  "Propagate cs r cmd =
     (case Encode cmd of
        (_, False) \<Rightarrow> r
      | (frame, True) \<Rightarrow>
          (case fan_out replicaQueueCap frame (map fst (go_range cs (reps r))) (queues r) of
             (h, _, pan) \<Rightarrow> r\<lparr>queues := h, rep_crashed := rep_crashed r \<or> pan\<rparr>))"

definition Acked :: "int \<Rightarrow> replicas \<Rightarrow> nat \<Rightarrow> replicas" where
  "Acked now r rep =
     (case map_of (reps r) rep of
        None \<Rightarrow> r
      | Some p \<Rightarrow> r\<lparr>reps := AList.update rep (p\<lparr>rep_lastAck := now\<rparr>) (reps r)\<rparr>)"

text \<open>\<open>time.Time.Sub\<close> saturates.\<close>

definition sinceAck :: "int \<Rightarrow> replica \<Rightarrow> int" where
  "sinceAck now rep = sat64 (now - rep_lastAck rep)"

definition pingCommand :: resp where
  "pingCommand = ArrayV (Some [BulkString (Some ''PING'')])"

definition StaleReplicas :: "choices \<Rightarrow> int \<Rightarrow> replicas \<Rightarrow> int \<Rightarrow> string list" where
  "StaleReplicas cs now r staleAfter =
     map (\<lambda>(i, rep). rep_addr rep) (filter (\<lambda>(i, rep). sinceAck now rep > staleAfter) (go_range cs (reps r)))"

text \<open>The registry after a heartbeat and the addresses it warns about.\<close>

definition Heartbeat :: "choices \<Rightarrow> choices \<Rightarrow> int \<Rightarrow> replicas \<Rightarrow> int \<Rightarrow> replicas \<times> string list" where
  "Heartbeat cs cs' now r staleAfter =
     (let r' = Propagate cs r pingCommand in (r', StaleReplicas cs' now r' staleAfter))"

text \<open>Lag per address, in nanoseconds; of two feeds with one address the later visited is kept.\<close>

definition LagSeconds :: "choices \<Rightarrow> int \<Rightarrow> replicas \<Rightarrow> (string, int) gomap" where
  "LagSeconds cs now r =
     fold (\<lambda>(i, rep) out. AList.update (rep_addr rep) (sinceAck now rep) out) (go_range cs (reps r)) []"

section \<open>Registry invariant\<close>

definition feeds :: "replicas \<Rightarrow> nat set" where
  "feeds r = fst ` set (reps r)"

definition replicas_ok :: "replicas \<Rightarrow> bool" where
  "replicas_ok r \<longleftrightarrow> gomap_ok (reps r) \<and> all_open (queues r) (feeds r) \<and>
     heap_bounded replicaQueueCap (queues r) \<and> (\<forall>i \<in> dom (queues r). i < rep_next r) \<and> \<not> rep_crashed r"

lemma replicas_ok_New: "replicas_ok NewReplicas"
  by (simp add: replicas_ok_def NewReplicas_def feeds_def all_open_def heap_bounded_def)

lemma feed_open: "replicas_ok r \<Longrightarrow> i \<in> feeds r \<Longrightarrow> \<exists>ch. queues r i = Some ch \<and> \<not> closed ch \<and> i < rep_next r"
  by (force simp: replicas_ok_def all_open_def)

lemma replicas_ok_Add:
  assumes ok: "replicas_ok r" and add: "Add now r addr = (r', i)"
  shows "replicas_ok r'" and "feeds r' = insert i (feeds r)" and "i \<notin> feeds r" and "queues r' i = Some make_chan"
proof -
  from add have i: "i = rep_next r" and r': "r' = r\<lparr>reps := AList.update i \<lparr>rep_addr = addr, rep_lastAck = now\<rparr> (reps r),
      queues := (queues r)(i \<mapsto> make_chan), rep_next := Suc i\<rparr>" by (auto simp: Add_def)
  show f: "feeds r' = insert i (feeds r)" by (simp add: feeds_def r' fst_set_update)
  show new: "i \<notin> feeds r" using feed_open [OF ok, of i] i by auto
  show "queues r' i = Some make_chan" by (simp add: r')
  have "all_open (queues r') (feeds r')"
    unfolding f all_open_def using feed_open [OF ok] i by (fastforce simp: r' make_chan_def)
  with ok i show "replicas_ok r'"
    by (auto simp: r' replicas_ok_def heap_bounded_def make_chan_def less_SucI)
qed

lemma replicas_ok_Remove:
  assumes ok: "replicas_ok r" and i: "i \<in> feeds r"
  shows "replicas_ok (Remove r i)" and "feeds (Remove r i) = feeds r - {i}"
proof -
  obtain ch where ch: "queues r i = Some ch" "\<not> closed ch" using feed_open [OF ok i] by blast
  then have eq: "Remove r i = r\<lparr>reps := AList.delete i (reps r), queues := (queues r)(i \<mapsto> close_chan ch)\<rparr>"
    by (simp add: Remove_def Let_def)
  show f: "feeds (Remove r i) = feeds r - {i}" by (simp add: feeds_def eq fst_set_delete)
  have "all_open (queues (Remove r i)) (feeds (Remove r i))"
    unfolding f all_open_def using feed_open [OF ok] by (fastforce simp: eq)
  with ok ch show "replicas_ok (Remove r i)"
    by (auto simp: eq replicas_ok_def heap_bounded_def close_chan_def)
qed

lemma replicas_ok_Acked: "replicas_ok r \<Longrightarrow> replicas_ok (Acked now r i) \<and> feeds (Acked now r i) = feeds r"
proof -
  assume ok: "replicas_ok r"
  have "fst ` set (AList.update i p (reps r)) = fst ` set (reps r)" if "map_of (reps r) i = Some q" for p q
    using that domI [of "map_of (reps r)" i q] by (simp add: fst_set_update insert_absorb dom_map_of_conv_image_fst)
  with ok show ?thesis by (auto simp: Acked_def replicas_ok_def feeds_def split: option.splits)
qed

text \<open>
  Every registered feed with room gets the frame behind what it already holds, a full one keeps
  what it has, and no other queue changes.
\<close>

lemma Propagate_spec:
  assumes ok: "replicas_ok r" and e: "Encode cmd = (frame, True)"
  shows "replicas_ok (Propagate cs r cmd)" and "reps (Propagate cs r cmd) = reps r"
    and "queues (Propagate cs r cmd) i =
      (if i \<in> feeds r \<and> has_room replicaQueueCap (queues r) i
       then map_option (\<lambda>ch. ch\<lparr>buffer := buffer ch @ [frame]\<rparr>) (queues r i) else queues r i)"
proof -
  let ?rs = "map fst (go_range cs (reps r))"
  obtain h n pan where f: "fan_out replicaQueueCap frame ?rs (queues r) = (h, n, pan)" by (metis prod_cases3)
  have p: "Propagate cs r cmd = r\<lparr>queues := h, rep_crashed := rep_crashed r \<or> pan\<rparr>"
    by (simp add: Propagate_def e f)
  have rs: "set ?rs = feeds r" "distinct ?rs" using ok by (simp_all add: feeds_def replicas_ok_def)
  from ok have "all_open (queues r) (set ?rs)" unfolding rs by (simp add: replicas_ok_def)
  note spec = fan_out_spec [OF this rs(2) f, unfolded rs(1)]
  show "reps (Propagate cs r cmd) = reps r" by (simp add: p)
  show q: "queues (Propagate cs r cmd) i =
      (if i \<in> feeds r \<and> has_room replicaQueueCap (queues r) i
       then map_option (\<lambda>ch. ch\<lparr>buffer := buffer ch @ [frame]\<rparr>) (queues r i) else queues r i)" for i
    using spec by (simp add: p)
  have "all_open (queues (Propagate cs r cmd)) (feeds r)"
    unfolding all_open_def using feed_open [OF ok] q by fastforce
  with ok spec fan_out_bounded [OF f] fan_out_dom [OF f] show "replicas_ok (Propagate cs r cmd)"
    by (simp add: p replicas_ok_def feeds_def)
qed

lemma replicas_ok_Propagate: "replicas_ok r \<Longrightarrow> replicas_ok (Propagate cs r cmd)"
proof (cases "Encode cmd")
  case (Pair frame b)
  assume "replicas_ok r"
  with Pair Propagate_spec(1) [of r cmd frame] show ?thesis by (cases b) (simp_all add: Propagate_def)
qed

lemma Heartbeat_ok:
  assumes "replicas_ok r" and "Heartbeat cs cs' now r staleAfter = (r', warned)"
  shows "replicas_ok r'" and "reps r' = reps r"
    and "addr \<in> set warned \<longleftrightarrow> (\<exists>i rep. (i, rep) \<in> set (reps r) \<and> rep_addr rep = addr \<and> staleAfter < sinceAck now rep)"
proof -
  have enc: "snd (Encode pingCommand)" by (simp add: pingCommand_def)
  then obtain frame where e: "Encode pingCommand = (frame, True)" by (metis prod.collapse)
  from assms(2) have r': "r' = Propagate cs r pingCommand" "warned = StaleReplicas cs' now r' staleAfter"
    by (auto simp: Heartbeat_def Let_def)
  show "replicas_ok r'" "reps r' = reps r" using Propagate_spec(1,2) [OF assms(1) e] by (simp_all add: r')
  then show "addr \<in> set warned \<longleftrightarrow> (\<exists>i rep. (i, rep) \<in> set (reps r) \<and> rep_addr rep = addr \<and> staleAfter < sinceAck now rep)"
    by (force simp: r'(2) StaleReplicas_def)
qed

section \<open>The replica's session\<close>

definition isHeartbeat :: "resp \<Rightarrow> bool" where
  "isHeartbeat v \<longleftrightarrow> is_array v \<and> length (val_Array v) > 0 \<and> EqualFold (bulk_str (val_Array v ! 0)) ''PING''"

definition replconfAck :: resp where
  "replconfAck = ArrayV (Some [BulkString (Some ''REPLCONF''), BulkString (Some ''ACK''), BulkString (Some ''0'')])"

definition replicaofCommand :: resp where
  "replicaofCommand = ArrayV (Some [BulkString (Some ''REPLICAOF'')])"

datatype session_end =
    DialFailed
  | HandshakeSendFailed
  | HandshakeReadFailed io_err
  | HandshakeRefused resp
  | StreamEnded io_err
  | AckFailed
  | SessionPanic

text \<open>
  The streaming loop: \<open>acked n\<close> tells whether writing the \<open>n\<close>-th acknowledgement succeeds. The loop
  returns the state, how many acknowledgements it has sent and why it ended.
\<close>

function replica_loop ::
  "io_err \<Rightarrow> (nat \<Rightarrow> bool) \<Rightarrow> ('s \<Rightarrow> resp \<Rightarrow> 's) \<Rightarrow> string \<Rightarrow> 's \<Rightarrow> nat \<Rightarrow> 's \<times> nat \<times> session_end" where
  "replica_loop e acked apply bs s n =
     (case Decode e bs of
        Fail x \<Rightarrow> (s, n, StreamEnded x)
      | Panic \<Rightarrow> (s, n, SessionPanic)
      | Ret cmd r \<Rightarrow>
          if isHeartbeat cmd
          then if acked n then replica_loop e acked apply r s (Suc n) else (s, n, AckFailed)
          else replica_loop e acked apply r (apply s cmd) n)"
  by pat_completeness auto
termination
  by (relation "measure (\<lambda>(e, k, f, bs, s, n). length bs)") (auto dest: Decode_shorter)

declare replica_loop.simps [simp del]

record session =
  ses_dial :: bool
  ses_send :: bool
  ses_input :: string
  ses_end :: io_err
  ses_acked :: "nat \<Rightarrow> bool"

text \<open>A session returns the state, the frames it has sent to the primary and why it ended.\<close>

definition streamOnce :: "session \<Rightarrow> ('s \<Rightarrow> resp \<Rightarrow> 's) \<Rightarrow> 's \<Rightarrow> 's \<times> resp list \<times> session_end" where
  "streamOnce ses apply s =
     (if \<not> ses_dial ses then (s, [], DialFailed)
      else if \<not> ses_send ses then (s, [], HandshakeSendFailed)
      else case Decode (ses_end ses) (ses_input ses) of
             Fail x \<Rightarrow> (s, [replicaofCommand], HandshakeReadFailed x)
           | Panic \<Rightarrow> (s, [replicaofCommand], SessionPanic)
           | Ret ack r \<Rightarrow>
               (case ack of
                  SimpleString _ \<Rightarrow>
                    (case replica_loop (ses_end ses) (ses_acked ses) apply r s 0 of
                       (s', n, w) \<Rightarrow> (s', replicaofCommand # replicate n replconfAck, w))
                | _ \<Rightarrow> (s, [replicaofCommand], HandshakeRefused ack)))"

text \<open>The sessions that take place before the context is cancelled; a panic ends the process.\<close>

fun RunReplica :: "session list \<Rightarrow> ('s \<Rightarrow> resp \<Rightarrow> 's) \<Rightarrow> 's \<Rightarrow> 's option" where
  "RunReplica [] apply s = Some s"
| "RunReplica (ses # sess) apply s =
     (case streamOnce ses apply s of
        (s', _, SessionPanic) \<Rightarrow> None
      | (s', _, _) \<Rightarrow> RunReplica sess apply s')"

definition replica_step :: "('s \<Rightarrow> resp \<Rightarrow> 's) \<Rightarrow> 's \<times> nat \<Rightarrow> resp \<Rightarrow> 's \<times> nat" where
  "replica_step apply p v = (if isHeartbeat v then (fst p, Suc (snd p)) else (apply (fst p) v, snd p))"

interpretation streaming: stream_loop Decode "\<lambda>v. fst (Encode v)" wire_ok
    "\<lambda>bs p. replica_loop e (\<lambda>_. True) f bs (fst p) (snd p)" e "replica_step f"
    "\<lambda>x p. (fst p, snd p, StreamEnded x)" for e f
proof
  show "replica_loop e (\<lambda>_. True) f bs (fst s) (snd s) =
      replica_loop e (\<lambda>_. True) f r (fst (replica_step f s v)) (snd (replica_step f s v))"
    if "Decode e bs = Ret v r" for bs v r s
    using that by (subst replica_loop.simps) (simp add: replica_step_def)
  show "replica_loop e (\<lambda>_. True) f bs (fst s) (snd s) = (fst s, snd s, StreamEnded x)"
    if "Decode e bs = Fail x" for bs x s
    using that by (subst replica_loop.simps) simp
qed

lemma foldl_replica_step:
  "foldl (replica_step f) (s, n) vs =
     (foldl f s (filter (\<lambda>v. \<not> isHeartbeat v) vs), n + length (filter isHeartbeat vs))"
  by (induction vs arbitrary: s n) (simp_all add: replica_step_def)

text \<open>
  A session that ends between or inside frames has applied exactly the whole write frames it was
  sent, in order, and answered every heartbeat among them.
\<close>

lemma replica_loop_torn:
  assumes "list_all wire_ok (vs @ [v])" and "wire v = p @ q" and "q \<noteq> []"
  shows "replica_loop e (\<lambda>_. True) f (concat (map wire vs) @ p) s 0 =
    (foldl f s (filter (\<lambda>v. \<not> isHeartbeat v) vs), length (filter isHeartbeat vs),
     StreamEnded (if p = [] then e else unexpectEOF e))"
  using streaming.loop_torn [OF assms, of e f "(s, 0)"] by (simp add: foldl_replica_step split: if_splits)

lemma streamOnce_torn:
  assumes "list_all wire_ok (vs @ [v])" and "wire v = p @ q" and "q \<noteq> []" and "LF \<notin> set ok"
  shows "streamOnce \<lparr>ses_dial = True, ses_send = True, ses_input = wire (SimpleString ok) @ concat (map wire vs) @ p,
      ses_end = e, ses_acked = (\<lambda>_. True)\<rparr> f s =
    (foldl f s (filter (\<lambda>v. \<not> isHeartbeat v) vs), replicaofCommand # replicate (length (filter isHeartbeat vs)) replconfAck,
     StreamEnded (if p = [] then e else unexpectEOF e))"
  using Decode_Encode(1) [of "SimpleString ok" e "concat (map wire vs) @ p"] replica_loop_torn [OF assms(1-3), of e f s] assms(4)
  by (simp add: streamOnce_def)

text \<open>
  A replica that reconnects after every break has applied the whole write frames of all its sessions, one
  session after the other; what the primary wrote between two sessions is not among them.
\<close>

lemma RunReplica_sessions:
  assumes "\<forall>(vs, v, p, q, e) \<in> set L. list_all wire_ok (vs @ [v]) \<and> wire v = p @ q \<and> q \<noteq> []"
  shows "RunReplica (map (\<lambda>(vs, v, p, q, e). \<lparr>ses_dial = True, ses_send = True,
      ses_input = wire (SimpleString ''OK'') @ concat (map wire vs) @ p, ses_end = e, ses_acked = (\<lambda>_. True)\<rparr>) L) f s =
    Some (foldl f s (concat (map (\<lambda>(vs, _). filter (\<lambda>v. \<not> isHeartbeat v) vs) L)))"
  using assms
proof (induction L arbitrary: s)
  case (Cons x L)
  obtain vs v p q e where x: "x = (vs, v, p, q, e)" by (metis prod_cases5)
  with Cons.prems streamOnce_torn [of vs v p q "''OK''" e f s] Cons.IH show ?case by simp
qed simp

end
