(* ===== verification/Active_Expiry.thy ===== *)
theory Active_Expiry
  imports Store_Keys
begin

text \<open>
  The background reaper of \<open>internal/db/expiry.go\<close>: the sampling pass over the shards, the loop that
  repeats it while passes stay hot, and the ticker loop around it.
\<close>

section \<open>One pass\<close>

abbreviation activeExpirySample :: nat where "activeExpirySample \<equiv> 20"

text \<open>
  The \<open>range\<close> loop over one shard. \<open>es\<close> are the entries still to visit, in the order of the
  iteration; deleting the entry being visited does not disturb the others.
\<close>

fun sample_shard :: "int \<Rightarrow> (string \<times> entry) list \<Rightarrow> shard \<Rightarrow> nat \<Rightarrow> nat \<Rightarrow> shard \<times> nat \<times> nat" where
  "sample_shard now [] sh sampled exp = (sh, sampled, exp)"
| "sample_shard now ((key, e) # es) sh sampled exp =
     (if expireAt e = None then sample_shard now es sh sampled exp
      else
        let sampled' = Suc sampled;
            sh' = (if expired now e then AList.delete key sh else sh);
            exp' = (if expired now e then Suc exp else exp)
        in if activeExpirySample \<le> sampled' then (sh', sampled', exp')
           else sample_shard now es sh' sampled' exp')"

text \<open>The loop over the shards from a random start, while the sample budget lasts.\<close>

fun sample_shards ::
  "env \<Rightarrow> int \<Rightarrow> nat \<Rightarrow> nat list \<Rightarrow> db \<Rightarrow> nat \<Rightarrow> nat \<Rightarrow> db \<times> nat \<times> nat" where
  "sample_shards env now start [] d sampled exp = (d, sampled, exp)"
| "sample_shards env now start (i # is) d sampled exp =
     (if sampled < activeExpirySample
      then let j = (start + i) mod shardCount
           in case sample_shard now (go_range (iter env [i]) (shards d ! j)) (shards d ! j) sampled exp of
                (sh, sampled', exp') \<Rightarrow>
                  sample_shards env now start is (d\<lparr>shards := (shards d)[j := sh]\<rparr>) sampled' exp'
      else (d, sampled, exp))"

text \<open>
  \<open>float64(expired)/float64(sampled) > 0.25\<close> is \<open>sampled < 4 * expired\<close>: the quotient of two
  integers of at most 20 never rounds onto or across 1/4.
\<close>

definition activeExpiryPass :: "env \<Rightarrow> nat \<Rightarrow> db \<Rightarrow> db \<times> bool" where
  "activeExpiryPass env start d =
     (case sample_shards env (clock env 0) start [0..<shardCount] d 0 0 of
        (d', sampled, exp) \<Rightarrow> (d', 0 < sampled \<and> sampled < 4 * exp))"

section \<open>The loops\<close>

text \<open>
  The draining loop of one tick: pass number \<open>n\<close> sees the readings and the random start \<open>world n\<close>.
  Nothing bounds it by construction, so not returning is \<open>None\<close>.
\<close>

partial_function (option) drain :: "(nat \<Rightarrow> env \<times> nat) \<Rightarrow> nat \<Rightarrow> db \<Rightarrow> (db \<times> nat) option" where
  "drain world n d =
     (case activeExpiryPass (fst (world n)) (snd (world n)) d of
        (d', hot) \<Rightarrow> if hot then drain world (Suc n) d' else Some (d', Suc n))"

text \<open>The ticks that arrive before the context is cancelled.\<close>

fun RunActiveExpiry :: "(nat \<Rightarrow> env \<times> nat) list \<Rightarrow> db \<Rightarrow> db option" where
  "RunActiveExpiry [] d = Some d"
| "RunActiveExpiry (world # ticks) d =
     (case drain world 0 d of None \<Rightarrow> None | Some (d', _) \<Rightarrow> RunActiveExpiry ticks d')"

section \<open>Correctness of one shard's sample\<close>

definition dead_keys :: "int \<Rightarrow> (string \<times> entry) list \<Rightarrow> string set" where
  "dead_keys now es = fst ` set (filter (\<lambda>(k, e). expired now e) es)"

lemma dead_keys_Nil [simp]: "dead_keys now [] = {}"
  by (simp add: dead_keys_def)

lemma dead_keys_Cons [simp]:
  "dead_keys now ((k, e) # es) = (if expired now e then {k} else {}) \<union> dead_keys now es"
  by (simp add: dead_keys_def)

lemma dead_keys_subset: "dead_keys now es \<subseteq> fst ` set es"
  by (auto simp: dead_keys_def)

lemma dead_keys_go_range [simp]: "dead_keys now (go_range cs es) = dead_keys now es"
  by (auto simp: dead_keys_def)

lemma dead_keys_iff: "gomap_ok sh \<Longrightarrow> k \<in> dead_keys now sh \<longleftrightarrow> (\<exists>e. map_of sh k = Some e \<and> expired now e)"
  by (force simp: dead_keys_def map_of_eq_Some_iff)

lemma sample_shard_spec:
  assumes "sample_shard now es sh s x = (sh', s', x')" and "s < 20" and "gomap_ok sh" and "gomap_ok es"
    and "set es \<subseteq> set sh"
  obtains D where "D \<subseteq> dead_keys now es" and "gomap_ok sh'"
    and "map_of sh' = map_of sh |` (- D)" and "s \<le> s'" and "s' \<le> 20" and "x' = x + card D"
    and "length sh = length sh' + card D" and "card D \<le> s' - s"
    and "s' < 20 \<Longrightarrow> D = dead_keys now es"
  using assms
proof (induction es arbitrary: sh s x thesis)
  case Nil
  from Nil.prems(1) [of "{}"] Nil.prems(2-) show ?case by (simp add: restrict_map_def)
next
  case (Cons ke es)
  obtain k e where ke: "ke = (k, e)" by fastforce
  show ?case
  proof (cases "expireAt e")
    case None
    then have "\<not> expired now e" by (simp add: expired_def)
    then have "dead_keys now (ke # es) = dead_keys now es" by (simp add: ke)
    with None Cons.prems Cons.IH [of sh s x thesis] show ?thesis by (simp add: ke)
  next
    case (Some dl)
    define sh1 where "sh1 = (if expired now e then AList.delete k sh else sh)"
    define x1 where "x1 = (if expired now e then Suc x else x)"
    define D1 where "D1 = (if expired now e then {k} else {})"
    have ksh: "k \<in> fst ` set sh" using Cons.prems(6) by (force simp: ke)
    have sh1: "gomap_ok sh1" "map_of sh1 = map_of sh |` (- D1)" "x1 = x + card D1"
      "length sh = length sh1 + card D1" "card D1 \<le> 1"
      using Cons.prems(4) ksh
      by (auto simp: sh1_def x1_def D1_def restrict_map_def fun_eq_iff length_gomap_delete)
    have k: "k \<notin> fst ` set es" using Cons.prems(5) by (simp add: ke)
    then have es: "set es \<subseteq> set sh1"
      using Cons.prems(6) by (auto simp: sh1_def ke AList.delete_eq rev_image_eqI)
    have D: "dead_keys now (ke # es) = D1 \<union> dead_keys now es"
      by (simp add: ke D1_def)
    have step: "(if 20 \<le> Suc s then (sh1, Suc s, x1) else sample_shard now es sh1 (Suc s) x1) = (sh', s', x')"
      using Cons.prems(2) Some by (cases "expired now e"; cases "19 \<le> s") (simp_all add: ke sh1_def x1_def Let_def)
    show ?thesis
    proof (cases "20 \<le> Suc s")
      case True
      with step sh1 D Cons.prems(3) Cons.prems(1) [of D1] show ?thesis by simp
    next
      case False
      with step have rec: "sample_shard now es sh1 (Suc s) x1 = (sh', s', x')" by simp
      show ?thesis
      proof (rule Cons.IH [OF _ rec])
        fix D2
        assume D2: "D2 \<subseteq> dead_keys now es" "gomap_ok sh'"
          "map_of sh' = map_of sh1 |` (- D2)" "Suc s \<le> s'" "s' \<le> 20" "x' = x1 + card D2"
          "length sh1 = length sh' + card D2" "card D2 \<le> s' - Suc s"
          "s' < 20 \<Longrightarrow> D2 = dead_keys now es"
        have fin: "finite D1" "finite D2" "D1 \<inter> D2 = {}"
          using D2(1) k dead_keys_subset [of now es] finite_subset [of D2 "fst ` set es"]
          by (auto simp: D1_def)
        show thesis
          by (rule Cons.prems(1) [of "D1 \<union> D2"])
            (use D D2 sh1 fin in \<open>auto simp: card_Un_disjoint Int_commute\<close>)
      qed (use False sh1 es Cons.prems in \<open>auto simp: ke\<close>)
    qed
  qed
qed

section \<open>Correctness of a pass\<close>

definition dead_in :: "int \<Rightarrow> keyspace \<Rightarrow> string set" where
  "dead_in t K = {k. \<exists>v. K k = Some v \<and> dead t v}"

lemma dead_in_restrict: "dead_in t (K |` (- D)) = dead_in t K - D"
  by (auto simp: dead_in_def restrict_map_def)

lemma live_restrict_dead: "D \<subseteq> dead_in t K \<Longrightarrow> t \<le> t' \<Longrightarrow> live t' (K |` (- D)) = live t' K"
  by (force simp: live_def dead_in_def dead_def restrict_map_def fun_eq_iff split: option.splits)

lemma keyspace_shard:
  "keyspace d k = map_option abs_entry (map_of (shards d ! shardIndex k) k)"
  by (simp add: keyspace_def shardFor_def)

lemma dead_in_keyspace:
  "k \<in> dead_in t (keyspace d) \<longleftrightarrow> (\<exists>e. map_of (shards d ! shardIndex k) k = Some e \<and> expired t e)"
proof (cases "map_of (shards d ! shardIndex k) k")
  case (Some e)
  then have "keyspace d k = Some (abs_entry e)" by (simp add: keyspace_shard)
  with Some show ?thesis by (simp add: dead_in_def del: split_paired_Ex)
qed (simp add: dead_in_def keyspace_shard)

lemma dead_keys_dead_in:
  assumes "db_ok d" and "j < 32"
  shows "dead_keys now (shards d ! j) = {k \<in> dead_in now (keyspace d). shardIndex k = j}"
proof -
  have ok: "shard_ok j (shards d ! j)" using assms by (simp add: db_ok_def)
  then have g: "gomap_ok (shards d ! j)" by (simp add: shard_ok_def)
  from ok have idx: "map_of (shards d ! j) k = Some e \<Longrightarrow> shardIndex k = j" for k e
    by (simp add: shard_ok_def)
  have "k \<in> dead_keys now (shards d ! j) \<longleftrightarrow> k \<in> dead_in now (keyspace d) \<and> shardIndex k = j" for k
  proof (cases "shardIndex k = j")
    case True
    then show ?thesis unfolding dead_keys_iff [OF g] by (simp add: dead_in_keyspace)
  next
    case False
    with idx [of k] show ?thesis unfolding dead_keys_iff [OF g] by blast
  qed
  then show ?thesis by blast
qed

lemma remove_from_shard:
  assumes ok: "db_ok d" and j: "j < 32" and sh: "gomap_ok sh" "map_of sh = map_of (shards d ! j) |` (- D)"
    and D: "D \<subseteq> {k. shardIndex k = j}"
  shows "db_ok (d\<lparr>shards := (shards d)[j := sh]\<rparr>)"
    and "keyspace (d\<lparr>shards := (shards d)[j := sh]\<rparr>) = keyspace d |` (- D)"
proof -
  have "shard_ok j (shards d ! j)" using ok j by (simp add: db_ok_def)
  then have "shard_ok j sh" using sh by (simp add: shard_ok_def restrict_map_def)
  with ok j show "db_ok (d\<lparr>shards := (shards d)[j := sh]\<rparr>)"
    by (auto simp: db_ok_def nth_list_update)
  have len: "length (shards d) = 32" using ok by (simp add: db_ok_def)
  show "keyspace (d\<lparr>shards := (shards d)[j := sh]\<rparr>) = keyspace d |` (- D)"
  proof
    fix k
    show "keyspace (d\<lparr>shards := (shards d)[j := sh]\<rparr>) k = (keyspace d |` (- D)) k"
      using sh(2) D len j by (cases "shardIndex k = j") (auto simp: keyspace_shard restrict_map_def)
  qed
qed

lemma KeyCount_update:
  assumes "j < length (shards d)" and "length (shards d ! j) = length sh + n"
  shows "KeyCount d = KeyCount (d\<lparr>shards := (shards d)[j := sh]\<rparr>) + n"
proof -
  have "length (shards d ! j) \<le> sum_list (map length (shards d))"
    using assms(1) by (intro member_le_sum_list) auto
  with assms show ?thesis
    by (simp add: KeyCount_def map_update sum_list_update)
qed

lemma sample_shards_spec:
  assumes "sample_shards env now start is d s x = (d', s', x')" and "db_ok d" and "s \<le> 20"
  obtains D where "finite D" and "D \<subseteq> dead_in now (keyspace d)" and "db_ok d'"
    and "keyspace d' = keyspace d |` (- D)" and "s \<le> s'" and "s' \<le> 20" and "x' = x + card D"
    and "KeyCount d = KeyCount d' + card D" and "card D \<le> s' - s" and "pubsub d' = pubsub d"
    and "s' < 20 \<Longrightarrow>
      {k \<in> dead_in now (keyspace d). shardIndex k \<in> (\<lambda>i. (start + i) mod 32) ` set is} \<subseteq> D"
  using assms
proof (induction "is" arbitrary: d s x thesis)
  case Nil
  from Nil.prems(1) [of "{}"] Nil.prems(2-) show ?case by (simp add: restrict_map_def)
next
  case (Cons i "is")
  show ?case
  proof (cases "s < 20")
    case False
    with Cons.prems(1) [of "{}"] Cons.prems(2-) show ?thesis by (simp add: restrict_map_def)
  next
    case True
    define j where "j = (start + i) mod 32"
    have j: "j < 32" by (simp add: j_def)
    let ?sh = "shards d ! j"
    obtain sh1 s1 x1 where l: "sample_shard now (go_range (iter env [i]) ?sh) ?sh s x = (sh1, s1, x1)"
      by (metis prod_cases3)
    define d1 where "d1 = d\<lparr>shards := (shards d)[j := sh1]\<rparr>"
    have rec: "sample_shards env now start is d1 s1 x1 = (d', s', x')"
      using Cons.prems(2) True l by (simp add: d1_def j_def [symmetric] Let_def)
    have g: "gomap_ok ?sh" using Cons.prems(3) j by (simp add: db_ok_def shard_ok_def)
    obtain D1 where D1: "D1 \<subseteq> dead_keys now ?sh" "gomap_ok sh1" "map_of sh1 = map_of ?sh |` (- D1)"
      "s \<le> s1" "s1 \<le> 20" "x1 = x + card D1" "length ?sh = length sh1 + card D1" "card D1 \<le> s1 - s"
      "s1 < 20 \<Longrightarrow> D1 = dead_keys now ?sh"
      using sample_shard_spec [OF l True g] g by (metis dead_keys_go_range distinct_map_go_range order_refl set_go_range)
    note dk = dead_keys_dead_in [OF Cons.prems(3) j, of now]
    have fin1: "finite D1" using D1(1) dead_keys_subset [of now ?sh] finite_subset [of D1 "fst ` set ?sh"] by simp
    have d1: "db_ok d1" "keyspace d1 = keyspace d |` (- D1)" "KeyCount d = KeyCount d1 + card D1"
      using remove_from_shard [OF Cons.prems(3) j D1(2,3)] KeyCount_update [of j d sh1 "card D1"]
        D1(1,7) dk j Cons.prems(3) by (auto simp: d1_def db_ok_def [of d])
    show ?thesis
    proof (rule Cons.IH [OF _ rec d1(1) D1(5)])
      fix D2
      assume D2: "finite D2" "D2 \<subseteq> dead_in now (keyspace d1)" "db_ok d'"
        "keyspace d' = keyspace d1 |` (- D2)" "s1 \<le> s'" "s' \<le> 20" "x' = x1 + card D2"
        "KeyCount d1 = KeyCount d' + card D2" "card D2 \<le> s' - s1" "pubsub d' = pubsub d1"
        "s' < 20 \<Longrightarrow>
          {k \<in> dead_in now (keyspace d1). shardIndex k \<in> (\<lambda>i. (start + i) mod 32) ` set is} \<subseteq> D2"
      have in_d: "dead_in now (keyspace d1) = dead_in now (keyspace d) - D1"
        by (simp add: d1(2) dead_in_restrict)
      then have disj: "card (D1 \<union> D2) = card D1 + card D2"
        using D2(1,2) fin1 by (intro card_Un_disjoint) auto
      have all: "{k \<in> dead_in now (keyspace d). shardIndex k \<in> (\<lambda>i. (start + i) mod 32) ` set (i # is)} \<subseteq> D1 \<union> D2"
        if "s' < 20"
        using that D2(5) D1(9) D2(11) [OF that] in_d dk by (auto simp: j_def)
      have sub: "D1 \<union> D2 \<subseteq> dead_in now (keyspace d)" using D1(1) D2(2) in_d dk by blast
      have ks: "keyspace d' = keyspace d |` (- (D1 \<union> D2))"
        by (simp add: D2(4) d1(2))
      have ps: "pubsub d' = pubsub d" by (simp add: D2(10) d1_def)
      show thesis
        using Cons.prems(1) [OF _ sub D2(3) ks _ D2(6) _ _ _ ps all] D1(4,6,8) D2(1,5,7-9) d1(3) fin1 disj
        by simp
    qed
  qed
qed

lemma all_shards_visited: "(\<lambda>i. (start + i) mod 32) ` set [0..<32] = {..<32::nat}"
proof -
  have "j \<in> (\<lambda>i. (start + i) mod 32) ` {0..<32}" if "j < 32" for j :: nat
  proof (rule image_eqI)
    show "(j + (32 - start mod 32)) mod 32 \<in> {0..<32}" by simp
    define q r where "q = start div 32" and "r = start mod 32"
    have "start = 32 * q + r" "r < 32" by (simp_all add: q_def r_def)
    then have "start + (j + (32 - r)) = j + 32 * Suc q" by simp
    then have "start + (j + (32 - start mod 32)) = j + 32 * Suc (start div 32)" by (simp only: q_def r_def)
    then have "(start + (j + (32 - start mod 32))) mod 32 = j"
      using that by (metis mod_less mod_mult_self2)
    then show "j = (start + (j + (32 - start mod 32)) mod 32) mod 32"
      unfolding mod_add_right_eq by (rule sym)
  qed
  then show ?thesis by auto
qed

lemma activeExpiryPass_spec:
  assumes "activeExpiryPass env start d = (d', hot)" and "db_ok d"
  obtains D where "finite D" and "card D \<le> 20" and "D \<subseteq> dead_in (clock env 0) (keyspace d)" and "db_ok d'"
    and "keyspace d' = keyspace d |` (- D)" and "KeyCount d = KeyCount d' + card D"
    and "pubsub d' = pubsub d" and "hot \<Longrightarrow> D \<noteq> {}"
    and "\<not> hot \<Longrightarrow> D = dead_in (clock env 0) (keyspace d) \<or> card D \<le> 5"
proof -
  obtain s x where l: "sample_shards env (clock env 0) start [0..<32] d 0 0 = (d', s, x)"
      and hot: "hot \<longleftrightarrow> 0 < s \<and> s < 4 * x"
    using assms(1) by (auto simp: activeExpiryPass_def split: prod.splits)
  obtain D where D: "finite D" "D \<subseteq> dead_in (clock env 0) (keyspace d)" "db_ok d'"
      "keyspace d' = keyspace d |` (- D)" "s \<le> 20" "x = card D" "KeyCount d = KeyCount d' + card D"
      "card D \<le> s" "pubsub d' = pubsub d"
      "s < 20 \<Longrightarrow> dead_in (clock env 0) (keyspace d) \<subseteq> D"
    using sample_shards_spec [OF l assms(2)] by (simp add: all_shards_visited del: set_upt) metis
  show thesis
  proof (rule that [OF D(1) _ D(2-4,7,9)])
    show "card D \<le> 20" using D(5,8) by simp
    show "hot \<Longrightarrow> D \<noteq> {}" using hot D(6) by auto
    show "\<not> hot \<Longrightarrow> D = dead_in (clock env 0) (keyspace d) \<or> card D \<le> 5"
      using hot D(2,5,6,8,10) by (cases "s < 20") auto
  qed
qed

section \<open>The loops end\<close>

text \<open>
  Every hot pass removes at least one key, so a tick runs at most one pass more than there are
  keys, whatever the clock and the iteration orders do.
\<close>

lemma drain_returns:
  "db_ok d \<Longrightarrow> \<exists>d' n. drain world m d = Some (d', n) \<and> db_ok d' \<and> pubsub d' = pubsub d \<and>
     n + KeyCount d' \<le> Suc (m + KeyCount d) \<and> keyspace d' \<subseteq>\<^sub>m keyspace d \<and>
     (\<forall>k \<in> dom (keyspace d) - dom (keyspace d'). \<exists>i. k \<in> dead_in (clock (fst (world i)) 0) (keyspace d)) \<and>
     (\<forall>t. (\<forall>i. clock (fst (world i)) 0 \<le> t) \<longrightarrow> live t (keyspace d') = live t (keyspace d))"
proof (induction "KeyCount d" arbitrary: d m rule: less_induct)
  case less
  obtain d1 hot where p: "activeExpiryPass (fst (world m)) (snd (world m)) d = (d1, hot)" by fastforce
  let ?t = "clock (fst (world m)) 0"
  obtain D where D: "finite D" "D \<subseteq> dead_in ?t (keyspace d)" "db_ok d1" "keyspace d1 = keyspace d |` (- D)"
      "KeyCount d = KeyCount d1 + card D" "pubsub d1 = pubsub d" "hot \<Longrightarrow> D \<noteq> {}"
    using activeExpiryPass_spec [OF p less.prems] by metis
  have live1: "\<forall>t. (\<forall>i. clock (fst (world i)) 0 \<le> t) \<longrightarrow> live t (keyspace d1) = live t (keyspace d)"
    using live_restrict_dead [OF D(2)] D(4) by simp
  have sub: "keyspace d1 \<subseteq>\<^sub>m keyspace d" by (auto simp: D(4) map_le_def)
  have gone: "k \<in> dom (keyspace d) - dom (keyspace d1) \<Longrightarrow> k \<in> dead_in ?t (keyspace d)" for k
    using D(2) by (auto simp: D(4) restrict_map_def split: if_splits)
  have mono: "k \<in> dead_in t (keyspace d1) \<Longrightarrow> k \<in> dead_in t (keyspace d)" for k t
    by (auto simp: D(4) dead_in_restrict)
  show ?case
  proof (cases hot)
    case False
    with p D(3,5,6) live1 sub gone show ?thesis by (subst drain.simps) auto
  next
    case True
    with D(1,7) have "0 < card D" by (simp add: card_gt_0_iff)
    with D(5) have "KeyCount d1 < KeyCount d" by simp
    from less.hyps [OF this D(3), of "Suc m"] obtain d' n where
      "drain world (Suc m) d1 = Some (d', n)" "db_ok d'" "pubsub d' = pubsub d1"
      "n + KeyCount d' \<le> Suc (Suc m + KeyCount d1)" "keyspace d' \<subseteq>\<^sub>m keyspace d1"
      "\<forall>k \<in> dom (keyspace d1) - dom (keyspace d'). \<exists>i. k \<in> dead_in (clock (fst (world i)) 0) (keyspace d1)"
      "\<forall>t. (\<forall>i. clock (fst (world i)) 0 \<le> t) \<longrightarrow> live t (keyspace d') = live t (keyspace d1)"
      by blast
    moreover have "drain world m d = drain world (Suc m) d1"
      using p True by (subst drain.simps) simp
    moreover have "\<forall>k \<in> dom (keyspace d) - dom (keyspace d'). \<exists>i. k \<in> dead_in (clock (fst (world i)) 0) (keyspace d)"
      using calculation(6) gone mono by blast
    ultimately show ?thesis
      using D(5,6) \<open>0 < card D\<close> live1 map_le_trans [OF _ sub] by (intro exI [of _ d'] exI [of _ n]) auto
  qed
qed

lemma RunActiveExpiry_returns:
  "db_ok d \<Longrightarrow> \<exists>d'. RunActiveExpiry ticks d = Some d' \<and> db_ok d' \<and> keyspace d' \<subseteq>\<^sub>m keyspace d \<and>
     (\<forall>t. (\<forall>world \<in> set ticks. \<forall>i. clock (fst (world i)) 0 \<le> t) \<longrightarrow>
        live t (keyspace d') = live t (keyspace d))"
proof (induction ticks arbitrary: d)
  case Nil
  then show ?case by simp
next
  case (Cons world ticks)
  obtain d1 n where d1: "drain world 0 d = Some (d1, n)" "db_ok d1" "keyspace d1 \<subseteq>\<^sub>m keyspace d"
      "\<forall>t. (\<forall>i. clock (fst (world i)) 0 \<le> t) \<longrightarrow> live t (keyspace d1) = live t (keyspace d)"
    using drain_returns [OF Cons.prems, of world 0] by auto
  from Cons.IH [OF d1(2)] obtain d' where "RunActiveExpiry ticks d1 = Some d'" "db_ok d'"
      "keyspace d' \<subseteq>\<^sub>m keyspace d1"
      "\<forall>t. (\<forall>world \<in> set ticks. \<forall>i. clock (fst (world i)) 0 \<le> t) \<longrightarrow>
         live t (keyspace d') = live t (keyspace d1)"
    by blast
  with d1 show ?case by (auto intro: map_le_trans)
qed

section \<open>Properties\<close>

text \<open>
  C18: Every tick of the reaper ends, whatever the clock, the random starts and the iteration orders
  do: it runs at most one pass more than there are keys. What it removed was dead at one of its
  clock readings, so a client that looks at or after those readings sees no difference.
\<close>

theorem drain_terminates:
  assumes "db_ok d"
  shows "\<exists>d' n. drain world 0 d = Some (d', n) \<and> db_ok d' \<and> n + KeyCount d' \<le> Suc (KeyCount d) \<and>
     keyspace d' \<subseteq>\<^sub>m keyspace d \<and>
     (\<forall>k \<in> dom (keyspace d) - dom (keyspace d'). \<exists>i. k \<in> dead_in (clock (fst (world i)) 0) (keyspace d)) \<and>
     (\<forall>t. (\<forall>i. clock (fst (world i)) 0 \<le> t) \<longrightarrow> live t (keyspace d') = live t (keyspace d))"
  using drain_returns [OF assms, of world 0] by auto

theorem drain_terminates_witness:
  "(let d = fst (db_Expire (at_time 0) (db_Set db_New ''k'' ''v'') ''k'' 5) in
     db_ok d \<and> (\<exists>d' n. drain (\<lambda>i. (at_time (int i), i)) 0 d = Some (d', n) \<and> db_ok d' \<and>
       n + KeyCount d' \<le> Suc (KeyCount d) \<and> keyspace d' \<subseteq>\<^sub>m [''k'' \<mapsto> (RString ''v'', Some 5)]))"
  using drain_terminates [OF expiring_key(1), of "\<lambda>i. (at_time (int i), i)" "''k''" "''v''"] expiring_key [of "''k''" "''v''"]
  by auto

end
