(* ===== verification/Server.thy ===== *)
theory Server
  imports State_Machine Rewrite_Log Replication Active_Expiry
begin

text \<open>
  The server object of \<open>internal/server/server.go\<close>: its options, recovery of the log, the write path
  (dispatch, append, propagate) and compaction. The disk is part of the state because the log
  lives there. This theory runs one request at a time; \<open>Write_Path\<close> interleaves them.
\<close>

section \<open>State\<close>

record server =
  sv_db :: db
  sv_aofPath :: string
  sv_fsyncMode :: FsyncMode
  sv_aof :: "aof option"
  sv_replicas :: replicas
  sv_primaryAddr :: string
  sv_metricsAddr :: string
  sv_disk :: disk

type_synonym server_option = "server \<Rightarrow> server"

definition WithAOF :: "string \<Rightarrow> server_option" where "WithAOF path s = s\<lparr>sv_aofPath := path\<rparr>"
definition WithFsync :: "FsyncMode \<Rightarrow> server_option" where "WithFsync mode s = s\<lparr>sv_fsyncMode := mode\<rparr>"
definition WithReplicaOf :: "string \<Rightarrow> server_option" where "WithReplicaOf addr s = s\<lparr>sv_primaryAddr := addr\<rparr>"
definition WithMetrics :: "string \<Rightarrow> server_option" where "WithMetrics addr s = s\<lparr>sv_metricsAddr := addr\<rparr>"

text \<open>The number of listeners stands for them; none is a panic.\<close>

definition NewMulti :: "disk \<Rightarrow> nat \<Rightarrow> server_option list \<Rightarrow> server option" where
  "NewMulti disk lns opts =
     (if lns = 0 then None
      else Some (fold (\<lambda>opt s. opt s) opts
        \<lparr>sv_db = db_New, sv_aofPath = [], sv_fsyncMode = FsyncEverySec, sv_aof = None,
         sv_replicas = NewReplicas, sv_primaryAddr = [], sv_metricsAddr = [], sv_disk = disk\<rparr>))"

definition server_New :: "disk \<Rightarrow> server_option list \<Rightarrow> server option" where
  "server_New disk opts = NewMulti disk 1 opts"

section \<open>Requests\<close>

definition commandName :: "resp \<Rightarrow> string" where
  "commandName request =
     (if \<not> is_array request \<or> val_Array request = [] then [] else bulk_str (hd (val_Array request)))"

text \<open>The readings of one request: the store's, the outcome of the append, the propagation order.\<close>

record world =
  w_env :: env
  w_os :: os_outcome
  w_order :: choices

definition record_write :: "world \<Rightarrow> server \<Rightarrow> resp \<Rightarrow> server" where
  "record_write w s request =
     (let s1 = (case sv_aof s of
                  None \<Rightarrow> s
                | Some a \<Rightarrow>
                    (case Append (w_os w) (sv_disk s) a request of
                       (disk, a', _) \<Rightarrow> s\<lparr>sv_disk := disk, sv_aof := Some a'\<rparr>))
      in s1\<lparr>sv_replicas := Propagate (w_order w) (sv_replicas s1) request\<rparr>)"

definition applyRecord :: "unicode \<Rightarrow> world \<Rightarrow> server \<Rightarrow> resp \<Rightarrow> string \<Rightarrow> server \<times> resp" where
  "applyRecord u w s request name =
     (if \<not> IsWrite u name \<or> (sv_aof s = None \<and> \<not> Any (sv_replicas s))
      then (case Dispatch u (w_env w) (sv_db s) request of (d, reply) \<Rightarrow> (s\<lparr>sv_db := d\<rparr>, reply))
      else
        (case Dispatch u (w_env w) (sv_db s) request of
           (d, reply) \<Rightarrow>
             (if \<not> is_error reply then record_write w (s\<lparr>sv_db := d\<rparr>) request else s\<lparr>sv_db := d\<rparr>,
              reply)))"

text \<open>\<open>apply\<close> also tells the metrics which command ended how.\<close>

definition apply_metrics :: "unicode \<Rightarrow> string \<Rightarrow> resp \<Rightarrow> string \<times> string" where
  "apply_metrics u name reply =
     (if Known u name then ToUpper u name else ''unknown'', if is_error reply then ''error'' else ''ok'')"

definition server_apply :: "unicode \<Rightarrow> world \<Rightarrow> server \<Rightarrow> resp \<Rightarrow> server \<times> resp \<times> string \<times> string" where
  "server_apply u w s request =
     (case applyRecord u w s request (commandName request) of
        (s', reply) \<Rightarrow> (s', reply, apply_metrics u (commandName request) reply))"

section \<open>Recovery and compaction\<close>

text \<open>
  \<open>loadAOF\<close>: command \<open>i\<close> of the log is dispatched with the readings \<open>envs i\<close>; an error reply is
  logged and skipped. The boolean is whether the error is nil.
\<close>

definition loadAOF :: "unicode \<Rightarrow> (nat \<Rightarrow> env) \<Rightarrow> bool \<Rightarrow> io_err \<Rightarrow> os_outcome \<Rightarrow> server \<Rightarrow> server \<times> bool" where
  "loadAOF u envs openable e os s =
     (case Replay openable e (sv_disk s) (sv_aofPath s) (never_fails (replay_step u envs)) (sv_db s, 0) of
        ((d, _), Replayed n) \<Rightarrow>
          (case Open os (sv_disk s) (sv_aofPath s) (sv_fsyncMode s) of
             (disk, None) \<Rightarrow> (s\<lparr>sv_db := d, sv_disk := disk\<rparr>, False)
           | (disk, Some a) \<Rightarrow> (s\<lparr>sv_db := d, sv_disk := disk, sv_aof := Some a\<rparr>, True))
      | ((d, _), _) \<Rightarrow> (s\<lparr>sv_db := d\<rparr>, False))"

definition rewriteAOF :: "rewrite_outcome \<Rightarrow> env \<Rightarrow> env \<Rightarrow> server \<Rightarrow> server \<times> bool" where
  "rewriteAOF os env wenv s =
     (case sv_aof s of
        None \<Rightarrow> (s, False)
      | Some a \<Rightarrow>
          (case Rewrite os wenv (sv_disk s) a (sv_aofPath s) (Snapshot env (sv_db s)) of
             (disk, a', ok) \<Rightarrow> (s\<lparr>sv_disk := disk, sv_aof := Some a'\<rparr>, ok)))"

text \<open>One tick of \<open>runAutoRewrite\<close>; an error is logged and otherwise ignored.\<close>

definition runAutoRewrite :: "os_outcome \<Rightarrow> rewrite_outcome \<Rightarrow> env \<Rightarrow> env \<Rightarrow> server \<Rightarrow> server" where
  "runAutoRewrite st os env wenv s =
     (case sv_aof s of
        None \<Rightarrow> s
      | Some a \<Rightarrow>
          if \<not> ShouldRewrite st (sv_disk s) a then s else fst (rewriteAOF os env wenv s))"

text \<open>One tick of \<open>runReplicaHeartbeat\<close>, with the addresses it warns about.\<close>

abbreviation replicaAckTimeout :: int where "replicaAckTimeout \<equiv> 30 * Second"

definition runReplicaHeartbeat :: "choices \<Rightarrow> choices \<Rightarrow> int \<Rightarrow> server \<Rightarrow> server \<times> string list" where
  "runReplicaHeartbeat cs cs' now s =
     (case Heartbeat cs cs' now (sv_replicas s) replicaAckTimeout of
        (r, warned) \<Rightarrow> (s\<lparr>sv_replicas := r\<rparr>, warned))"

text \<open>What the replica side of a server does with a streamed command.\<close>

definition apply_streamed :: "unicode \<Rightarrow> env \<Rightarrow> server \<Rightarrow> resp \<Rightarrow> server" where
  "apply_streamed u env s c = s\<lparr>sv_db := fst (Dispatch u env (sv_db s) c)\<rparr>"

section \<open>Frames\<close>

lemma IsWrite_commandName:
  "IsWrite u (commandName r) \<longleftrightarrow> well_formed r \<and> req_name u r \<in> set writeCommands"
proof (cases "well_formed r")
  case True
  then show ?thesis by (simp add: IsWrite_def commandName_def well_formed_def req_name_def)
next
  case False
  have "[] \<notin> set writeCommands" "ToUpper u [] = []" by (simp_all add: writeCommands_def ToUpper_def)
  with False show ?thesis by (auto simp: IsWrite_def commandName_def well_formed_def)
qed

lemma record_write_db [simp]: "sv_db (record_write w s r) = sv_db s" "sv_aofPath (record_write w s r) = sv_aofPath s"
  by (simp_all add: record_write_def Let_def split: option.splits prod.splits)

lemma applyRecord_db:
  "sv_db (fst (applyRecord u w s r name)) = fst (Dispatch u (w_env w) (sv_db s) r)"
  "snd (applyRecord u w s r name) = snd (Dispatch u (w_env w) (sv_db s) r)"
  by (simp_all add: applyRecord_def split: prod.splits)

lemma applyRecord_path [simp]: "sv_aofPath (fst (applyRecord u w s r name)) = sv_aofPath s"
  by (simp add: applyRecord_def split: prod.splits)

lemma server_apply_reply:
  "fst (snd (server_apply u w s r)) = snd (Dispatch u (w_env w) (sv_db s) r)"
  "sv_db (fst (server_apply u w s r)) = fst (Dispatch u (w_env w) (sv_db s) r)"
  using applyRecord_db [of u w s r "commandName r"] by (auto simp: server_apply_def split: prod.splits)

end
