(* ===== verification/Durability.thy ===== *)
theory Durability
  imports Server
begin

text \<open>
  What the log guarantees: as long as the log's system calls succeed and no command sets a
  deadline, the log on disk replays to the keyspace in memory, through requests, compactions,
  background fsyncs and expiry. A crash in the middle of an append recovers the state before or
  after that write.
\<close>

section \<open>The invariant\<close>

definition log_inv :: "unicode \<Rightarrow> server \<Rightarrow> resp list \<Rightarrow> bool" where
  "log_inv u s cmds \<longleftrightarrow>
     (\<exists>a. sv_aof s = Some a \<and> aof_ok (sv_disk s) (sv_aofPath s) a \<and>
        log_bytes (sv_disk s) a = concat (map wire cmds)) \<and>
     list_all wire_ok cmds \<and> list_all (ttl_free u) cmds \<and>
     db_ok (sv_db s) \<and> no_ttl (keyspace (sv_db s)) \<and>
     keyspace (sv_db s) = fold (spec_apply u) cmds Map.empty"

definition logged :: "unicode \<Rightarrow> resp \<Rightarrow> resp \<Rightarrow> resp list" where
  "logged u r reply = (if IsWrite u (commandName r) \<and> \<not> is_error reply then [r] else [])"

lemma spec_apply_read: "\<not> IsWrite u (commandName r) \<Longrightarrow> spec_apply u r K = K"
  by (auto simp: IsWrite_commandName spec_apply_def)

lemma Dispatch_error_same:
  assumes "db_ok d" and "no_ttl (keyspace d)" and "ttl_free u r" and "is_error (snd (Dispatch u env d r))"
  shows "spec_apply u r (keyspace d) = keyspace d"
proof -
  have "live (clock env 0) (keyspace (fst (Dispatch u env d r))) = live (clock env 0) (keyspace d)"
    using assms by (intro Dispatch_frame) auto
  with assms show ?thesis by (simp add: Dispatch_no_ttl live_no_ttl spec_apply_no_ttl)
qed

lemma spec_apply_logged:
  assumes "db_ok d" and "no_ttl (keyspace d)" and "ttl_free u r"
  shows "fold (spec_apply u) (logged u r (snd (Dispatch u env d r))) (keyspace d) = spec_apply u r (keyspace d)"
  using assms Dispatch_error_same [OF assms, of env] by (auto simp: logged_def spec_apply_read)

section \<open>Steps\<close>

lemma log_inv_cong:
  assumes "log_inv u s cmds" and "sv_aof s' = sv_aof s" and "sv_aofPath s' = sv_aofPath s" and "sv_db s' = sv_db s"
    and "disk_ok (sv_disk s')" and "dir (sv_disk s') (sv_aofPath s) = dir (sv_disk s) (sv_aofPath s)"
    and "read_path (sv_disk s') (sv_aofPath s) = read_path (sv_disk s) (sv_aofPath s)"
  shows "log_inv u s' cmds"
  using assms by (auto simp: log_inv_def aof_ok_def read_path_def log_bytes_def)

lemma record_write_log:
  assumes "sv_aof s = Some a" and "aof_ok (sv_disk s) (sv_aofPath s) a"
    and "wire_ok r" and "o_write (w_os w) = None" and "o_sync (w_os w)"
  shows "\<exists>a'. sv_aof (record_write w s r) = Some a' \<and>
    aof_ok (sv_disk (record_write w s r)) (sv_aofPath s) a' \<and>
    log_bytes (sv_disk (record_write w s r)) a' = log_bytes (sv_disk s) a @ wire r"
proof -
  obtain disk a' where ap: "Append (w_os w) (sv_disk s) a r = (disk, a', True)"
    using Append_works [OF assms(2-5)] by blast
  from Append_success [OF assms(2) ap] show ?thesis
    by (simp add: record_write_def assms(1) ap)
qed

lemma apply_keeps_log:
  assumes inv: "log_inv u s cmds" and r: "wire_ok r" "ttl_free u r"
    and os: "o_write (w_os w) = None" "o_sync (w_os w)"
  shows "log_inv u (fst (server_apply u w s r)) (cmds @ logged u r (fst (snd (server_apply u w s r))))"
proof -
  from inv obtain a where a: "sv_aof s = Some a" "aof_ok (sv_disk s) (sv_aofPath s) a"
      "log_bytes (sv_disk s) a = concat (map wire cmds)"
    and cmds: "list_all wire_ok cmds" "list_all (ttl_free u) cmds"
    and d: "db_ok (sv_db s)" "no_ttl (keyspace (sv_db s))" "keyspace (sv_db s) = fold (spec_apply u) cmds Map.empty"
    by (auto simp: log_inv_def)
  obtain d' reply where disp: "Dispatch u (w_env w) (sv_db s) r = (d', reply)" by fastforce
  have reply: "fst (snd (server_apply u w s r)) = reply" using server_apply_reply(1) [of u w s r] disp by simp
  have d': "db_ok d'" "keyspace d' = spec_apply u r (keyspace (sv_db s))" "no_ttl (keyspace d')"
    using Dispatch_db_ok [OF d(1), of u "w_env w" r] Dispatch_no_ttl [OF d(1,2) r(2), of "w_env w"]
      spec_apply_no_ttl [OF d(2) r(2)] disp by simp_all
  have fold: "keyspace d' = fold (spec_apply u) (cmds @ logged u r reply) Map.empty"
    using spec_apply_logged [OF d(1,2) r(2), of "w_env w"] disp d'(2) d(3) by simp
  let ?s = "s\<lparr>sv_db := d'\<rparr>"
  have s': "fst (server_apply u w s r) = (if logged u r reply = [] then ?s else record_write w ?s r)"
    using a(1) by (simp add: server_apply_def applyRecord_def disp logged_def)
  show ?thesis
  proof (cases "logged u r reply = []")
    case True
    with a cmds d' fold show ?thesis by (simp add: log_inv_def reply s')
  next
    case False
    then have l: "logged u r reply = [r]" by (auto simp: logged_def split: if_splits)
    from record_write_log [of ?s a r w] a r(1) os obtain a' where
      "sv_aof (record_write w ?s r) = Some a'" "aof_ok (sv_disk (record_write w ?s r)) (sv_aofPath s) a'"
      "log_bytes (sv_disk (record_write w ?s r)) a' = log_bytes (sv_disk s) a @ wire r" by auto
    with a cmds d' fold l r show ?thesis by (simp add: log_inv_def reply s')
  qed
qed

lemma snapshotCmds_ttl_free:
  assumes "\<forall>x \<in> set rs. sn_ExpireAt x = None"
  shows "list_all (ttl_free u) (snapshotCmds env rs)"
  using assms
proof (induction env rs rule: snapshotCmds.induct)
  case (2 env r rs)
  have "ttl_free u (valueCmd r)"
    by (auto simp: valueCmd_def ttl_free_def req_name_def bulkCmd_def val_defs write_name_upper writeCommands_def
        split: SnapshotKind.split)
  with 2 show ?case by (simp add: recordCmds_def expireCmds_def)
qed simp

lemma Snapshot_no_ttl:
  assumes "db_ok d" and "no_ttl (keyspace d)"
  shows "\<forall>x \<in> set (Snapshot env d). sn_ExpireAt x = None"
proof
  fix x assume x: "x \<in> set (Snapshot env d)"
  have "map_of (map abs_snap (Snapshot env d)) (sn_Key x) = Some (snap_obj x, sn_ExpireAt x)"
    using x Snapshot_live(1) [OF assms(1), of env]
    by (intro map_of_is_SomeI) (auto simp: abs_snap_def comp_def intro!: rev_image_eqI)
  with Snapshot_live(2) [OF assms(1), of env] assms(2) show "sn_ExpireAt x = None"
    by (simp add: live_no_ttl no_ttl_def)
qed

text \<open>Replaying the commands of a snapshot of a store without deadlines gives that store's keyspace.\<close>

lemma snapshot_log:
  assumes "db_ok d" and nt: "no_ttl (keyspace d)"
  shows "fold (spec_apply u) (snapshotCmds wenv (Snapshot env d)) Map.empty = keyspace d"
proof -
  let ?rs = "Snapshot env d"
  let ?d = "foldl (replay_step u (\<lambda>_. wenv)) (db_New, 0) (snapshotCmds wenv ?rs)"
  note no = Snapshot_no_ttl [OF assms, of env]
  have snap: "\<forall>r \<in> set ?rs. snap_ok r" "distinct (map sn_Key ?rs)" "\<forall>r \<in> set ?rs. keyspace db_New (sn_Key r) = None"
    using Snapshot_abs(2) [OF assms(1)] Snapshot_live(1) [OF assms(1)] by (auto simp: keyspace_New)
  have "keyspace (fst ?d) = map_of (restored (\<lambda>_. wenv) 0 wenv ?rs)"
    using replay_snapshotCmds [OF db_ok_New snap, of u "\<lambda>_. wenv" 0 wenv] by (simp add: keyspace_New)
  moreover have "restored envs i e rs = map abs_snap rs" if "\<forall>x \<in> set rs. sn_ExpireAt x = None" for envs i e rs
    using that by (induction rs arbitrary: i e) (simp_all add: abs_snap_def)
  ultimately have "keyspace (fst ?d) = keyspace d"
    using no Snapshot_live(2) [OF assms(1), of env] nt by (simp add: live_no_ttl)
  moreover have "keyspace (fst ?d) = fold (spec_apply u) (snapshotCmds wenv ?rs) (keyspace db_New)"
    using dispatching.run(2) [of db_New u "snapshotCmds wenv ?rs" "\<lambda>_. wenv" 0] snapshotCmds_ttl_free [OF no, of u wenv]
    by (simp add: db_ok_New keyspace_New no_ttl_def replay_step_def [abs_def])
  ultimately show ?thesis by (simp add: keyspace_New)
qed

lemma rewrite_keeps_log:
  assumes inv: "log_inv u s cmds" and rw: "rewriteAOF os env wenv s = (s', True)"
    and sizes: "list_all wire_ok (snapshotCmds wenv (Snapshot env (sv_db s)))"
  shows "log_inv u s' (snapshotCmds wenv (Snapshot env (sv_db s)))"
proof -
  from inv obtain a where a: "sv_aof s = Some a" "aof_ok (sv_disk s) (sv_aofPath s) a"
    and d: "db_ok (sv_db s)" "no_ttl (keyspace (sv_db s))" by (auto simp: log_inv_def)
  let ?rs = "Snapshot env (sv_db s)"
  obtain disk a' where r: "Rewrite os wenv (sv_disk s) a (sv_aofPath s) ?rs = (disk, a', True)"
    and s': "s' = s\<lparr>sv_disk := disk, sv_aof := Some a'\<rparr>"
    using rw a(1) by (auto simp: rewriteAOF_def split: prod.splits)
  from a(2) have "disk_ok (sv_disk s)" "dir (sv_disk s) (sv_aofPath s) = Some (a_file a)" by (simp_all add: aof_ok_def)
  from Rewrite_success [OF this r] have ok: "aof_ok disk (sv_aofPath s) a'"
    "read_path disk (sv_aofPath s) = Some (writeSnapshot wenv ?rs)" by auto
  then have "log_bytes disk a' = concat (map wire (snapshotCmds wenv ?rs))"
    using writeSnapshot_cmds [OF Snapshot_abs(2) [OF d(1)], of wenv env] by (simp add: aof_ok_def read_path_def log_bytes_def)
  with ok(1) sizes d snapshot_log [OF d, of u wenv env] snapshotCmds_ttl_free [OF Snapshot_no_ttl [OF d], of u wenv env]
  show ?thesis by (simp add: log_inv_def s')
qed

lemma rewrite_failure_keeps_log:
  assumes inv: "log_inv u s cmds" and rw: "rewriteAOF os env wenv s = (s', False)"
    and re: "r_reopen os \<or> \<not> r_rename os"
  shows "log_inv u s' cmds"
proof -
  from inv obtain a where a: "sv_aof s = Some a" "aof_ok (sv_disk s) (sv_aofPath s) a" by (auto simp: log_inv_def)
  let ?rs = "Snapshot env (sv_db s)"
  obtain disk a' where r: "Rewrite os wenv (sv_disk s) a (sv_aofPath s) ?rs = (disk, a', False)"
    and s': "s' = s\<lparr>sv_disk := disk, sv_aof := Some a'\<rparr>"
    using rw a(1) by (auto simp: rewriteAOF_def split: prod.splits)
  from a(2) have "disk_ok (sv_disk s)" "dir (sv_disk s) (sv_aofPath s) = Some (a_file a)" by (simp_all add: aof_ok_def)
  from Rewrite_failure [OF this r re] a(1) s' show ?thesis by (intro log_inv_cong [OF inv]) auto
qed

section \<open>Recovery\<close>

lemma replay_step_machine: "replay_step u envs = (\<lambda>p c. (fst (Dispatch u (envs (snd p)) (fst p) c), Suc (snd p)))"
  by (simp add: fun_eq_iff replay_step_def)

lemma replay_commands:
  assumes "list_all (ttl_free u) cmds"
  shows "db_ok (fst (foldl (replay_step u envs) (db_New, 0) cmds))"
    and "keyspace (fst (foldl (replay_step u envs) (db_New, 0) cmds)) = fold (spec_apply u) cmds Map.empty"
    and "no_ttl (fold (spec_apply u) cmds Map.empty)"
proof -
  have new: "db_ok db_New \<and> no_ttl (keyspace db_New)" by (simp add: db_ok_New keyspace_New no_ttl_def)
  note run = dispatching.run [OF new assms, of envs 0]
  from run(1) show "db_ok (fst (foldl (replay_step u envs) (db_New, 0) cmds))"
    by (simp add: replay_step_machine)
  from run(2) show ks: "keyspace (fst (foldl (replay_step u envs) (db_New, 0) cmds)) = fold (spec_apply u) cmds Map.empty"
    by (simp add: replay_step_machine keyspace_New)
  from run(1) show "no_ttl (fold (spec_apply u) cmds Map.empty)"
    by (simp add: ks [symmetric] replay_step_machine)
qed

text \<open>Recovery from a file that holds whole commands and, behind them, possibly the start of another.\<close>

lemma loadAOF_replays:
  assumes disk: "disk_ok (sv_disk s)" and content: "read_path (sv_disk s) (sv_aofPath s) = Some (concat (map wire cmds) @ p)"
    and db: "sv_db s = db_New" and os: "o_open os" and cmds: "list_all wire_ok cmds"
    and torn: "p = [] \<or> (\<exists>v q. wire_ok v \<and> wire v = p @ q \<and> q \<noteq> [])"
  obtains s' a where "loadAOF u envs True EOF os s = (s', True)"
    and "sv_db s' = fst (foldl (replay_step u envs) (db_New, 0) cmds)" and "sv_aofPath s' = sv_aofPath s"
    and "sv_aof s' = Some a" and "aof_ok (sv_disk s') (sv_aofPath s) a" and "log_bytes (sv_disk s') a = concat (map wire cmds) @ p"
proof -
  let ?d = "foldl (replay_step u envs) (db_New, 0) cmds"
  have "replay_loop EOF (never_fails (replay_step u envs)) (concat (map wire cmds) @ p) (db_New, 0) 0 =
      (?d, Replayed (length cmds))"
    using torn
  proof
    assume "p = []"
    with replay_all [OF cmds] show ?thesis by simp
  next
    assume "\<exists>v q. wire_ok v \<and> wire v = p @ q \<and> q \<noteq> []"
    then obtain v q where v: "wire_ok v" "wire v = p @ q" "q \<noteq> []" by blast
    from cmds v(1) have "list_all wire_ok (cmds @ [v])" by simp
    from replaying.loop_torn [OF this v(2,3), of EOF "replay_step u envs" "((db_New, 0), 0)"] show ?thesis
      by (simp add: foldl_count replay_stop_def unexpectEOF_def split: if_splits)
  qed
  then have rep: "Replay True EOF (sv_disk s) (sv_aofPath s) (never_fails (replay_step u envs)) (sv_db s, 0) =
      (?d, Replayed (length cmds))" by (simp add: Replay_def content db)
  obtain disk' a where op: "Open os (sv_disk s) (sv_aofPath s) (sv_fsyncMode s) = (disk', Some a)"
    using Open_works [OF os] by blast
  with rep have "loadAOF u envs True EOF os s = (s\<lparr>sv_db := fst ?d, sv_disk := disk', sv_aof := Some a\<rparr>, True)"
    by (simp add: loadAOF_def split: prod.splits)
  from that [OF this] Open_ok [OF disk op] show thesis by (simp add: content)
qed

lemma loadAOF_recovers:
  assumes disk: "disk_ok (sv_disk s)" and content: "read_path (sv_disk s) (sv_aofPath s) = Some (concat (map wire cmds) @ p)"
    and db: "sv_db s = db_New" and os: "o_open os"
    and cmds: "list_all wire_ok cmds" "list_all (ttl_free u) cmds"
    and torn: "p = [] \<or> (\<exists>v q. wire_ok v \<and> wire v = p @ q \<and> q \<noteq> [])"
  obtains s' where "loadAOF u envs True EOF os s = (s', True)" and "db_ok (sv_db s')"
    and "keyspace (sv_db s') = fold (spec_apply u) cmds Map.empty"
    and "p = [] \<Longrightarrow> log_inv u s' cmds"
proof -
  note run = replay_commands(1,2) [OF cmds(2), of envs] replay_commands(3) [OF cmds(2)]
  obtain s' a where ld: "loadAOF u envs True EOF os s = (s', True)" "sv_db s' = fst (foldl (replay_step u envs) (db_New, 0) cmds)"
    "sv_aofPath s' = sv_aofPath s" "sv_aof s' = Some a" "aof_ok (sv_disk s') (sv_aofPath s) a"
    "log_bytes (sv_disk s') a = concat (map wire cmds) @ p"
    using loadAOF_replays [OF disk content db os cmds(1) torn, of u envs] by blast
  show thesis
  proof (rule that [OF ld(1)])
    show "db_ok (sv_db s')" "keyspace (sv_db s') = fold (spec_apply u) cmds Map.empty" unfolding ld(2) by (rule run)+
    with run(3) ld cmds show "log_inv u s' cmds" if "p = []" using that by (simp add: log_inv_def)
  qed
qed

text \<open>
  A crash in the middle of the append of an accepted write: whatever prefix of its frame reached the
  file, the restart recovers the keyspace before or after that write.
\<close>

lemma crash_recovers:
  assumes inv: "log_inv u s cmds" and r: "wire_ok r" "ttl_free u r"
    and crashed: "sv_disk s1 = append_bytes (sv_disk s) (a_file (the (sv_aof s))) (take n (wire r))"
    and s1: "sv_aofPath s1 = sv_aofPath s" "sv_db s1 = db_New" and os: "o_open os"
  obtains s' where "loadAOF u envs True EOF os s1 = (s', True)"
    and "keyspace (sv_db s') = keyspace (sv_db s) \<or> keyspace (sv_db s') = spec_apply u r (keyspace (sv_db s))"
proof -
  from inv obtain a where a: "sv_aof s = Some a" "aof_ok (sv_disk s) (sv_aofPath s) a"
      "log_bytes (sv_disk s) a = concat (map wire cmds)"
    and cmds: "list_all wire_ok cmds" "list_all (ttl_free u) cmds"
    and d: "keyspace (sv_db s) = fold (spec_apply u) cmds Map.empty"
    by (auto simp: log_inv_def)
  from a crashed have disk: "disk_ok (sv_disk s1)" "dir (sv_disk s1) (sv_aofPath s1) = Some (a_file a)"
    by (simp_all add: aof_ok_def disk_ok_ops s1)
  have content: "read_path (sv_disk s1) (sv_aofPath s1) = Some (concat (map wire cmds) @ take n (wire r))"
    using a disk crashed by (simp add: read_path_def log_bytes_def)
  show thesis
  proof (cases "length (wire r) \<le> n")
    case True
    with content have c: "read_path (sv_disk s1) (sv_aofPath s1) = Some (concat (map wire (cmds @ [r])) @ [])" by simp
    obtain s' where "loadAOF u envs True EOF os s1 = (s', True)"
      "keyspace (sv_db s') = fold (spec_apply u) (cmds @ [r]) Map.empty"
      by (rule loadAOF_recovers [OF disk(1) c s1(2) os, of u envs]) (use cmds r in auto)
    with that d show thesis by simp
  next
    case False
    then have "\<exists>v q. wire_ok v \<and> wire v = take n (wire r) @ q \<and> q \<noteq> []"
      using r(1) by (intro exI [of _ r] exI [of _ "drop n (wire r)"]) simp
    then obtain s' where "loadAOF u envs True EOF os s1 = (s', True)"
      "keyspace (sv_db s') = fold (spec_apply u) cmds Map.empty"
      using loadAOF_recovers [OF disk(1) content s1(2) os cmds, of envs] by metis
    with that d show thesis by simp
  qed
qed

section \<open>A server at work\<close>

text \<open>The steps of a running server whose log works: requests, compaction, fsync ticks, expiry, replica traffic.\<close>

inductive serving :: "unicode \<Rightarrow> server \<Rightarrow> server \<Rightarrow> bool" for u where
  request: "wire_ok r \<Longrightarrow> ttl_free u r \<Longrightarrow> o_write (w_os w) = None \<Longrightarrow> o_sync (w_os w) \<Longrightarrow>
     serving u s (fst (server_apply u w s r))"
| compaction: "list_all wire_ok (snapshotCmds wenv (Snapshot env (sv_db s))) \<Longrightarrow> r_reopen os \<or> \<not> r_rename os \<Longrightarrow>
     serving u s (runAutoRewrite st os env wenv s)"
| fsync_tick: "sv_aof s = Some a \<Longrightarrow> serving u s (s\<lparr>sv_disk := syncEverySec os (sv_disk s) a\<rparr>)"
| expiry_tick: "drain world 0 (sv_db s) = Some (d, n) \<Longrightarrow> serving u s (s\<lparr>sv_db := d\<rparr>)"
| heartbeat: "serving u s (fst (runReplicaHeartbeat cs cs' now s))"
| replica_joins: "serving u s (s\<lparr>sv_replicas := fst (Add now (sv_replicas s) addr)\<rparr>)"
| replica_leaves: "serving u s (s\<lparr>sv_replicas := Remove (sv_replicas s) rep\<rparr>)"

lemma drain_no_ttl:
  assumes "db_ok d" and "no_ttl (keyspace d)" and "drain world m d = Some (d', n)"
  shows "db_ok d' \<and> keyspace d' = keyspace d"
proof -
  have "dead_in t (keyspace d) = {}" for t using assms(2) by (auto simp: dead_in_def no_ttl_def dead_def split: option.splits)
  with drain_returns [OF assms(1), of world m] assms(3)
  have "db_ok d'" and le: "keyspace d' \<subseteq>\<^sub>m keyspace d" and dom: "dom (keyspace d) \<subseteq> dom (keyspace d')" by auto
  moreover have "keyspace d \<subseteq>\<^sub>m keyspace d'" using le dom by (simp add: map_le_def subset_iff)
  ultimately show ?thesis by (simp add: map_le_antisym)
qed

lemma fsync_keeps_log:
  assumes "log_inv u s cmds" and "sv_aof s = Some a"
  shows "log_inv u (s\<lparr>sv_disk := syncEverySec os (sv_disk s) a\<rparr>) cmds"
  by (rule log_inv_cong [OF assms(1)])
    (use assms in \<open>auto simp: syncEverySec_def fsync_def log_inv_def aof_ok_def disk_ok_ops read_path_def\<close>)

lemma expiry_keeps_log:
  assumes "log_inv u s cmds" and "drain world 0 (sv_db s) = Some (d, n)"
  shows "log_inv u (s\<lparr>sv_db := d\<rparr>) cmds"
proof -
  from assms(1) have "db_ok (sv_db s)" "no_ttl (keyspace (sv_db s))" by (auto simp: log_inv_def)
  from drain_no_ttl [OF this assms(2)] have "db_ok d" "keyspace d = keyspace (sv_db s)" by auto
  with assms(1) show ?thesis by (auto simp: log_inv_def)
qed

lemma replicas_keep_log [simp]:
  "log_inv u (s\<lparr>sv_replicas := r\<rparr>) cmds = log_inv u s cmds"
  "log_inv u (fst (runReplicaHeartbeat cs cs' now s)) cmds = log_inv u s cmds"
  by (simp_all add: log_inv_def runReplicaHeartbeat_def split: prod.splits)

lemma serving_keeps_log:
  assumes "serving u s s'" and "log_inv u s cmds"
  shows "\<exists>cmds'. log_inv u s' cmds'"
  using assms
proof cases
  case (request r w)
  with apply_keeps_log [OF assms(2), of r w] show ?thesis by blast
next
  case (compaction wenv env os st)
  from assms(2) obtain a where a: "sv_aof s = Some a" by (auto simp: log_inv_def)
  obtain s1 ok where rw: "rewriteAOF os env wenv s = (s1, ok)" by fastforce
  have "\<exists>cmds'. log_inv u s1 cmds'"
    using rewrite_keeps_log [OF assms(2), of os env wenv s1] rewrite_failure_keeps_log [OF assms(2), of os env wenv s1]
      compaction rw by (cases ok) auto
  with assms(2) compaction(1) a rw show ?thesis by (auto simp: runAutoRewrite_def)
next
  case (fsync_tick a os)
  with fsync_keeps_log [OF assms(2)] show ?thesis by blast
next
  case (expiry_tick world d n)
  with expiry_keeps_log [OF assms(2)] show ?thesis by blast
qed (use assms(2) in auto)

lemma serving_run_keeps_log:
  assumes "(serving u)\<^sup>*\<^sup>* s s'" and "log_inv u s cmds"
  shows "\<exists>cmds'. log_inv u s' cmds'"
  using assms by (induction rule: rtranclp_induct) (auto dest: serving_keeps_log)

text \<open>Whatever such a server has done, a restart on its disk finds its keyspace.\<close>

lemma restart_recovers:
  assumes run: "(serving u)\<^sup>*\<^sup>* s0 s" and s0: "log_inv u s0 cmds"
    and s1: "sv_disk s1 = sv_disk s" "sv_aofPath s1 = sv_aofPath s" "sv_db s1 = db_New" and os: "o_open os"
  obtains s' where "loadAOF u envs True EOF os s1 = (s', True)" and "keyspace (sv_db s') = keyspace (sv_db s)"
proof -
  obtain cmds' where inv: "log_inv u s cmds'" using serving_run_keeps_log [OF run s0] by blast
  then obtain a where a: "aof_ok (sv_disk s) (sv_aofPath s) a" "log_bytes (sv_disk s) a = concat (map wire cmds')"
    and c: "list_all wire_ok cmds'" "list_all (ttl_free u) cmds'"
      "keyspace (sv_db s) = fold (spec_apply u) cmds' Map.empty" by (auto simp: log_inv_def)
  from a s1 have "disk_ok (sv_disk s1)" "read_path (sv_disk s1) (sv_aofPath s1) = Some (concat (map wire cmds') @ [])"
    by (simp_all add: aof_ok_def read_path_def log_bytes_def)
  from loadAOF_recovers [OF this s1(3) os c(1,2), of envs] c(3) that show thesis by auto
qed

end
