(* ===== verification/Power_Loss.thy ===== *)
theory Power_Loss
  imports Durability
begin

text \<open>
  What the fsync policies of \<open>internal/persistence/aof.go\<close> promise when the power fails in the middle of the work: under
  \<open>always\<close> nothing acknowledged is lost, under the other policies the server comes back as it was at some moment
  since the log was last synced. And what is lost when the disk refuses a write although the clients are told \<open>OK\<close>.
\<close>

section \<open>A power cut\<close>

text \<open>What was synced is there; of what was written after it some initial part may have reached the disk.\<close>

definition cut_power :: "(nat \<Rightarrow> nat) \<Rightarrow> disk \<Rightarrow> disk" where
  "cut_power k d = d\<lparr>inodes := (\<lambda>i.
     let kept = f_durable (inodes d i) @ take (k i) (drop (length (f_durable (inodes d i))) (f_content (inodes d i)))
     in \<lparr>f_content = kept, f_durable = kept\<rparr>)\<rparr>"

definition synced :: "server \<Rightarrow> bool" where
  "synced s \<longleftrightarrow> durable_path (sv_disk s) (sv_aofPath s) = read_path (sv_disk s) (sv_aofPath s)"

definition policy :: "server \<Rightarrow> FsyncMode option" where
  "policy s = map_option a_mode (sv_aof s)"

text \<open>A tick of the background fsync makes the log synced.\<close>

lemma tick_synced:
  assumes "log_inv u s cmds" and "sv_aof s = Some a" and "a_ticking a" and "o_sync os"
  shows "synced (s\<lparr>sv_disk := syncEverySec os (sv_disk s) a\<rparr>)"
  using assms syncEverySec_durable [of "sv_disk s" "sv_aofPath s" a os]
  by (auto simp: synced_def log_inv_def syncEverySec_def fsync_def read_path_def)

lemma Append_durable:
  assumes "aof_ok d path a" and "Append os d a cmd = (d', a', True)"
  shows "durable_path d' path = (if a_mode a = FsyncAlways then Some (log_bytes d' a') else durable_path d path)"
proof (cases "a_mode a = FsyncAlways")
  case True
  with Append_success(4) [OF assms] show ?thesis by simp
next
  case False
  with assms show ?thesis
    by (auto simp: Append_def aof_ok_def w_Flush_def emit_def durable_path_def Let_def split: prod.splits bool.splits option.splits if_splits)
qed

section \<open>Which states a cut can bring back\<close>

text \<open>
  The synced part of the log ends between two commands, and for every longer part that does, there was a
  moment since \<open>s0\<close> at which the store was what that part replays to.
\<close>

definition loss_inv :: "unicode \<Rightarrow> server \<Rightarrow> server \<Rightarrow> resp list \<Rightarrow> nat \<Rightarrow> bool" where
  "loss_inv u s0 s cmds m \<longleftrightarrow>
     log_inv u s cmds \<and> policy s = policy s0 \<and> m \<le> length cmds \<and>
     durable_path (sv_disk s) (sv_aofPath s) = Some (concat (map wire (take m cmds))) \<and>
     (policy s = Some FsyncAlways \<longrightarrow> m = length cmds) \<and>
     (\<forall>j. m \<le> j \<and> j \<le> length cmds \<longrightarrow>
        (\<exists>sm. (serving u)\<^sup>*\<^sup>* s0 sm \<and> (serving u)\<^sup>*\<^sup>* sm s \<and> keyspace (sv_db sm) = fold (spec_apply u) (take j cmds) Map.empty))"

lemma log_inv_path:
  "log_inv u s cmds \<Longrightarrow> read_path (sv_disk s) (sv_aofPath s) = Some (concat (map wire cmds))"
  by (auto simp: log_inv_def aof_ok_def read_path_def log_bytes_def)

lemma loss_inv_start:
  assumes "log_inv u s cmds" and "synced s"
  shows "loss_inv u s s cmds (length cmds)"
  using assms log_inv_path [OF assms(1)] by (auto simp: loss_inv_def synced_def log_inv_def)

text \<open>Steps that leave the log's bytes alone, whether or not they sync them.\<close>

lemma loss_inv_moment:
  assumes "loss_inv u s0 s cmds m" and "serving u s s'" and "m \<le> j" and "j \<le> length cmds"
  shows "\<exists>sm. (serving u)\<^sup>*\<^sup>* s0 sm \<and> (serving u)\<^sup>*\<^sup>* sm s' \<and> keyspace (sv_db sm) = fold (spec_apply u) (take j cmds) Map.empty"
proof -
  from assms obtain sm where "(serving u)\<^sup>*\<^sup>* s0 sm" "(serving u)\<^sup>*\<^sup>* sm s" "keyspace (sv_db sm) = fold (spec_apply u) (take j cmds) Map.empty"
    unfolding loss_inv_def by blast
  with assms(2) show ?thesis by (meson rtranclp.rtrancl_into_rtrancl)
qed

lemma loss_inv_reached: "loss_inv u s0 s cmds m \<Longrightarrow> (serving u)\<^sup>*\<^sup>* s0 s"
  unfolding loss_inv_def by (meson order_refl rtranclp_trans)

lemma loss_inv_same_log:
  assumes inv: "loss_inv u s0 s cmds m" and step: "serving u s s'" and lg: "log_inv u s' cmds" and pol: "policy s' = policy s"
    and dur: "durable_path (sv_disk s') (sv_aofPath s') = durable_path (sv_disk s) (sv_aofPath s)"
  shows "loss_inv u s0 s' cmds m"
proof -
  from inv have "policy s = policy s0" "m \<le> length cmds" "policy s = Some FsyncAlways \<longrightarrow> m = length cmds"
    "durable_path (sv_disk s) (sv_aofPath s) = Some (concat (map wire (take m cmds)))" by (simp_all add: loss_inv_def)
  with lg pol dur loss_inv_moment [OF inv step] show ?thesis by (simp add: loss_inv_def)
qed

lemma loss_inv_synced:
  assumes "loss_inv u s0 s cmds m" and "serving u s s'" and "log_inv u s' cmds'" and "policy s' = policy s" and "synced s'"
  shows "\<exists>m'. loss_inv u s0 s' cmds' m'"
proof -
  from loss_inv_reached [OF assms(1)] assms(2) have "(serving u)\<^sup>*\<^sup>* s0 s'" by (rule rtranclp.rtrancl_into_rtrancl)
  moreover have "keyspace (sv_db s') = fold (spec_apply u) cmds' Map.empty" using assms(3) by (simp add: log_inv_def)
  moreover have "policy s = policy s0" using assms(1) by (simp add: loss_inv_def)
  ultimately have "loss_inv u s0 s' cmds' (length cmds')"
    using assms(3-5) log_inv_path [OF assms(3)] by (auto simp: loss_inv_def synced_def intro: exI [of _ s'])
  then show ?thesis ..
qed

text \<open>A request appends its frame, and under \<open>always\<close> syncs it.\<close>

lemma request_log:
  assumes inv: "log_inv u s cmds" and r: "wire_ok r" and os: "o_write (w_os w) = None" "o_sync (w_os w)"
    and s': "s' = fst (server_apply u w s r)" and new: "new = logged u r (fst (snd (server_apply u w s r)))"
  shows "policy s' = policy s" and "sv_aofPath s' = sv_aofPath s"
    and "new = [] \<Longrightarrow> sv_disk s' = sv_disk s"
    and "new \<noteq> [] \<Longrightarrow> new = [r] \<and> durable_path (sv_disk s') (sv_aofPath s) =
      (if policy s = Some FsyncAlways then read_path (sv_disk s') (sv_aofPath s) else durable_path (sv_disk s) (sv_aofPath s))"
proof -
  from inv obtain a where a: "sv_aof s = Some a" "aof_ok (sv_disk s) (sv_aofPath s) a" by (auto simp: log_inv_def)
  obtain d' reply where disp: "Dispatch u (w_env w) (sv_db s) r = (d', reply)" by fastforce
  obtain disk a' where ap: "Append (w_os w) (sv_disk s) a r = (disk, a', True)" using Append_works [OF a(2) r os] by blast
  note app = Append_success [OF a(2) ap] Append_durable [OF a(2) ap]
  have new': "new = logged u r reply" using server_apply_reply(1) [of u w s r] disp by (simp add: new)
  have s1: "s' = (if new = [] then s\<lparr>sv_db := d'\<rparr> else record_write w (s\<lparr>sv_db := d'\<rparr>) r)"
    using a(1) by (simp add: s' server_apply_def applyRecord_def disp logged_def new')
  show "sv_aofPath s' = sv_aofPath s" "new = [] \<Longrightarrow> sv_disk s' = sv_disk s" by (simp_all add: s1)
  show "policy s' = policy s" using a(1) ap app(3) by (simp add: s1 policy_def record_write_def)
  show "new = [r] \<and> durable_path (sv_disk s') (sv_aofPath s) =
      (if policy s = Some FsyncAlways then read_path (sv_disk s') (sv_aofPath s) else durable_path (sv_disk s) (sv_aofPath s))"
    if "new \<noteq> []"
  proof
    show "new = [r]" using that by (auto simp: new' logged_def split: if_splits)
    from app that show "durable_path (sv_disk s') (sv_aofPath s) =
      (if policy s = Some FsyncAlways then read_path (sv_disk s') (sv_aofPath s) else durable_path (sv_disk s) (sv_aofPath s))"
      by (auto simp: s1 record_write_def a(1) ap policy_def read_path_def log_bytes_def aof_ok_def)
  qed
qed

lemma loss_inv_request:
  assumes inv: "loss_inv u s0 s cmds m" and r: "wire_ok r" "ttl_free u r" and os: "o_write (w_os w) = None" "o_sync (w_os w)"
  shows "\<exists>cmds' m'. loss_inv u s0 (fst (server_apply u w s r)) cmds' m'"
proof -
  let ?s = "fst (server_apply u w s r)"
  define new where "new = logged u r (fst (snd (server_apply u w s r)))"
  have lg: "log_inv u s cmds" using inv by (simp add: loss_inv_def)
  note step = serving.request [OF r os, of s]
  have lg': "log_inv u ?s (cmds @ new)" unfolding new_def by (rule apply_keeps_log [OF lg r os])
  note log = request_log [OF lg r(1) os refl new_def]
  show ?thesis
  proof (cases "new = []")
    case True
    with loss_inv_same_log [OF inv step _ log(1)] lg' log(2,3) show ?thesis by auto
  next
    case False
    show ?thesis
    proof (cases "policy s = Some FsyncAlways")
      case True
      with log(2,4) False have "synced ?s" by (simp add: synced_def)
      with loss_inv_synced [OF inv step lg' log(1)] show ?thesis by blast
    next
      case no: False
      from False log(4) no have new: "new = [r]" and dur: "durable_path (sv_disk ?s) (sv_aofPath ?s) = durable_path (sv_disk s) (sv_aofPath s)"
        using log(2) by simp_all
      have m: "m \<le> length cmds" "policy s = policy s0"
        "durable_path (sv_disk s) (sv_aofPath s) = Some (concat (map wire (take m cmds)))" using inv by (simp_all add: loss_inv_def)
      have "\<exists>sm. (serving u)\<^sup>*\<^sup>* s0 sm \<and> (serving u)\<^sup>*\<^sup>* sm ?s \<and> keyspace (sv_db sm) = fold (spec_apply u) (take j (cmds @ new)) Map.empty"
        if "m \<le> j" "j \<le> length (cmds @ new)" for j
      proof (cases "j \<le> length cmds")
        case True
        with loss_inv_moment [OF inv step that(1)] show ?thesis by simp
      next
        case False
        with that new have "take j (cmds @ new) = cmds @ new" by simp
        with lg' loss_inv_reached [OF inv] step show ?thesis
          by (intro exI [of _ ?s]) (simp add: log_inv_def rtranclp.rtrancl_into_rtrancl)
      qed
      with lg' m no dur log(1) have "loss_inv u s0 ?s (cmds @ new) m" by (simp add: loss_inv_def)
      then show ?thesis by blast
    qed
  qed
qed

lemma loss_inv_compaction:
  assumes inv: "loss_inv u s0 s cmds m" and step: "serving u s (runAutoRewrite st os env wenv s)"
    and sizes: "list_all wire_ok (snapshotCmds wenv (Snapshot env (sv_db s)))" and re: "r_reopen os \<or> \<not> r_rename os"
  shows "\<exists>cmds' m'. loss_inv u s0 (runAutoRewrite st os env wenv s) cmds' m'"
proof -
  have lg: "log_inv u s cmds" using inv by (simp add: loss_inv_def)
  then obtain a where a: "sv_aof s = Some a" "disk_ok (sv_disk s)" "dir (sv_disk s) (sv_aofPath s) = Some (a_file a)"
    by (auto simp: log_inv_def aof_ok_def)
  obtain disk a' ok where rw: "Rewrite os wenv (sv_disk s) a (sv_aofPath s) (Snapshot env (sv_db s)) = (disk, a', ok)" by (metis prod_cases3)
  let ?s = "s\<lparr>sv_disk := disk, sv_aof := Some a'\<rparr>"
  have rs: "rewriteAOF os env wenv s = (?s, ok)" using a(1) rw by (simp add: rewriteAOF_def)
  show ?thesis
  proof (cases "ShouldRewrite st (sv_disk s) a")
    case False
    then show ?thesis using inv a(1) by (auto simp: runAutoRewrite_def)
  next
    case True
    then have run: "runAutoRewrite st os env wenv s = ?s" using a(1) rs by (simp add: runAutoRewrite_def)
    show ?thesis
    proof (cases ok)
      case True
      note log = Rewrite_success [OF a(2,3), of os wenv "Snapshot env (sv_db s)" disk a']
      from rewrite_keeps_log [OF lg, of os env wenv ?s] rs True sizes have lg': "log_inv u ?s (snapshotCmds wenv (Snapshot env (sv_db s)))" by simp
      have "synced ?s" "policy ?s = policy s" using log a(1) rw True by (simp_all add: synced_def policy_def)
      with loss_inv_synced [OF inv step [unfolded run] lg'] show ?thesis unfolding run by blast
    next
      case False
      note log = Rewrite_failure [OF a(2,3) _ re, of wenv "Snapshot env (sv_db s)" disk a']
      have "log_inv u ?s cmds" using rewrite_failure_keeps_log [OF lg _ re, of env wenv ?s] rs False by simp
      moreover have "policy ?s = policy s" "durable_path (sv_disk ?s) (sv_aofPath ?s) = durable_path (sv_disk s) (sv_aofPath s)"
        using log a(1) rw False by (simp_all add: policy_def)
      ultimately show ?thesis unfolding run using loss_inv_same_log [OF inv step [unfolded run]] by blast
    qed
  qed
qed

lemma loss_inv_step:
  assumes "serving u s s'" and inv: "loss_inv u s0 s cmds m"
  shows "\<exists>cmds' m'. loss_inv u s0 s' cmds' m'"
  using assms(1)
proof cases
  case (request r w)
  with loss_inv_request [OF inv] show ?thesis by blast
next
  case (compaction wenv env os st)
  with loss_inv_compaction [OF inv] assms(1) show ?thesis by blast
next
  case (fsync_tick a os)
  have lg: "log_inv u s cmds" using inv by (simp add: loss_inv_def)
  note lg' = fsync_keeps_log [OF lg fsync_tick(2), of os, folded fsync_tick(1)]
  have pol: "policy s' = policy s" by (simp add: fsync_tick(1) policy_def)
  show ?thesis
  proof (cases "a_ticking a \<and> o_sync os")
    case True
    with tick_synced [OF lg fsync_tick(2)] loss_inv_synced [OF inv assms(1) lg' pol] show ?thesis unfolding fsync_tick(1) by blast
  next
    case False
    then have "sv_disk s' = sv_disk s" "sv_aofPath s' = sv_aofPath s" by (auto simp: fsync_tick(1) syncEverySec_def fsync_def)
    with loss_inv_same_log [OF inv assms(1) lg' pol] show ?thesis by auto
  qed
next
  case (expiry_tick world d n)
  have lg: "log_inv u s cmds" using inv by (simp add: loss_inv_def)
  from loss_inv_same_log [OF inv assms(1)] expiry_keeps_log [OF lg expiry_tick(2)] show ?thesis
    by (auto simp: expiry_tick(1) policy_def)
next
  case (heartbeat cs cs' now)
  have "log_inv u s' cmds" using inv by (simp add: loss_inv_def heartbeat)
  then show ?thesis using loss_inv_same_log [OF inv assms(1)]
    by (auto simp: heartbeat runReplicaHeartbeat_def policy_def split: prod.splits)
next
  case (replica_joins now addr)
  have "log_inv u s' cmds" using inv by (simp add: loss_inv_def replica_joins)
  then show ?thesis using loss_inv_same_log [OF inv assms(1)] by (auto simp: replica_joins policy_def)
next
  case (replica_leaves rep)
  have "log_inv u s' cmds" using inv by (simp add: loss_inv_def replica_leaves)
  then show ?thesis using loss_inv_same_log [OF inv assms(1)] by (auto simp: replica_leaves policy_def)
qed

lemma loss_inv_run:
  assumes "(serving u)\<^sup>*\<^sup>* s0 s" and "log_inv u s0 cmds" and "synced s0"
  shows "\<exists>cmds' m. loss_inv u s0 s cmds' m"
  using assms(1)
proof (induction rule: rtranclp_induct)
  case base
  from loss_inv_start [OF assms(2,3)] show ?case by blast
next
  case (step y z)
  then show ?case using loss_inv_step by blast
qed

section \<open>Recovery after a cut\<close>

text \<open>A log cut anywhere is some whole commands and perhaps the beginning of the next.\<close>

lemma cut_frames:
  assumes "n \<le> length (concat (map wire cmds))"
  obtains j p where "j \<le> length cmds" and "take n (concat (map wire cmds)) = concat (map wire (take j cmds)) @ p"
    and "p = [] \<or> (j < length cmds \<and> (\<exists>q. wire (cmds ! j) = p @ q \<and> q \<noteq> []))"
  using assms
proof (induction cmds arbitrary: n thesis)
  case Nil
  from Nil(1) [of 0 "[]"] show ?case by simp
next
  case (Cons c cmds)
  show ?case
  proof (cases "length (wire c) \<le> n")
    case True
    obtain j p where "j \<le> length cmds" "take (n - length (wire c)) (concat (map wire cmds)) = concat (map wire (take j cmds)) @ p"
      "p = [] \<or> (j < length cmds \<and> (\<exists>q. wire (cmds ! j) = p @ q \<and> q \<noteq> []))"
      by (rule Cons.IH [of "n - length (wire c)"]) (use Cons.prems(2) True in auto)
    with True show ?thesis by (intro Cons.prems(1) [of "Suc j" p]) auto
  next
    case False
    then show ?thesis
      by (intro Cons.prems(1) [of 0 "take n (wire c)"]) (auto intro: exI [of _ "drop n (wire c)"])
  qed
qed

lemma cut_power_path:
  "disk_ok (cut_power k d) = disk_ok d"
  "dir d path = Some i \<Longrightarrow> read_path (cut_power k d) path =
     Some (f_durable (inodes d i) @ take (k i) (drop (length (f_durable (inodes d i))) (f_content (inodes d i))))"
  by (simp_all add: cut_power_def disk_ok_def read_path_def Let_def)

lemma cut_recovers:
  assumes inv: "loss_inv u s0 s cmds m"
    and s1: "sv_disk s1 = cut_power k (sv_disk s)" "sv_aofPath s1 = sv_aofPath s" "sv_db s1 = db_New" and os: "o_open os"
  obtains s' j where "loadAOF u envs True EOF os s1 = (s', True)" and "m \<le> j" and "j \<le> length cmds"
    and "keyspace (sv_db s') = fold (spec_apply u) (take j cmds) Map.empty"
proof -
  from inv obtain a where a: "aof_ok (sv_disk s) (sv_aofPath s) a" "log_bytes (sv_disk s) a = concat (map wire cmds)"
    and c: "list_all wire_ok cmds" "list_all (ttl_free u) cmds" and m: "m \<le> length cmds"
    and dur: "f_durable (inodes (sv_disk s) (a_file a)) = concat (map wire (take m cmds))"
    by (auto simp: loss_inv_def log_inv_def durable_path_def aof_ok_def)
  let ?i = "a_file a" and ?rest = "concat (map wire (drop m cmds))"
  have all: "concat (map wire cmds) = concat (map wire (take m cmds)) @ ?rest"
    by (metis append_take_drop_id concat_append map_append)
  let ?n = "min (k ?i) (length ?rest)"
  obtain j p where j: "j \<le> length (drop m cmds)" "take ?n ?rest = concat (map wire (take j (drop m cmds))) @ p"
    "p = [] \<or> (j < length (drop m cmds) \<and> (\<exists>q. wire (drop m cmds ! j) = p @ q \<and> q \<noteq> []))"
    by (rule cut_frames [of ?n "drop m cmds"]) simp
  have "read_path (sv_disk s1) (sv_aofPath s1) = Some (concat (map wire (take m cmds)) @ take (k ?i) ?rest)"
    using a cut_power_path(2) [of "sv_disk s" "sv_aofPath s" ?i k] dur
    by (simp add: s1 aof_ok_def log_bytes_def all)
  moreover have "take (k ?i) ?rest = take ?n ?rest" by (simp add: min_def)
  ultimately have content: "read_path (sv_disk s1) (sv_aofPath s1) = Some (concat (map wire (take (m + j) cmds)) @ p)"
    using j(2) by (simp add: take_add)
  have torn: "p = [] \<or> (\<exists>v q. wire_ok v \<and> wire v = p @ q \<and> q \<noteq> [])"
    using j(3) c(1) by (auto simp: list_all_length) (metis add.commute less_diff_conv)
  have "disk_ok (sv_disk s1)" using a by (simp add: s1 cut_power_path aof_ok_def)
  moreover have "list_all wire_ok (take (m + j) cmds)" "list_all (ttl_free u) (take (m + j) cmds)"
    using c by (auto simp: list_all_iff dest: in_set_takeD)
  ultimately obtain s' where "loadAOF u envs True EOF os s1 = (s', True)"
    "keyspace (sv_db s') = fold (spec_apply u) (take (m + j) cmds) Map.empty"
    using loadAOF_recovers [OF _ content s1(3) os _ _ torn, of u envs] by metis
  with that [of s' "m + j"] j(1) m show thesis by simp
qed

text \<open>The cut brings back a moment since \<open>s0\<close>, and under \<open>always\<close> the last one.\<close>

lemma cut_recovers_moment:
  assumes "log_inv u s0 cmds" and "synced s0" and run: "(serving u)\<^sup>*\<^sup>* s0 s"
    and s1: "sv_disk s1 = cut_power k (sv_disk s)" "sv_aofPath s1 = sv_aofPath s" "sv_db s1 = db_New" and os: "o_open os"
  obtains s' sm where "loadAOF u envs True EOF os s1 = (s', True)" and "(serving u)\<^sup>*\<^sup>* s0 sm" and "(serving u)\<^sup>*\<^sup>* sm s"
    and "keyspace (sv_db s') = keyspace (sv_db sm)" and "policy s0 = Some FsyncAlways \<Longrightarrow> keyspace (sv_db s') = keyspace (sv_db s)"
proof -
  obtain cmds' m where inv: "loss_inv u s0 s cmds' m" using loss_inv_run [OF run assms(1,2)] by blast
  from cut_recovers [OF inv s1 os, of envs] obtain s' j where ld: "loadAOF u envs True EOF os s1 = (s', True)"
    and j: "m \<le> j" "j \<le> length cmds'" "keyspace (sv_db s') = fold (spec_apply u) (take j cmds') Map.empty" .
  from inv j obtain sm where "(serving u)\<^sup>*\<^sup>* s0 sm" "(serving u)\<^sup>*\<^sup>* sm s" "keyspace (sv_db s') = keyspace (sv_db sm)"
    unfolding loss_inv_def by metis
  moreover have "keyspace (sv_db s') = keyspace (sv_db s)" if "policy s0 = Some FsyncAlways"
    using that inv j by (simp add: loss_inv_def log_inv_def)
  ultimately show thesis using that ld by blast
qed

section \<open>A log that has failed\<close>

definition serve_all :: "unicode \<Rightarrow> (world \<times> resp) list \<Rightarrow> server \<Rightarrow> server" where
  "serve_all u reqs s = foldl (\<lambda>s (w, r). fst (server_apply u w s r)) s reqs"

lemma serve_all_stuck:
  assumes "sv_aof s = Some a" and "a_err a"
  shows "sv_disk (serve_all u reqs s) = sv_disk s \<and> sv_aofPath (serve_all u reqs s) = sv_aofPath s"
  using assms(1)
proof (induction reqs arbitrary: s)
  case (Cons p reqs)
  obtain w r where p: "p = (w, r)" by fastforce
  have "sv_aof (fst (server_apply u w s r)) = Some a" "sv_disk (fst (server_apply u w s r)) = sv_disk s"
    "sv_aofPath (fst (server_apply u w s r)) = sv_aofPath s"
    using Cons.prems Append_stuck [OF assms(2)]
    by (auto simp: server_apply_def applyRecord_def record_write_def Let_def split: prod.splits)
  with Cons.IH [of "fst (server_apply u w s r)"] show ?case by (simp add: p serve_all_def)
qed (simp add: serve_all_def)

lemma failed_append_recovers:
  assumes inv: "log_inv u s cmds" and r: "wire_ok r" "IsWrite u (commandName r)" and ok: "\<not> is_error (fst (snd (server_apply u w s r)))"
    and fail: "o_write (w_os w) = Some n" "n < length (wire r)"
    and s2: "s2 = serve_all u reqs (fst (server_apply u w s r))"
    and s1: "sv_disk s1 = sv_disk s2" "sv_aofPath s1 = sv_aofPath s2" "sv_db s1 = db_New" and os: "o_open os"
  obtains s' where "loadAOF u envs True EOF os s1 = (s', True)" and "keyspace (sv_db s') = keyspace (sv_db s)"
proof -
  from inv obtain a where a: "sv_aof s = Some a" "aof_ok (sv_disk s) (sv_aofPath s) a"
      "log_bytes (sv_disk s) a = concat (map wire cmds)"
    and cmds: "list_all wire_ok cmds" "list_all (ttl_free u) cmds"
    and d: "keyspace (sv_db s) = fold (spec_apply u) cmds Map.empty" by (auto simp: log_inv_def)
  let ?t = "fst (server_apply u w s r)"
  obtain bs where e: "Encode r = (bs, True)" using Encode_ok(1) [OF r(1)] by (cases "Encode r") auto
  with fail(2) have n: "n < length bs" "bs \<noteq> []" by auto
  have "\<exists>a'. Append (w_os w) (sv_disk s) a r = (append_bytes (sv_disk s) (a_file a) (take n (wire r)), a', False) \<and> a_err a'"
    using a(2) e fail n by (simp add: Append_def aof_ok_def w_Flush_def emit_def)
  then obtain a' where ap: "Append (w_os w) (sv_disk s) a r = (append_bytes (sv_disk s) (a_file a) (take n (wire r)), a', False)" "a_err a'"
    by blast
  have t: "sv_aof ?t = Some a'" "sv_disk ?t = append_bytes (sv_disk s) (a_file a) (take n (wire r))" "sv_aofPath ?t = sv_aofPath s"
    using ok r(2) a(1) ap by (auto simp: server_apply_def applyRecord_def record_write_def Let_def split: prod.splits)
  from serve_all_stuck [OF t(1) ap(2), of u reqs] have s1': "sv_disk s1 = append_bytes (sv_disk s) (a_file a) (take n (wire r))"
    "sv_aofPath s1 = sv_aofPath s" by (simp_all add: s1 s2 t)
  have content: "read_path (sv_disk s1) (sv_aofPath s1) = Some (concat (map wire cmds) @ take n (wire r))"
    using a by (simp add: s1' read_path_def aof_ok_def log_bytes_def)
  have torn: "take n (wire r) = [] \<or> (\<exists>v q. wire_ok v \<and> wire v = take n (wire r) @ q \<and> q \<noteq> [])"
    using r(1) fail(2) by (intro disjI2 exI [of _ r] exI [of _ "drop n (wire r)"]) simp
  have "disk_ok (sv_disk s1)" using a(2) by (simp add: s1' aof_ok_def disk_ok_ops)
  from loadAOF_recovers [OF this content s1(3) os cmds torn, of envs] d that show thesis by metis
qed

end
