(* ===== verification/Deadlines.thy ===== *)
theory Deadlines
  imports Power_Loss
begin

text \<open>
  Restarting with deadlines. The log records \<open>EXPIRE\<close> and \<open>PEXPIRE\<close> with their relative times, and replay executes them
  against its own clock. If no key had expired while the log was written and the replay is not slower than the
  original run, the recovered keyspace is the old one with later deadlines. If a key did expire, a command that found it
  gone finds it alive in the replay: old data comes back.
\<close>

section \<open>The same commands at other times\<close>

text \<open>Same keys and values; a deadline has moved by at least \<open>\<delta>\<close>.\<close>

definition later_by :: "int \<Rightarrow> int option \<Rightarrow> int option \<Rightarrow> bool" where
  "later_by \<delta> x x' = (case (x, x') of (None, None) \<Rightarrow> True | (Some t, Some t') \<Rightarrow> t + \<delta> \<le> t' | _ \<Rightarrow> False)"

definition postponed :: "int \<Rightarrow> keyspace \<Rightarrow> keyspace \<Rightarrow> bool" where
  "postponed \<delta> K K' \<longleftrightarrow> (\<forall>k. rel_option (rel_prod (=) (later_by \<delta>)) (K k) (K' k))"

lemma postponed_upd:
  "postponed \<delta> K K' \<Longrightarrow> rel_option (rel_prod (=) (later_by \<delta>)) v v' \<Longrightarrow> postponed \<delta> (K(k := v)) (K'(k := v'))"
  by (simp add: postponed_def)

lemma postponed_mono: "postponed \<delta> K K' \<Longrightarrow> \<delta>' \<le> \<delta> \<Longrightarrow> postponed \<delta>' K K'"
  unfolding postponed_def
  by (intro allI, erule allE, erule option.rel_mono_strong, erule prod.rel_mono_strong)
    (auto simp: later_by_def split: option.splits)

lemma postponed_cases:
  assumes "postponed \<delta> K K'"
  obtains (absent) "K k = None" "K' k = None"
  | (present) v x x' where "K k = Some (v, x)" "K' k = Some (v, x')" "later_by \<delta> x x'"
  using assms that by (cases "K k"; cases "K' k") (auto simp: postponed_def dest!: spec [of _ k])

definition all_live :: "env \<Rightarrow> keyspace \<Rightarrow> bool" where
  "all_live env K \<longleftrightarrow> (\<forall>n. live (clock env n) K = K)"

lemma dead_later: "\<not> dead t (v, x) \<Longrightarrow> later_by \<delta> x x' \<Longrightarrow> t' \<le> t + \<delta> \<Longrightarrow> \<not> dead t' (v', x')"
  by (auto simp: dead_def later_by_def split: option.splits)

lemma live_postponed:
  assumes "postponed \<delta> K K'" and "live t K = K" and "t' \<le> t + \<delta>"
  shows "live t' K' = K'"
proof
  fix k
  show "live t' K' k = K' k"
  proof (rule postponed_cases [OF assms(1), where k = k])
    fix v x x' assume present: "K k = Some (v, x)" "K' k = Some (v, x')" "later_by \<delta> x x'"
    with fun_cong [OF assms(2), of k] dead_later [OF _ present(3) assms(3)] show ?thesis
      by (auto simp: live_def split: if_splits)
  qed (simp add: live_def)
qed

lemma later_by_None [simp]: "later_by \<delta> None None" "later_by \<delta> x None \<longleftrightarrow> x = None" "later_by \<delta> None x \<longleftrightarrow> x = None"
  by (auto simp: later_by_def split: option.splits)

text \<open>One write command, in both runs.\<close>

lemma exec_postponed:
  assumes K: "postponed \<delta> K K'" and l: "\<And>n. live (clk n) K = K"
    and pace: "\<And>n. \<delta>' \<le> clk' n - clk n \<and> clk' n - clk n \<le> \<delta>"
  shows "postponed \<delta>' (fst (exec clk w K)) (fst (exec clk' w K'))"
proof -
  have l': "live (clk' n) K' = K'" for n using pace [of n] by (intro live_postponed [OF K l [of n]]) simp
  have "\<delta>' \<le> \<delta>" using pace [of 0] by linarith
  note K' = postponed_mono [OF K this]
  note upd = postponed_upd [OF K'] and at = postponed_cases [OF K']
  have E: "later_by \<delta>' (Some (clk n + dur)) (Some (clk' n + dur))" for n dur using pace [of n] by (simp add: later_by_def)
  show ?thesis
  proof (cases w)
    case (WDel ks)
    with K' show ?thesis by (simp add: postponed_def restrict_map_def)
  next
    case (WSet k v)
    with upd show ?thesis by simp
  next
    case (WPush front k vs)
    show ?thesis by (rule at [of k]) (auto simp: WPush spec_push_def l l' intro!: upd K' split: obj.splits)
  next
    case (WPop front k)
    show ?thesis by (rule at [of k]) (auto simp: WPop spec_pop_def l l' intro!: upd K' split: obj.splits)
  next
    case (WHSet k ps)
    show ?thesis by (rule at [of k]) (auto simp: WHSet spec_hset_def l l' intro!: upd K' split: obj.splits)
  next
    case (WHDel k ps)
    show ?thesis by (rule at [of k]) (auto simp: WHDel spec_hdel_def l l' intro!: upd K' split: obj.splits)
  next
    case (WSAdd k ms)
    show ?thesis by (rule at [of k]) (auto simp: WSAdd spec_sadd_def l l' intro!: upd K' split: obj.splits)
  next
    case (WSRem k ms)
    show ?thesis by (rule at [of k]) (auto simp: WSRem spec_srem_def l l' intro!: upd K' split: obj.splits)
  next
    case (WExpire k dur)
    show ?thesis by (rule at [of k]) (auto simp: WExpire spec_expire_def l l' intro!: upd K' E)
  next
    case (WPersist k)
    show ?thesis by (rule at [of k]) (auto simp: WPersist spec_persist_def l l' intro!: upd K')
  qed
qed

section \<open>What a run leaves in the log\<close>

text \<open>The accepted writes of a run, each with the readings it was executed with.\<close>

fun journal :: "unicode \<Rightarrow> (world \<times> resp) list \<Rightarrow> server \<Rightarrow> (env \<times> resp) list" where
  "journal u [] s = []"
| "journal u ((w, r) # reqs) s =
     map (Pair (w_env w)) (logged u r (fst (snd (server_apply u w s r)))) @ journal u reqs (fst (server_apply u w s r))"

definition log_works :: "(world \<times> resp) list \<Rightarrow> bool" where
  "log_works reqs \<longleftrightarrow> (\<forall>(w, r) \<in> set reqs. wire_ok r \<and> o_write (w_os w) = None \<and> o_sync (w_os w))"

lemma log_works_Cons [simp]:
  "log_works ((w, r) # reqs) \<longleftrightarrow> wire_ok r \<and> o_write (w_os w) = None \<and> o_sync (w_os w) \<and> log_works reqs"
  by (auto simp: log_works_def)

lemma serve_all_Cons [simp]: "serve_all u ((w, r) # reqs) s = serve_all u reqs (fst (server_apply u w s r))"
  by (simp add: serve_all_def)

lemma serve_all_Nil [simp]: "serve_all u [] s = s"
  by (simp add: serve_all_def)

text \<open>One request on a working log, with or without deadlines.\<close>

lemma apply_log:
  assumes a: "sv_aof s = Some a" "aof_ok (sv_disk s) (sv_aofPath s) a" and r: "wire_ok r"
    and os: "o_write (w_os w) = None" "o_sync (w_os w)"
  shows "\<exists>a'. sv_aof (fst (server_apply u w s r)) = Some a' \<and>
    aof_ok (sv_disk (fst (server_apply u w s r))) (sv_aofPath s) a' \<and>
    log_bytes (sv_disk (fst (server_apply u w s r))) a' =
      log_bytes (sv_disk s) a @ concat (map wire (logged u r (fst (snd (server_apply u w s r)))))"
    and "sv_aofPath (fst (server_apply u w s r)) = sv_aofPath s"
proof -
  obtain d' reply where disp: "Dispatch u (w_env w) (sv_db s) r = (d', reply)" by fastforce
  have reply: "fst (snd (server_apply u w s r)) = reply" using server_apply_reply(1) [of u w s r] disp by simp
  have s': "fst (server_apply u w s r) = (if logged u r reply = [] then s\<lparr>sv_db := d'\<rparr> else record_write w (s\<lparr>sv_db := d'\<rparr>) r)"
    using a(1) by (simp add: server_apply_def applyRecord_def disp logged_def)
  then show "sv_aofPath (fst (server_apply u w s r)) = sv_aofPath s" by simp
  have "logged u r reply = [] \<or> logged u r reply = [r]" by (simp add: logged_def)
  with record_write_log [of "s\<lparr>sv_db := d'\<rparr>" a r w] a r os
  show "\<exists>a'. sv_aof (fst (server_apply u w s r)) = Some a' \<and>
    aof_ok (sv_disk (fst (server_apply u w s r))) (sv_aofPath s) a' \<and>
    log_bytes (sv_disk (fst (server_apply u w s r))) a' =
      log_bytes (sv_disk s) a @ concat (map wire (logged u r (fst (snd (server_apply u w s r)))))"
    unfolding reply s' by auto
qed

lemma serve_all_log:
  assumes "sv_aof s = Some a" and "aof_ok (sv_disk s) (sv_aofPath s) a" and "log_bytes (sv_disk s) a = concat (map wire cmds)"
    and "log_works reqs"
  shows "sv_aofPath (serve_all u reqs s) = sv_aofPath s \<and>
    read_path (sv_disk (serve_all u reqs s)) (sv_aofPath s) = Some (concat (map wire (cmds @ map snd (journal u reqs s)))) \<and>
    disk_ok (sv_disk (serve_all u reqs s)) \<and> list_all wire_ok (map snd (journal u reqs s))"
  using assms
proof (induction reqs arbitrary: s a cmds)
  case Nil
  then show ?case by (simp add: aof_ok_def read_path_def log_bytes_def)
next
  case (Cons p reqs)
  obtain w r where p: "p = (w, r)" by fastforce
  let ?s = "fst (server_apply u w s r)" and ?new = "logged u r (fst (snd (server_apply u w s r)))"
  from Cons.prems(4) have r: "wire_ok r" "o_write (w_os w) = None" "o_sync (w_os w)" "log_works reqs" by (simp_all add: p)
  note step = apply_log [OF Cons.prems(1,2) r(1-3), of u]
  then obtain a' where a': "sv_aof ?s = Some a'" "aof_ok (sv_disk ?s) (sv_aofPath s) a'"
    "log_bytes (sv_disk ?s) a' = concat (map wire (cmds @ ?new))" using Cons.prems(3) by auto
  have "list_all wire_ok ?new" using r(1) by (simp add: logged_def)
  with Cons.IH [OF a'(1) _ a'(3) r(4)] a'(2) step(2) show ?case by (simp add: p comp_def)
qed

section \<open>Both runs side by side\<close>

text \<open>No key is past its deadline at any reading of the run.\<close>

fun unexpired :: "unicode \<Rightarrow> (world \<times> resp) list \<Rightarrow> server \<Rightarrow> bool" where
  "unexpired u [] s \<longleftrightarrow> True"
| "unexpired u ((w, r) # reqs) s \<longleftrightarrow> all_live (w_env w) (keyspace (sv_db s)) \<and> unexpired u reqs (fst (server_apply u w s r))"

text \<open>The replay's clock is ahead of the original one by an amount that never grows.\<close>

definition paced :: "(nat \<Rightarrow> int) \<Rightarrow> (nat \<Rightarrow> env) \<Rightarrow> nat \<Rightarrow> env list \<Rightarrow> bool" where
  "paced lead envs i es \<longleftrightarrow>
     (\<forall>j < length es. \<forall>n. lead (Suc (i + j)) \<le> clock (envs (i + j)) n - clock (es ! j) n \<and>
        clock (envs (i + j)) n - clock (es ! j) n \<le> lead (i + j))"

lemma paced_Cons:
  "paced lead envs i (e # es) \<longleftrightarrow>
     (\<forall>n. lead (Suc i) \<le> clock (envs i) n - clock e n \<and> clock (envs i) n - clock e n \<le> lead i) \<and> paced lead envs (Suc i) es"
  by (auto simp: paced_def All_less_Suc2)

lemma Dispatch_quiet:
  assumes ok: "db_ok d" and l: "all_live env (keyspace d)" and q: "logged u r (snd (Dispatch u env d r)) = []"
  shows "keyspace (fst (Dispatch u env d r)) = keyspace d"
proof (cases "well_formed r \<and> req_name u r \<in> set writeCommands")
  case True
  with q have e: "is_error (snd (Dispatch u env d r))" by (auto simp: logged_def IsWrite_commandName split: if_splits)
  from Dispatch_write [OF ok, of r u env] True e exec_error show ?thesis
    by (auto split: option.splits) (metis fst_conv snd_conv)
next
  case False
  note le = Dispatch_shrinks [OF ok False, of env]
  have "live (clock env 0) (keyspace (fst (Dispatch u env d r))) = keyspace d"
  proof (cases "well_formed r")
    case True
    with False Dispatch_frame [OF ok, of env "clock env 0" u r] l show ?thesis by (simp add: all_live_def)
  next
    case bad: False
    with l show ?thesis by (cases rule: Dispatch_cases [of r u]) (simp_all add: all_live_def)
  qed
  with live_le [of "clock env 0" "keyspace (fst (Dispatch u env d r))"]
  have "keyspace d \<subseteq>\<^sub>m keyspace (fst (Dispatch u env d r))" by simp
  with le show ?thesis by (simp add: map_le_antisym)
qed

lemma Dispatch_postponed:
  assumes ok: "db_ok d" "db_ok d'" and K: "postponed \<delta> (keyspace d) (keyspace d')" and l: "all_live env (keyspace d)"
    and w: "logged u r (snd (Dispatch u env d r)) = [r]"
    and pace: "\<And>n. \<delta>' \<le> clock env' n - clock env n \<and> clock env' n - clock env n \<le> \<delta>"
  shows "postponed \<delta>' (keyspace (fst (Dispatch u env d r))) (keyspace (fst (Dispatch u env' d' r)))"
proof -
  from w have wr: "well_formed r" "req_name u r \<in> set writeCommands" and e: "\<not> is_error (snd (Dispatch u env d r))"
    by (auto simp: logged_def IsWrite_commandName split: if_splits)
  note D = Dispatch_write [OF ok(1) wr, of env] Dispatch_write [OF ok(2) wr, of env']
  from D(1) e obtain c where c: "parse_write (req_name u r) (req_args r) = Some c" by (auto split: option.splits)
  with D have "keyspace (fst (Dispatch u env d r)) = fst (exec (clock env) c (keyspace d))"
    "keyspace (fst (Dispatch u env' d' r)) = fst (exec (clock env') c (keyspace d'))" by (auto simp: prod_eq_iff)
  with exec_postponed [OF K _ pace, where w = c] l show ?thesis by (simp add: all_live_def)
qed

lemma replay_postponed:
  assumes "db_ok (sv_db s)" and "db_ok d" and "postponed (lead i) (keyspace (sv_db s)) (keyspace d)"
    and "unexpired u reqs s" and "paced lead envs i (map fst (journal u reqs s))"
  shows "postponed (lead (i + length (journal u reqs s))) (keyspace (sv_db (serve_all u reqs s)))
    (keyspace (fst (foldl (replay_step u envs) (d, i) (map snd (journal u reqs s)))))"
  using assms
proof (induction reqs arbitrary: s d i)
  case (Cons p reqs)
  obtain w r where p: "p = (w, r)" by fastforce
  let ?s = "fst (server_apply u w s r)" and ?reply = "fst (snd (server_apply u w s r))"
  have db: "sv_db ?s = fst (Dispatch u (w_env w) (sv_db s) r)" "?reply = snd (Dispatch u (w_env w) (sv_db s) r)"
    by (simp_all add: server_apply_reply)
  from Cons.prems(4) have l: "all_live (w_env w) (keyspace (sv_db s))" "unexpired u reqs ?s" by (simp_all add: p)
  have ok: "db_ok (sv_db ?s)" using Dispatch_db_ok [OF Cons.prems(1)] by (simp add: db)
  show ?case
  proof (cases "logged u r ?reply = []")
    case True
    with Dispatch_quiet [OF Cons.prems(1) l(1), of u r] db have "keyspace (sv_db ?s) = keyspace (sv_db s)" by simp
    with Cons.IH [OF ok Cons.prems(2) _ l(2)] Cons.prems(3,5) True show ?thesis by (simp add: p)
  next
    case False
    then have w: "logged u r ?reply = [r]" by (simp add: logged_def split: if_splits)
    let ?d = "fst (Dispatch u (envs i) d r)"
    from Cons.prems(5) have pace: "\<And>n. lead (Suc i) \<le> clock (envs i) n - clock (w_env w) n \<and> clock (envs i) n - clock (w_env w) n \<le> lead i"
      "paced lead envs (Suc i) (map fst (journal u reqs ?s))" by (simp_all add: p w paced_Cons)
    from Dispatch_postponed [OF Cons.prems(1-3) l(1) _ pace(1), of u r] w db
    have "postponed (lead (Suc i)) (keyspace (sv_db ?s)) (keyspace ?d)" by simp
    from Cons.IH [OF ok Dispatch_db_ok [OF Cons.prems(2)] this l(2) pace(2)] w show ?thesis
      by (simp add: p replay_step_def)
  qed
qed simp

lemma postponed_refl_no_ttl: "no_ttl K \<Longrightarrow> postponed \<delta> K K"
  by (auto simp: postponed_def no_ttl_def intro!: option.rel_refl_strong) (metis later_by_None(1))

lemma replay_index: "snd (foldl (replay_step u envs) (d, i) cmds) = i + length cmds"
  by (induction cmds arbitrary: d i) (simp_all add: replay_step_def)

lemma restart_postponed:
  assumes inv: "log_inv u s0 cmds" and works: "log_works reqs" and live: "unexpired u reqs s0"
    and pace: "paced lead envs (length cmds) (map fst (journal u reqs s0))"
    and s: "s = serve_all u reqs s0"
    and s1: "sv_disk s1 = sv_disk s" "sv_aofPath s1 = sv_aofPath s" "sv_db s1 = db_New" and os: "o_open os"
  obtains s' where "loadAOF u envs True EOF os s1 = (s', True)"
    and "postponed (lead (length cmds + length (journal u reqs s0))) (keyspace (sv_db s)) (keyspace (sv_db s'))"
proof -
  from inv obtain a where a: "sv_aof s0 = Some a" "aof_ok (sv_disk s0) (sv_aofPath s0) a" "log_bytes (sv_disk s0) a = concat (map wire cmds)"
    and cmds: "list_all wire_ok cmds" "list_all (ttl_free u) cmds" and db: "db_ok (sv_db s0)" "no_ttl (keyspace (sv_db s0))"
    and d: "keyspace (sv_db s0) = fold (spec_apply u) cmds Map.empty" by (auto simp: log_inv_def)
  note log = serve_all_log [OF a works, of u]
  let ?all = "cmds @ map snd (journal u reqs s0)"
  have content: "read_path (sv_disk s1) (sv_aofPath s1) = Some (concat (map wire ?all) @ [])" and disk: "disk_ok (sv_disk s1)"
    using log by (simp_all add: s1 s)
  have "list_all wire_ok ?all" using cmds log by simp
  then obtain s' where ld: "loadAOF u envs True EOF os s1 = (s', True)" "sv_db s' = fst (foldl (replay_step u envs) (db_New, 0) ?all)"
    using loadAOF_replays [OF disk content s1(3) os, of u envs] by blast
  define d0 where "d0 = fst (foldl (replay_step u envs) (db_New, 0) cmds)"
  have d0: "foldl (replay_step u envs) (db_New, 0) cmds = (d0, length cmds)"
    using replay_index [of u envs db_New 0 cmds] by (simp add: d0_def prod_eq_iff)
  have "db_ok d0" "keyspace d0 = keyspace (sv_db s0)" using replay_commands(1,2) [OF cmds(2), of envs] d by (simp_all add: d0_def)
  with replay_postponed [OF db(1) _ _ live pace] postponed_refl_no_ttl [OF db(2)]
  have "postponed (lead (length cmds + length (journal u reqs s0))) (keyspace (sv_db s)) (keyspace (sv_db s'))"
    by (simp add: ld(2) d0 s)
  with ld(1) show thesis by (rule that)
qed

section \<open>An expired key in the log\<close>

definition all_well_at :: "int \<Rightarrow> world" where
  "all_well_at t = \<lparr>w_env = at_time t, w_os = all_well, w_order = []\<rparr>"

text \<open>Push to a list that expires in a second, and push again when it is gone.\<close>

definition push_twice :: "int \<Rightarrow> int \<Rightarrow> string \<Rightarrow> string \<Rightarrow> string \<Rightarrow> (world \<times> resp) list" where
  "push_twice t0 t1 k a b =
     [(all_well_at t0, bulkCmd ''RPUSH'' [k, a]), (all_well_at t0, bulkCmd ''EXPIRE'' [k, ''1'']),
      (all_well_at t1, bulkCmd ''RPUSH'' [k, b])]"

lemma push_twice_parse:
  "parse_write ''RPUSH'' (map (\<lambda>a. BulkString (Some a)) [k, a]) = Some (WPush False k [a])"
  "parse_write ''EXPIRE'' (map (\<lambda>a. BulkString (Some a)) [k, ''1'']) = Some (WExpire k Second)"
proof -
  have "ParseInt ''1'' = Some 1" by (simp add: ParseInt_def is_digit_def digit_val_def)
  moreover have "in_int64 Second" by (simp add: in_int64_def)
  ultimately show "parse_write ''EXPIRE'' (map (\<lambda>a. BulkString (Some a)) [k, ''1'']) = Some (WExpire k Second)"
    by (simp add: parse_expire val_defs)
qed (simp add: parse_push val_defs)

lemma push_twice_names: "''RPUSH'' \<in> set writeCommands" "''EXPIRE'' \<in> set writeCommands"
  by (simp_all add: writeCommands_def)

lemma bulkCmd_logged:
  "name \<in> set writeCommands \<Longrightarrow> \<not> is_error reply \<Longrightarrow> logged u (bulkCmd name args) reply = [bulkCmd name args]"
  using write_name_upper [of name u] by (simp add: logged_def IsWrite_def commandName_def bulkCmd_def val_defs)

text \<open>The effect of the three commands on a store, at the times they are given.\<close>

lemma pushes:
  assumes "db_ok d"
  shows "db_ok (fst (Dispatch u env d (bulkCmd ''RPUSH'' [k, x])))"
    and "live (clock env 0) (keyspace d) k = None \<Longrightarrow>
      keyspace (fst (Dispatch u env d (bulkCmd ''RPUSH'' [k, x]))) = (keyspace d)(k \<mapsto> (RList [x], None)) \<and>
      \<not> is_error (snd (Dispatch u env d (bulkCmd ''RPUSH'' [k, x])))"
    and "live (clock env 0) (keyspace d) k = Some (RList l, y) \<Longrightarrow>
      keyspace (fst (Dispatch u env d (bulkCmd ''RPUSH'' [k, x]))) = (keyspace d)(k \<mapsto> (RList (l @ [x]), y))"
  using Dispatch_bulkCmd [OF assms push_twice_names(1) push_twice_parse(1) [of k x], of u env]
  by (simp_all add: spec_push_def count_reply_def is_error_def)

lemma expires_in_a_second:
  assumes "db_ok d" and "live (clock env 0) (keyspace d) k = Some (v, y)"
  shows "db_ok (fst (Dispatch u env d (bulkCmd ''EXPIRE'' [k, ''1''])))"
    and "keyspace (fst (Dispatch u env d (bulkCmd ''EXPIRE'' [k, ''1'']))) = (keyspace d)(k \<mapsto> (v, Some (clock env 1 + Second)))"
    and "\<not> is_error (snd (Dispatch u env d (bulkCmd ''EXPIRE'' [k, ''1''])))"
  using Dispatch_bulkCmd [OF assms(1) push_twice_names(2) push_twice_parse(2) [of k], of u env] assms(2)
  by (simp_all add: spec_expire_def)

lemma push_twice_run:
  fixes s :: server
  assumes ok: "db_ok (sv_db s)" and k: "keyspace (sv_db s) k = None" and t: "t0 + Second \<le> t1"
  shows "keyspace (sv_db (serve_all u (push_twice t0 t1 k a b) s)) k = Some (RList [b], None)"
    and "map snd (journal u (push_twice t0 t1 k a b) s) = map snd (push_twice t0 t1 k a b)"
proof -
  define s1 where "s1 = fst (server_apply u (all_well_at t0) s (bulkCmd ''RPUSH'' [k, a]))"
  define s2 where "s2 = fst (server_apply u (all_well_at t0) s1 (bulkCmd ''EXPIRE'' [k, ''1'']))"
  have w: "clock (w_env (all_well_at t)) n = t" for t n by (simp add: all_well_at_def)
  note ap = server_apply_reply
  have 1: "db_ok (sv_db s1)" "keyspace (sv_db s1) = (keyspace (sv_db s))(k \<mapsto> (RList [a], None))"
    "logged u (bulkCmd ''RPUSH'' [k, a]) (fst (snd (server_apply u (all_well_at t0) s (bulkCmd ''RPUSH'' [k, a])))) = [bulkCmd ''RPUSH'' [k, a]]"
    using pushes [OF ok, where u = u and env = "w_env (all_well_at t0)" and k = k and x = a] k
    by (simp_all add: s1_def ap live_def bulkCmd_logged push_twice_names)
  have 2: "db_ok (sv_db s2)" "keyspace (sv_db s2) = (keyspace (sv_db s))(k \<mapsto> (RList [a], Some (t0 + Second)))"
    "logged u (bulkCmd ''EXPIRE'' [k, ''1'']) (fst (snd (server_apply u (all_well_at t0) s1 (bulkCmd ''EXPIRE'' [k, ''1''])))) = [bulkCmd ''EXPIRE'' [k, ''1'']]"
    using expires_in_a_second [OF 1(1), where u = u and env = "w_env (all_well_at t0)" and k = k and v = "RList [a]" and y = None] 1(2)
    by (simp_all add: s2_def ap live_def dead_def bulkCmd_logged push_twice_names w)
  have "live t1 (keyspace (sv_db s2)) k = None" using t by (simp add: 2 live_def dead_def)
  note 3 = pushes(2) [OF 2(1), where u = u and env = "w_env (all_well_at t1)" and k = k and x = b, unfolded w, OF this]
  from 3 show "keyspace (sv_db (serve_all u (push_twice t0 t1 k a b) s)) k = Some (RList [b], None)"
    by (simp add: push_twice_def ap flip: s1_def s2_def)
  from 1(3) 2(3) 3 show "map snd (journal u (push_twice t0 t1 k a b) s) = map snd (push_twice t0 t1 k a b)"
    by (simp add: push_twice_def ap bulkCmd_logged push_twice_names flip: s1_def s2_def)
qed

lemma push_twice_replay:
  assumes ok: "db_ok d" and k: "keyspace d k = None"
  shows "keyspace (fst (foldl (replay_step u (\<lambda>_. at_time t)) (d, i) (map snd (push_twice t0 t1 k a b)))) k =
    Some (RList [a, b], Some (t + Second))"
proof -
  let ?D = "\<lambda>d r. fst (Dispatch u (at_time t) d r)"
  define d1 where "d1 = ?D d (bulkCmd ''RPUSH'' [k, a])"
  define d2 where "d2 = ?D d1 (bulkCmd ''EXPIRE'' [k, ''1''])"
  have 1: "db_ok d1" "keyspace d1 = (keyspace d)(k \<mapsto> (RList [a], None))"
    using pushes [OF ok, where u = u and env = "at_time t" and k = k and x = a] k by (simp_all add: d1_def live_def)
  have 2: "db_ok d2" "keyspace d2 = (keyspace d)(k \<mapsto> (RList [a], Some (t + Second)))"
    using expires_in_a_second [OF 1(1), where u = u and env = "at_time t" and k = k and v = "RList [a]" and y = None] 1(2) by (simp_all add: d2_def live_def dead_def)
  have "live t (keyspace d2) k = Some (RList [a], Some (t + Second))" by (simp add: 2 live_def dead_def)
  with pushes(3) [OF 2(1), where u = u and env = "at_time t" and k = k and x = b and l = "[a]"] show ?thesis
    by (simp add: push_twice_def replay_step_def flip: d1_def d2_def)
qed

lemma expired_data_returns:
  assumes inv: "log_inv u s0 cmds" and k: "keyspace (sv_db s0) k = None" and t: "t0 + Second \<le> t1"
    and wk: "\<forall>r \<in> snd ` set (push_twice t0 t1 k a b). wire_ok r" and s: "s = serve_all u (push_twice t0 t1 k a b) s0"
    and s1: "sv_disk s1 = sv_disk s" "sv_aofPath s1 = sv_aofPath s" "sv_db s1 = db_New" and os: "o_open os"
  obtains s' where "keyspace (sv_db s) k = Some (RList [b], None)" and "loadAOF u (\<lambda>_. at_time t2) True EOF os s1 = (s', True)"
    and "keyspace (sv_db s') k = Some (RList [a, b], Some (t2 + Second))"
proof -
  let ?reqs = "push_twice t0 t1 k a b"
  from inv obtain l where l: "sv_aof s0 = Some l" "aof_ok (sv_disk s0) (sv_aofPath s0) l" "log_bytes (sv_disk s0) l = concat (map wire cmds)"
    and cmds: "list_all wire_ok cmds" "list_all (ttl_free u) cmds" and db: "db_ok (sv_db s0)"
    and d: "keyspace (sv_db s0) = fold (spec_apply u) cmds Map.empty" by (auto simp: log_inv_def)
  have works: "log_works ?reqs" using wk by (simp add: push_twice_def all_well_at_def all_well_def log_works_def)
  note run = push_twice_run [OF db k t, of u a b]
  note log = serve_all_log [OF l works, of u, unfolded run(2)]
  let ?all = "cmds @ map snd ?reqs"
  have content: "read_path (sv_disk s1) (sv_aofPath s1) = Some (concat (map wire ?all) @ [])" and disk: "disk_ok (sv_disk s1)"
    using log by (simp_all add: s1 s)
  have "list_all wire_ok ?all" using cmds log by simp
  then obtain s' where ld: "loadAOF u (\<lambda>_. at_time t2) True EOF os s1 = (s', True)"
    "sv_db s' = fst (foldl (replay_step u (\<lambda>_. at_time t2)) (db_New, 0) ?all)"
    using loadAOF_replays [OF disk content s1(3) os, of u "\<lambda>_. at_time t2"] by blast
  define d0 where "d0 = fst (foldl (replay_step u (\<lambda>_. at_time t2)) (db_New, 0) cmds)"
  have d0: "foldl (replay_step u (\<lambda>_. at_time t2)) (db_New, 0) cmds = (d0, length cmds)"
    using replay_index [of u "\<lambda>_. at_time t2" db_New 0 cmds] by (simp add: d0_def prod_eq_iff)
  have "db_ok d0" "keyspace d0 k = None"
    using replay_commands(1,2) [OF cmds(2), of "\<lambda>_. at_time t2"] d k by (simp_all add: d0_def)
  from push_twice_replay [OF this, of u t2 "length cmds" t0 t1 a b] have "keyspace (sv_db s') k = Some (RList [a, b], Some (t2 + Second))"
    by (simp add: ld(2) d0)
  from that [OF run(1) [folded s] ld(1) this] show thesis .
qed

end
