(* ===== verification/Write_Path.thy ===== *)
theory Write_Path
  imports Durability
begin

text \<open>
  \<open>applyRecord\<close> under concurrency. Requests run in goroutines of their own; the write mutex covers
  dispatch, append and propagation of a write, but the check that decides between the locked and
  the lock-free path runs before it is taken. A thread's program counter says where in
  \<open>applyRecord\<close> it is; every interleaving of the steps below is a run.
\<close>

section \<open>Threads and steps\<close>

datatype pc =
    Idle
  | Fast resp
  | Waiting resp
  | Locked resp
  | Dispatched resp resp

record system =
  sy_server :: server
  sy_thread :: "nat \<Rightarrow> pc"
  sy_writeMu :: "nat option"

definition set_pc :: "system \<Rightarrow> nat \<Rightarrow> pc \<Rightarrow> system" where
  "set_pc S t p = S\<lparr>sy_thread := (sy_thread S)(t := p)\<rparr>"

definition set_db :: "system \<Rightarrow> db \<Rightarrow> system" where
  "set_db S d = S\<lparr>sy_server := (sy_server S)\<lparr>sv_db := d\<rparr>\<rparr>"

inductive thread_step :: "unicode \<Rightarrow> system \<Rightarrow> system \<Rightarrow> bool" for u where
  arrive: "sy_thread S t = Idle \<Longrightarrow> wire_ok r \<Longrightarrow> ttl_free u r \<Longrightarrow>
     thread_step u S (set_pc S t
       (if \<not> IsWrite u (commandName r) \<or> (sv_aof (sy_server S) = None \<and> \<not> Any (sv_replicas (sy_server S)))
        then Fast r else Waiting r))"
| run_fast: "sy_thread S t = Fast r \<Longrightarrow>
     thread_step u S (set_pc (set_db S (fst (Dispatch u env (sv_db (sy_server S)) r))) t Idle)"
| acquire: "sy_thread S t = Waiting r \<Longrightarrow> sy_writeMu S = None \<Longrightarrow>
     thread_step u S (set_pc (S\<lparr>sy_writeMu := Some t\<rparr>) t (Locked r))"
| dispatch: "sy_thread S t = Locked r \<Longrightarrow>
     thread_step u S (set_pc (set_db S (fst (Dispatch u env (sv_db (sy_server S)) r))) t
       (Dispatched r (snd (Dispatch u env (sv_db (sy_server S)) r))))"
| release: "sy_thread S t = Dispatched r reply \<Longrightarrow> o_write (w_os w) = None \<Longrightarrow> o_sync (w_os w) \<Longrightarrow>
     thread_step u S (set_pc
       (S\<lparr>sy_server := (if \<not> is_error reply then record_write w (sy_server S) r else sy_server S),
          sy_writeMu := None\<rparr>) t Idle)"
| compact: "sy_writeMu S = None \<Longrightarrow> r_reopen os \<or> \<not> r_rename os \<Longrightarrow>
     list_all wire_ok (snapshotCmds wenv (Snapshot env (sv_db (sy_server S)))) \<Longrightarrow>
     thread_step u S (S\<lparr>sy_server := fst (rewriteAOF os env wenv (sy_server S))\<rparr>)"
| join: "thread_step u S (S\<lparr>sy_server := (sy_server S)\<lparr>sv_replicas := fst (Add now (sv_replicas (sy_server S)) addr)\<rparr>\<rparr>)"

inductive_cases thread_stepE: "thread_step u S S'"

section \<open>The log is in the order of the store\<close>

definition in_section :: "pc \<Rightarrow> bool" where
  "in_section p = (case p of Locked _ \<Rightarrow> True | Dispatched _ _ \<Rightarrow> True | _ \<Rightarrow> False)"

definition pc_ok :: "unicode \<Rightarrow> pc \<Rightarrow> bool" where
  "pc_ok u p = (case p of
      Idle \<Rightarrow> True
    | Fast r \<Rightarrow> ttl_free u r \<and> \<not> IsWrite u (commandName r)
    | Waiting r \<Rightarrow> wire_ok r \<and> ttl_free u r \<and> IsWrite u (commandName r)
    | Locked r \<Rightarrow> wire_ok r \<and> ttl_free u r \<and> IsWrite u (commandName r)
    | Dispatched r reply \<Rightarrow> wire_ok r \<and> ttl_free u r \<and> IsWrite u (commandName r))"

lemma in_section_simps [simp]:
  "\<not> in_section Idle" "\<not> in_section (Fast r)" "\<not> in_section (Waiting r)" "in_section (Locked r)"
  "in_section (Dispatched r reply)"
  by (simp_all add: in_section_def)

lemma pc_ok_simps [simp]:
  "pc_ok u Idle" "pc_ok u (Fast r) \<longleftrightarrow> ttl_free u r \<and> \<not> IsWrite u (commandName r)"
  "pc_ok u (Waiting r) \<longleftrightarrow> wire_ok r \<and> ttl_free u r \<and> IsWrite u (commandName r)"
  "pc_ok u (Locked r) \<longleftrightarrow> wire_ok r \<and> ttl_free u r \<and> IsWrite u (commandName r)"
  "pc_ok u (Dispatched r reply) \<longleftrightarrow> wire_ok r \<and> ttl_free u r \<and> IsWrite u (commandName r)"
  by (simp_all add: pc_ok_def)

text \<open>The write that is in the store but not yet in the log.\<close>

definition in_flight :: "system \<Rightarrow> resp list" where
  "in_flight S = (case sy_writeMu S of
      None \<Rightarrow> []
    | Some t \<Rightarrow> (case sy_thread S t of Dispatched r reply \<Rightarrow> if is_error reply then [] else [r] | _ \<Rightarrow> []))"

definition system_inv :: "unicode \<Rightarrow> system \<Rightarrow> resp list \<Rightarrow> bool" where
  "system_inv u S cmds \<longleftrightarrow>
     (\<exists>a. sv_aof (sy_server S) = Some a \<and> aof_ok (sv_disk (sy_server S)) (sv_aofPath (sy_server S)) a \<and>
        log_bytes (sv_disk (sy_server S)) a = concat (map wire cmds)) \<and>
     list_all wire_ok cmds \<and> list_all (ttl_free u) cmds \<and>
     db_ok (sv_db (sy_server S)) \<and> no_ttl (keyspace (sv_db (sy_server S))) \<and>
     keyspace (sv_db (sy_server S)) = fold (spec_apply u) (cmds @ in_flight S) Map.empty \<and>
     (\<forall>t. pc_ok u (sy_thread S t)) \<and> (\<forall>t. in_section (sy_thread S t) \<longleftrightarrow> sy_writeMu S = Some t)"

lemma system_inv_log:
  "system_inv u S cmds \<Longrightarrow> sy_writeMu S = None \<Longrightarrow> log_inv u (sy_server S) cmds"
  unfolding system_inv_def log_inv_def in_flight_def by auto

lemma log_system_inv:
  assumes "log_inv u s cmds"
  shows "system_inv u \<lparr>sy_server = s, sy_thread = (\<lambda>_. Idle), sy_writeMu = None\<rparr> cmds"
  using assms unfolding system_inv_def log_inv_def in_flight_def by (auto simp: pc_ok_def in_section_def)

text \<open>Mutual exclusion, from the invariant: the thread in the section is the holder of the mutex.\<close>

lemma section_holder: "system_inv u S cmds \<Longrightarrow> in_section (sy_thread S t) \<longleftrightarrow> sy_writeMu S = Some t"
  by (simp add: system_inv_def)

lemma thread_pc_ok: "system_inv u S cmds \<Longrightarrow> pc_ok u (sy_thread S t)"
  by (simp add: system_inv_def)

lemma in_flight_pc:
  assumes "system_inv u S cmds" and "sy_thread S t = Dispatched r reply"
  shows "sy_writeMu S = Some t" and "in_flight S = (if is_error reply then [] else [r])"
proof -
  have "in_section (sy_thread S t)" using assms(2) by simp
  with assms(1) show "sy_writeMu S = Some t" by (simp add: system_inv_def)
  with assms(2) show "in_flight S = (if is_error reply then [] else [r])" by (simp add: in_flight_def)
qed

lemma step_arrive:
  assumes inv: "system_inv u S cmds" and t: "sy_thread S t = Idle" and r: "wire_ok r" "ttl_free u r"
    and p: "p = (if \<not> IsWrite u (commandName r) \<or> (sv_aof (sy_server S) = None \<and> \<not> Any (sv_replicas (sy_server S)))
        then Fast r else Waiting r)"
  shows "system_inv u (set_pc S t p) cmds"
proof -
  from inv have a: "sv_aof (sy_server S) \<noteq> None" and l: "sy_writeMu S \<noteq> Some t"
    using t section_holder [OF inv, of t] by (auto simp: system_inv_def)
  then have p': "p = (if IsWrite u (commandName r) then Waiting r else Fast r)" using p by auto
  have "in_flight (set_pc S t p) = in_flight S"
    using l t by (auto simp: in_flight_def set_pc_def split: option.splits)
  with inv l r show ?thesis
    unfolding system_inv_def by (auto simp: p' set_pc_def)
qed

lemma step_fast:
  assumes inv: "system_inv u S cmds" and t: "sy_thread S t = Fast r"
  shows "system_inv u (set_pc (set_db S (fst (Dispatch u env (sv_db (sy_server S)) r))) t Idle) cmds"
proof -
  let ?d = "sv_db (sy_server S)"
  from inv have pc: "pc_ok u (Fast r)" using t thread_pc_ok [OF inv, of t] by simp
  then have r: "ttl_free u r" "\<not> IsWrite u (commandName r)" by simp_all
  from inv have d: "db_ok ?d" "no_ttl (keyspace ?d)" by (auto simp: system_inv_def)
  have same: "keyspace (fst (Dispatch u env ?d r)) = keyspace ?d"
    using Dispatch_no_ttl [OF d r(1)] spec_apply_read [OF r(2)] by simp
  from inv have l: "sy_writeMu S \<noteq> Some t" using t section_holder [OF inv, of t] by auto
  let ?S = "set_pc (set_db S (fst (Dispatch u env ?d r))) t Idle"
  have "in_flight ?S = in_flight S"
    using l t by (auto simp: in_flight_def set_pc_def set_db_def split: option.splits)
  with inv l d same Dispatch_db_ok [OF d(1), of u env r] show ?thesis
    unfolding system_inv_def by (auto simp: set_pc_def set_db_def)
qed

lemma step_acquire:
  assumes inv: "system_inv u S cmds" and t: "sy_thread S t = Waiting r" and l: "sy_writeMu S = None"
  shows "system_inv u (set_pc (S\<lparr>sy_writeMu := Some t\<rparr>) t (Locked r)) cmds"
proof -
  from inv have "pc_ok u (Waiting r)" using t thread_pc_ok [OF inv, of t] by simp
  moreover from inv l have "\<And>t. \<not> in_section (sy_thread S t)" by (auto simp: system_inv_def)
  ultimately show ?thesis
    using inv l unfolding system_inv_def by (auto simp: set_pc_def in_flight_def)
qed

lemma step_dispatch:
  assumes inv: "system_inv u S cmds" and t: "sy_thread S t = Locked r"
  shows "system_inv u (set_pc (set_db S (fst (Dispatch u env (sv_db (sy_server S)) r))) t
       (Dispatched r (snd (Dispatch u env (sv_db (sy_server S)) r)))) cmds"
proof -
  let ?d = "sv_db (sy_server S)"
  let ?reply = "snd (Dispatch u env ?d r)"
  from inv have pc: "pc_ok u (Locked r)" using t thread_pc_ok [OF inv, of t] by simp
  then have r: "wire_ok r" "ttl_free u r" "IsWrite u (commandName r)" by simp_all
  have "in_section (sy_thread S t)" using t by simp
  with inv have l: "sy_writeMu S = Some t" by (simp add: system_inv_def)
  from inv have d: "db_ok ?d" "no_ttl (keyspace ?d)" "keyspace ?d = fold (spec_apply u) cmds Map.empty"
    using l t by (auto simp: system_inv_def in_flight_def)
  let ?S = "set_pc (set_db S (fst (Dispatch u env ?d r))) t (Dispatched r ?reply)"
  have fl: "in_flight ?S = logged u r ?reply" using l r(3) by (simp add: in_flight_def set_pc_def set_db_def logged_def)
  have "keyspace (fst (Dispatch u env ?d r)) = fold (spec_apply u) (cmds @ in_flight ?S) Map.empty"
    using Dispatch_no_ttl [OF d(1,2) r(2), of env] spec_apply_logged [OF d(1,2) r(2), of env] d(3) fl by simp
  with inv l d r Dispatch_db_ok [OF d(1), of u env r] Dispatch_no_ttl [OF d(1,2) r(2), of env] spec_apply_no_ttl [OF d(2) r(2)]
  show ?thesis
    unfolding system_inv_def by (auto simp: set_pc_def set_db_def)
qed

lemma step_release:
  assumes inv: "system_inv u S cmds" and t: "sy_thread S t = Dispatched r reply"
    and os: "o_write (w_os w) = None" "o_sync (w_os w)"
  shows "system_inv u (set_pc
       (S\<lparr>sy_server := (if \<not> is_error reply then record_write w (sy_server S) r else sy_server S),
          sy_writeMu := None\<rparr>) t Idle) (cmds @ in_flight S)"
proof -
  note fl = in_flight_pc [OF inv t]
  have pc: "wire_ok r" "ttl_free u r" using t thread_pc_ok [OF inv, of t] by simp_all
  let ?s' = "if \<not> is_error reply then record_write w (sy_server S) r else sy_server S"
  let ?S = "set_pc (S\<lparr>sy_server := ?s', sy_writeMu := None\<rparr>) t Idle"
  from inv obtain a where a: "sv_aof (sy_server S) = Some a"
      "aof_ok (sv_disk (sy_server S)) (sv_aofPath (sy_server S)) a"
      "log_bytes (sv_disk (sy_server S)) a = concat (map wire cmds)" by (auto simp: system_inv_def)
  have log: "\<exists>a. sv_aof ?s' = Some a \<and> aof_ok (sv_disk ?s') (sv_aofPath ?s') a \<and>
      log_bytes (sv_disk ?s') a = concat (map wire (cmds @ in_flight S))"
    using record_write_log [OF a(1,2) pc(1) os] a fl by (cases "is_error reply") auto
  have threads: "in_section (sy_thread ?S t') \<longleftrightarrow> sy_writeMu ?S = Some t'" "pc_ok u (sy_thread ?S t')" for t'
    using section_holder [OF inv, of t'] thread_pc_ok [OF inv, of t'] fl(1) by (auto simp: set_pc_def)
  have "in_flight ?S = []" by (simp add: in_flight_def set_pc_def)
  with inv log threads pc fl(2) show ?thesis
    unfolding system_inv_def by (auto simp: set_pc_def split: if_splits)
qed

lemma step_compact:
  assumes inv: "system_inv u S cmds" and l: "sy_writeMu S = None" and re: "r_reopen os \<or> \<not> r_rename os"
    and sizes: "list_all wire_ok (snapshotCmds wenv (Snapshot env (sv_db (sy_server S))))"
  shows "\<exists>cmds'. system_inv u (S\<lparr>sy_server := fst (rewriteAOF os env wenv (sy_server S))\<rparr>) cmds'"
proof -
  note log = system_inv_log [OF inv l]
  obtain s1 ok where rw: "rewriteAOF os env wenv (sy_server S) = (s1, ok)" by fastforce
  obtain cmds' where "log_inv u s1 cmds'"
    using rewrite_keeps_log [OF log, of os env wenv s1] rewrite_failure_keeps_log [OF log, of os env wenv s1] re sizes rw
    by (cases ok) auto
  with inv l rw have "system_inv u (S\<lparr>sy_server := fst (rewriteAOF os env wenv (sy_server S))\<rparr>) cmds'"
    unfolding system_inv_def log_inv_def by (auto simp: in_flight_def)
  then show ?thesis by blast
qed

lemma in_flight_server [simp]: "in_flight (S\<lparr>sy_server := s\<rparr>) = in_flight S"
  by (simp add: in_flight_def split: option.splits pc.splits)

lemma thread_step_inv:
  assumes step: "thread_step u S S'" and inv: "system_inv u S cmds"
  shows "\<exists>cmds'. system_inv u S' cmds'"
  using step
proof cases
  case (arrive t r)
  then show ?thesis using step_arrive [OF inv] by blast
next
  case (run_fast t r env)
  then show ?thesis using step_fast [OF inv] by blast
next
  case (acquire t r)
  then show ?thesis using step_acquire [OF inv] by blast
next
  case (dispatch t r env)
  then show ?thesis using step_dispatch [OF inv] by blast
next
  case (release t r reply w)
  then show ?thesis using step_release [OF inv] by blast
next
  case (compact os wenv env)
  then show ?thesis using step_compact [OF inv] by blast
next
  case (join now addr)
  with inv have "system_inv u S' cmds" unfolding system_inv_def by auto
  then show ?thesis by blast
qed

lemma interleavings_keep_log:
  assumes "(thread_step u)\<^sup>*\<^sup>* S S'" and "system_inv u S cmds"
  shows "\<exists>cmds'. system_inv u S' cmds'"
  using assms by (induction rule: rtranclp_induct) (auto dest: thread_step_inv)

section \<open>Without a log the lock-free path can overtake\<close>

text \<open>
  The decision for the lock-free path is made before the dispatch. With no log and no replica yet,
  a write can decide for it, be overtaken by a replica joining and a second write, and only then
  reach the store: the store ends with the first value and the replica's feed with the second.
\<close>

definition set_req :: "string \<Rightarrow> string \<Rightarrow> resp" where
  "set_req k v = bulkCmd ''SET'' [k, v]"

lemma set_req_props:
  "IsWrite u (commandName (set_req k v))" "ttl_free u (set_req k v)"
  "int (length k) + 2 \<le> maxAlloc \<Longrightarrow> int (length v) + 2 \<le> maxAlloc \<Longrightarrow> wire_ok (set_req k v)"
proof -
  have "ToUpper u ''SET'' = ''SET''" by (simp add: write_name_upper writeCommands_def)
  then show "IsWrite u (commandName (set_req k v))" "ttl_free u (set_req k v)"
    by (simp_all add: set_req_def bulkCmd_def IsWrite_def commandName_def val_defs writeCommands_def
        ttl_free_def req_name_def)
  show "int (length k) + 2 \<le> maxAlloc \<Longrightarrow> int (length v) + 2 \<le> maxAlloc \<Longrightarrow> wire_ok (set_req k v)"
    by (simp add: set_req_def bulkCmd_def maxAlloc_def)
qed

lemma Dispatch_set_req:
  assumes "db_ok d"
  shows "db_ok (fst (Dispatch u env d (set_req k v)))"
    and "keyspace (fst (Dispatch u env d (set_req k v))) = (keyspace d)(k \<mapsto> (RString v, None))"
    and "\<not> is_error (snd (Dispatch u env d (set_req k v)))"
    and "snd (Dispatch u env d (set_req k v)) = okValue"
proof -
  have n: "req_name u (set_req k v) = ''SET''" "well_formed (set_req k v)"
    "req_args (set_req k v) = [BulkString (Some k), BulkString (Some v)]"
    by (simp_all add: req_name_def req_args_def well_formed_def set_req_def bulkCmd_def val_defs
        write_name_upper writeCommands_def)
  have "parse_write ''SET'' [BulkString (Some k), BulkString (Some v)] = Some (WSet k v)"
    by (simp add: parse_other)
  with Dispatch_write [OF assms n(2), of u env, unfolded n(1,3)] show
    "db_ok (fst (Dispatch u env d (set_req k v)))"
    "keyspace (fst (Dispatch u env d (set_req k v))) = (keyspace d)(k \<mapsto> (RString v, None))"
    "\<not> is_error (snd (Dispatch u env d (set_req k v)))" "snd (Dispatch u env d (set_req k v)) = okValue"
    by (auto simp: writeCommands_def)
qed

text \<open>The run, with an empty store, thread 0 writing \<open>a\<close>, thread 1 writing \<open>b\<close>.\<close>

text \<open>A write that takes the mutex and runs alone.\<close>

lemma locked_write:
  assumes idle: "sy_thread S t = Idle" "sy_writeMu S = None" and any: "Any (sv_replicas (sy_server S))"
    and r: "wire_ok r" "ttl_free u r" "IsWrite u (commandName r)"
    and reply: "\<not> is_error (snd (Dispatch u env (sv_db (sy_server S)) r))" and os: "o_write (w_os w) = None" "o_sync (w_os w)"
  shows "(thread_step u)\<^sup>*\<^sup>* S
    (S\<lparr>sy_server := record_write w ((sy_server S)\<lparr>sv_db := fst (Dispatch u env (sv_db (sy_server S)) r)\<rparr>) r\<rparr>)"
proof -
  let ?d = "Dispatch u env (sv_db (sy_server S)) r"
  define S1 where "S1 = set_pc S t (Waiting r)"
  have 1: "thread_step u S S1" using thread_step.arrive [of S t r u] idle any r by (simp add: S1_def)
  define S2 where "S2 = set_pc (S1\<lparr>sy_writeMu := Some t\<rparr>) t (Locked r)"
  have 2: "thread_step u S1 S2" using thread_step.acquire [of S1 t r u] idle by (simp add: S2_def S1_def set_pc_def)
  define S3 where "S3 = set_pc (set_db S2 (fst ?d)) t (Dispatched r (snd ?d))"
  have 3: "thread_step u S2 S3"
    using thread_step.dispatch [of S2 t r u env] by (simp add: S3_def S2_def S1_def set_pc_def)
  define S4 where "S4 = set_pc (S3\<lparr>sy_server := record_write w (sy_server S3) r, sy_writeMu := None\<rparr>) t Idle"
  have 4: "thread_step u S3 S4"
    using thread_step.release [of S3 t r "snd ?d" w u] reply os by (simp add: S4_def S3_def set_pc_def)
  have "(sy_thread S)(t := Idle) = sy_thread S" using idle(1) by (simp add: fun_upd_idem)
  then have "S4 = S\<lparr>sy_server := record_write w ((sy_server S)\<lparr>sv_db := fst ?d\<rparr>) r\<rparr>"
    using idle(2) by (simp add: S4_def S3_def S2_def S1_def set_pc_def set_db_def)
  with 1 2 3 4 show ?thesis by (metis converse_rtranclp_into_rtranclp rtranclp.rtrancl_refl)
qed

lemma overtaking:
  assumes ok: "db_ok (sv_db (sy_server S))" "replicas_ok (sv_replicas (sy_server S))"
    and idle: "sy_thread S = (\<lambda>_. Idle)" "sy_writeMu S = None"
    and off: "sv_aof (sy_server S) = None" "reps (sv_replicas (sy_server S)) = []"
    and req: "wire_ok (set_req k a)" "wire_ok (set_req k b)"
  obtains S' i where "(thread_step u)\<^sup>*\<^sup>* S S'" and "sy_thread S' = (\<lambda>_. Idle)" and "sy_writeMu S' = None"
    and "keyspace (sv_db (sy_server S')) = (keyspace (sv_db (sy_server S)))(k \<mapsto> (RString a, None))"
    and "queues (sv_replicas (sy_server S')) i = Some \<lparr>buffer = [wire (set_req k b)], closed = False\<rparr>"
    and "i \<in> feeds (sv_replicas (sy_server S'))"
proof -
  note req_w = set_req_props(1,2) [of u k]
  let ?env = "at_time 0" and ?d = "sv_db (sy_server S)"
  let ?w = "\<lparr>w_env = ?env, w_os = all_well, w_order = []\<rparr>"
  define S1 where "S1 = set_pc S 0 (Fast (set_req k a))"
  have 1: "thread_step u S S1"
    using thread_step.arrive [of S 0 "set_req k a" u] idle off req(1) req_w by (simp add: S1_def Any_def)
  obtain r i where add: "Add 0 (sv_replicas (sy_server S)) ''replica'' = (r, i)" by fastforce
  note r = replicas_ok_Add [OF ok(2) add]
  define S2 where "S2 = S1\<lparr>sy_server := (sy_server S)\<lparr>sv_replicas := r\<rparr>\<rparr>"
  have 2: "thread_step u S1 S2"
    using thread_step.join [of u S1 0 "''replica''"] add by (simp add: S1_def S2_def set_pc_def)
  have "Any r" using r(2) by (auto simp: Any_def feeds_def)
  note db = Dispatch_set_req [OF ok(1), of u ?env k b]
  define S3 where "S3 = S2\<lparr>sy_server := record_write ?w ((sy_server S2)\<lparr>sv_db := fst (Dispatch u ?env ?d (set_req k b))\<rparr>) (set_req k b)\<rparr>"
  have 3: "(thread_step u)\<^sup>*\<^sup>* S2 S3"
    using locked_write [of S2 1 "set_req k b" u ?env ?w] idle req(2) req_w db(3) \<open>Any r\<close>
    by (simp add: S3_def S2_def S1_def set_pc_def all_well_def)
  have S3: "sv_db (sy_server S3) = fst (Dispatch u ?env ?d (set_req k b))" "sv_replicas (sy_server S3) = Propagate [] r (set_req k b)"
    using off by (simp_all add: S3_def S2_def record_write_def)
  note da = Dispatch_set_req [OF db(1), of u ?env k a]
  define S4 where "S4 = set_pc (set_db S3 (fst (Dispatch u ?env (sv_db (sy_server S3)) (set_req k a)))) 0 Idle"
  have 4: "thread_step u S3 S4"
    using thread_step.run_fast [of S3 0 "set_req k a" u ?env] by (simp add: S4_def S3_def S2_def S1_def set_pc_def)
  obtain f where e: "Encode (set_req k b) = (f, True)" using Encode_ok(1) [OF req(2)] by (metis prod.collapse)
  note prp = Propagate_spec [OF r(1) e, of "[]"]
  show thesis
  proof (rule that [of S4 i])
    show "(thread_step u)\<^sup>*\<^sup>* S S4"
      using 1 2 3 4 by (meson converse_rtranclp_into_rtranclp rtranclp.rtrancl_into_rtrancl)
    show "sy_thread S4 = (\<lambda>_. Idle)" "sy_writeMu S4 = None"
      using idle by (auto simp: fun_eq_iff S4_def S3_def S2_def S1_def set_pc_def set_db_def)
    show "keyspace (sv_db (sy_server S4)) = (keyspace ?d)(k \<mapsto> (RString a, None))"
      using da(2) db(2) by (simp add: S4_def set_pc_def set_db_def S3)
    have "sv_replicas (sy_server S4) = Propagate [] r (set_req k b)"
      by (simp add: S4_def set_pc_def set_db_def S3)
    with prp(2,3) r e show "queues (sv_replicas (sy_server S4)) i = Some \<lparr>buffer = [wire (set_req k b)], closed = False\<rparr>"
      "i \<in> feeds (sv_replicas (sy_server S4))"
      by (simp_all add: has_room_def make_chan_def feeds_def)
  qed
qed

end
