(* ===== verification/Connection.thy ===== *)
theory Connection
  imports Server
begin

text \<open>
  One client connection: \<open>internal/server/connection.go\<close>, \<open>pubsub.go\<close> and \<open>replication.go\<close>. The
  outcome of the \<open>k\<close>-th write on the socket is \<open>net k\<close>: \<open>None\<close> for success, \<open>Some n\<close> for an error
  after \<open>n\<close> bytes.
\<close>

section \<open>Connection state and writing\<close>

record conn =
  cs_out :: string
  cs_buf :: string
  cs_broken :: bool
  cs_count :: nat
  cs_remote :: string
  cs_sub :: "nat option"
  cs_channels :: "(string, unit) gomap"
  cs_replica :: "nat option"

definition new_conn :: "string \<Rightarrow> conn" where
  "new_conn remote = \<lparr>cs_out = [], cs_buf = [], cs_broken = False, cs_count = 0, cs_remote = remote,
     cs_sub = None, cs_channels = [], cs_replica = None\<rparr>"

definition subscribed :: "conn \<Rightarrow> bool" where
  "subscribed cs \<longleftrightarrow> 0 < length (cs_channels cs)"

type_synonym net = "nat \<Rightarrow> nat option"

text \<open>Writing a serialised frame and flushing it; the buffer's error is sticky.\<close>

definition writeRaw :: "net \<Rightarrow> conn \<Rightarrow> string \<Rightarrow> conn \<times> bool" where
  "writeRaw net cs frame =
     (if cs_broken cs then (cs, False)
      else let bs = cs_buf cs @ frame
           in case net (cs_count cs) of
                None \<Rightarrow> (cs\<lparr>cs_out := cs_out cs @ bs, cs_buf := [], cs_count := Suc (cs_count cs)\<rparr>, True)
              | Some n \<Rightarrow>
                  (cs\<lparr>cs_out := cs_out cs @ take n bs, cs_buf := drop n bs, cs_broken := True,
                      cs_count := Suc (cs_count cs)\<rparr>, False))"

text \<open>\<open>write\<close>: a value \<open>Encode\<close> rejects stays in the buffer, unflushed.\<close>

definition conn_write :: "net \<Rightarrow> conn \<Rightarrow> resp \<Rightarrow> conn \<times> bool" where
  "conn_write net cs v =
     (if cs_broken cs then (cs, False)
      else case Encode v of
             (bs, False) \<Rightarrow> (cs\<lparr>cs_buf := cs_buf cs @ bs\<rparr>, False)
           | (bs, True) \<Rightarrow> writeRaw net cs bs)"

section \<open>Replies\<close>

definition subscribeReply :: "string \<Rightarrow> string \<Rightarrow> nat \<Rightarrow> resp" where
  "subscribeReply kind channel n =
     ArrayV (Some [BulkString (Some kind), BulkString (Some channel), IntegerV (int n)])"

definition subscribeReplyNull :: "string \<Rightarrow> nat \<Rightarrow> resp" where
  "subscribeReplyNull kind n =
     ArrayV (Some [BulkString (Some kind), BulkString None, IntegerV (int n)])"

definition messageReply :: "string \<Rightarrow> string \<Rightarrow> resp" where
  "messageReply channel payload =
     ArrayV (Some [BulkString (Some ''message''), BulkString (Some channel), BulkString (Some payload)])"

definition errorVal :: "string \<Rightarrow> resp" where "errorVal msg = ErrorV msg"

definition okVal :: resp where "okVal = SimpleString ''OK''"

definition allowedWhileSubscribed :: "string list" where
  "allowedWhileSubscribed = [''SUBSCRIBE'', ''UNSUBSCRIBE'', ''PING'', ''QUIT'']"

definition refused :: "unicode \<Rightarrow> string \<Rightarrow> resp" where
  "refused u name =
     errorVal (''ERR Can'' @ [CHR 0x27] @ ''t execute '' @ [CHR 0x27] @ ToLower u name @ [CHR 0x27] @
       '': only (UN)SUBSCRIBE / PING / QUIT are allowed in subscribe context'')"

definition readonly :: resp where
  "readonly = errorVal (''READONLY You can'' @ [CHR 0x27] @ ''t write against a read only replica.'')"

section \<open>Publish/subscribe commands\<close>

definition set_broker :: "server \<Rightarrow> broker \<Rightarrow> server" where
  "set_broker s b = s\<lparr>sv_db := (sv_db s)\<lparr>pubsub := b\<rparr>\<rparr>"

abbreviation broker_of :: "server \<Rightarrow> broker" where "broker_of s \<equiv> pubsub (sv_db s)"

fun subscribe_loop :: "net \<Rightarrow> nat \<Rightarrow> server \<Rightarrow> conn \<Rightarrow> resp list \<Rightarrow> server \<times> conn \<times> bool" where
  "subscribe_loop net sub s cs [] = (s, cs, True)"
| "subscribe_loop net sub s cs (c # channels) =
     (let channel = bulk_str c;
          already = (map_of (cs_channels cs) channel \<noteq> None);
          cs1 = (if already then cs else cs\<lparr>cs_channels := AList.update channel () (cs_channels cs)\<rparr>);
          s1 = (if already then s else set_broker s (Subscribe (broker_of s) channel sub))
      in case conn_write net cs1 (subscribeReply ''subscribe'' channel (length (cs_channels cs1))) of
           (cs2, False) \<Rightarrow> (s1, cs2, False)
         | (cs2, True) \<Rightarrow> subscribe_loop net sub s1 cs2 channels)"

text \<open>The mailbox is created on the first \<open>SUBSCRIBE\<close>; its delivery goroutine is \<open>deliver\<close>.\<close>

definition conn_subscribe :: "net \<Rightarrow> server \<Rightarrow> conn \<Rightarrow> resp list \<Rightarrow> server \<times> conn \<times> bool" where
  "conn_subscribe net s cs channels =
     (if channels = []
      then (case conn_write net cs
              (errorVal (''ERR wrong number of arguments for '' @ [CHR 0x27] @ ''subscribe'' @ [CHR 0x27] @ '' command'')) of
              (cs', ok) \<Rightarrow> (s, cs', ok))
      else case cs_sub cs of
             Some sub \<Rightarrow> subscribe_loop net sub s cs channels
           | None \<Rightarrow>
               (case NewSubscriber (broker_of s) of
                  (b, sub) \<Rightarrow>
                    subscribe_loop net sub (set_broker s b) (cs\<lparr>cs_sub := Some sub, cs_channels := []\<rparr>) channels))"

text \<open>\<open>cs_sub\<close> is set whenever a channel is held, so the nil case of \<open>Unsubscribe\<close> does not arise.\<close>

fun unsubscribe_loop :: "net \<Rightarrow> server \<Rightarrow> conn \<Rightarrow> string list \<Rightarrow> server \<times> conn \<times> bool" where
  "unsubscribe_loop net s cs [] = (s, cs, True)"
| "unsubscribe_loop net s cs (channel # targets) =
     (let held = (map_of (cs_channels cs) channel \<noteq> None);
          cs1 = (if held then cs\<lparr>cs_channels := AList.delete channel (cs_channels cs)\<rparr> else cs);
          s1 = (if held then (case cs_sub cs of
                                None \<Rightarrow> s
                              | Some sub \<Rightarrow> set_broker s (Unsubscribe (broker_of s) channel sub))
                else s)
      in case conn_write net cs1 (subscribeReply ''unsubscribe'' channel (length (cs_channels cs1))) of
           (cs2, False) \<Rightarrow> (s1, cs2, False)
         | (cs2, True) \<Rightarrow> unsubscribe_loop net s1 cs2 targets)"

definition conn_unsubscribe :: "choices \<Rightarrow> net \<Rightarrow> server \<Rightarrow> conn \<Rightarrow> resp list \<Rightarrow> server \<times> conn \<times> bool" where
  "conn_unsubscribe order net s cs channels =
     (let targets = (if channels = [] then map fst (go_range order (cs_channels cs)) else map bulk_str channels)
      in if targets = []
         then (case conn_write net cs (subscribeReplyNull ''unsubscribe'' 0) of (cs', ok) \<Rightarrow> (s, cs', ok))
         else unsubscribe_loop net s cs targets)"

text \<open>One round of the delivery goroutine: it ends on a closed, drained mailbox or a failed write.\<close>

definition deliver :: "net \<Rightarrow> server \<Rightarrow> conn \<Rightarrow> server \<times> conn \<times> bool" where
  "deliver net s cs =
     (case cs_sub cs of
        None \<Rightarrow> (s, cs, False)
      | Some sub \<Rightarrow>
          (case mailboxes (broker_of s) sub of
             None \<Rightarrow> (s, cs, False)
           | Some ch \<Rightarrow>
               (case recv ch of
                  Received msg ch' \<Rightarrow>
                    (case conn_write net cs (messageReply (msg_Channel msg) (msg_Payload msg)) of
                       (cs', ok) \<Rightarrow>
                         (set_broker s ((broker_of s)\<lparr>mailboxes := (mailboxes (broker_of s))(sub \<mapsto> ch')\<rparr>), cs', ok))
                | Drained \<Rightarrow> (s, cs, False)
                | Blocked \<Rightarrow> (s, cs, True))))"

definition unsubscribeAll :: "choices \<Rightarrow> server \<Rightarrow> conn \<Rightarrow> server" where
  "unsubscribeAll order s cs =
     (case cs_sub cs of
        None \<Rightarrow> s
      | Some sub \<Rightarrow>
          let b = fold (\<lambda>(channel, _) b. Unsubscribe b channel sub) (go_range order (cs_channels cs)) (broker_of s)
          in set_broker s (CloseSub b sub))"

section \<open>Replication commands\<close>

definition conn_replicaof :: "int \<Rightarrow> net \<Rightarrow> server \<Rightarrow> conn \<Rightarrow> server \<times> conn \<times> bool" where
  "conn_replicaof now net s cs =
     (case conn_write net cs okVal of
        (cs1, False) \<Rightarrow> (s, cs1, False)
      | (cs1, True) \<Rightarrow>
          (case Add now (sv_replicas s) (cs_remote cs) of
             (r, rep) \<Rightarrow> (s\<lparr>sv_replicas := r\<rparr>, cs1\<lparr>cs_replica := Some rep\<rparr>, True)))"

text \<open>One round of the feed's delivery goroutine.\<close>

definition deliverReplica :: "net \<Rightarrow> server \<Rightarrow> conn \<Rightarrow> server \<times> conn \<times> bool" where
  "deliverReplica net s cs =
     (case cs_replica cs of
        None \<Rightarrow> (s, cs, False)
      | Some rep \<Rightarrow>
          (case queues (sv_replicas s) rep of
             None \<Rightarrow> (s, cs, False)
           | Some ch \<Rightarrow>
               (case recv ch of
                  Received frame ch' \<Rightarrow>
                    (case writeRaw net cs frame of
                       (cs', ok) \<Rightarrow>
                         (s\<lparr>sv_replicas := (sv_replicas s)\<lparr>queues := (queues (sv_replicas s))(rep \<mapsto> ch')\<rparr>\<rparr>, cs', ok))
                | Drained \<Rightarrow> (s, cs, False)
                | Blocked \<Rightarrow> (s, cs, True))))"

definition removeReplica :: "server \<Rightarrow> conn \<Rightarrow> server" where
  "removeReplica s cs =
     (case cs_replica cs of
        None \<Rightarrow> s
      | Some rep \<Rightarrow> s\<lparr>sv_replicas := Remove (sv_replicas s) rep\<rparr>)"

section \<open>Serving a request\<close>

text \<open>\<open>w_order\<close> also orders the iteration over the channels of an \<open>UNSUBSCRIBE\<close> without arguments.\<close>

definition serve :: "unicode \<Rightarrow> world \<Rightarrow> net \<Rightarrow> server \<Rightarrow> conn \<Rightarrow> resp \<Rightarrow> server \<times> conn \<times> bool" where
  "serve u w net s cs request =
     (let name = ToUpper u (commandName request)
      in if subscribed cs \<and> name \<notin> set allowedWhileSubscribed
         then (case conn_write net cs (refused u name) of (cs', ok) \<Rightarrow> (s, cs', ok))
         else if name = ''SUBSCRIBE'' then conn_subscribe net s cs (tl (val_Array request))
         else if name = ''UNSUBSCRIBE'' then conn_unsubscribe (w_order w) net s cs (tl (val_Array request))
         else if name = ''REPLICAOF'' then conn_replicaof (clock (w_env w) 0) net s cs
         else if name = ''REPLCONF'' then
           (case cs_replica cs of
              Some rep \<Rightarrow> (s\<lparr>sv_replicas := Acked (clock (w_env w) 0) (sv_replicas s) rep\<rparr>, cs, True)
            | None \<Rightarrow> (case conn_write net cs okVal of (cs', ok) \<Rightarrow> (s, cs', ok)))
         else if name = ''QUIT'' then (s, fst (conn_write net cs okVal), False)
         else if sv_primaryAddr s \<noteq> [] \<and> IsWrite u name
           then (case conn_write net cs readonly of (cs', ok) \<Rightarrow> (s, cs', ok))
         else (case server_apply u w s request of
                 (s', reply, _) \<Rightarrow> (case conn_write net cs reply of (cs', ok) \<Rightarrow> (s', cs', ok))))"

text \<open>How \<open>fmt\<close> quotes the bytes of a protocol error is not under the repository's control.\<close>

record quoting =
  quote_byte :: "char \<Rightarrow> string"
  quote_string :: "string \<Rightarrow> string"

definition err_Error :: "quoting \<Rightarrow> io_err \<Rightarrow> string" where
  "err_Error q err =
     (case err of
        EOF \<Rightarrow> ''EOF''
      | UnexpectedEOF \<Rightarrow> ''unexpected EOF''
      | UnknownType c \<Rightarrow> ''protocol error: unknown type byte '' @ quote_byte q c
      | BulkNotCRLF \<Rightarrow> ''protocol error: bulk string not terminated by CRLF''
      | LineNotCRLF \<Rightarrow> ''protocol error: line not terminated by CRLF''
      | InvalidInteger line \<Rightarrow> ''protocol error: invalid integer '' @ quote_string q line
      | OtherIO msg \<Rightarrow> msg)"

text \<open>The request loop on the bytes a client sends; \<open>None\<close> is the crash of the process by a panic.\<close>

function handle_loop ::
  "unicode \<Rightarrow> quoting \<Rightarrow> (nat \<Rightarrow> world) \<Rightarrow> net \<Rightarrow> io_err \<Rightarrow> string \<Rightarrow> nat \<Rightarrow> server \<Rightarrow> conn \<Rightarrow> (server \<times> conn) option" where
  "handle_loop u q ws net e bs i s cs =
     (case Decode e bs of
        Panic \<Rightarrow> None
      | Fail x \<Rightarrow>
          if x = EOF then Some (s, cs)
          else if x = UnexpectedEOF then Some (s, cs)
          else Some (s, fst (conn_write net cs (ErrorV (''ERR '' @ err_Error q x))))
      | Ret request r \<Rightarrow>
          (case serve u (ws i) net s cs request of
             (s', cs', False) \<Rightarrow> Some (s', cs')
           | (s', cs', True) \<Rightarrow> handle_loop u q ws net e r (Suc i) s' cs'))"
  by pat_completeness auto
termination
  by (relation "measure (\<lambda>(u, q, ws, net, e, bs, i, s, cs). length bs)") (auto dest: Decode_shorter)

declare handle_loop.simps [simp del]

text \<open>The whole life of a connection: the deferred calls run in reverse order.\<close>

definition handle ::
  "unicode \<Rightarrow> quoting \<Rightarrow> (nat \<Rightarrow> world) \<Rightarrow> net \<Rightarrow> io_err \<Rightarrow> choices \<Rightarrow> string \<Rightarrow> string \<Rightarrow> server \<Rightarrow> (server \<times> conn) option" where
  "handle u q ws net e order remote bs s =
     (case handle_loop u q ws net e bs 0 s (new_conn remote) of
        None \<Rightarrow> None
      | Some (s', cs) \<Rightarrow> Some (unsubscribeAll order (removeReplica s' cs) cs, cs))"

end
