(* ===== verification/Sessions.thy ===== *)
theory Sessions
  imports Connection
begin

text \<open>
  Invariants of connections: the channels a connection holds are exactly those its mailbox is
  registered on, every request keeps it so for this and for every other connection, and tearing a
  connection down leaves no registration behind and never sends on or closes a closed channel.
\<close>

section \<open>Only PUBLISH touches the broker\<close>

lemma store_pubsub [simp]:
  "pubsub (fst (db_LPush env d k vs)) = pubsub d" "pubsub (fst (db_RPush env d k vs)) = pubsub d"
  "pubsub (fst (db_LPop env d k)) = pubsub d" "pubsub (fst (db_RPop env d k)) = pubsub d"
  "pubsub (fst (db_HSet env d k ps)) = pubsub d" "pubsub (fst (db_HDel env d k vs)) = pubsub d"
  "pubsub (fst (db_SAdd env d k vs)) = pubsub d" "pubsub (fst (db_SRem env d k vs)) = pubsub d"
  "pubsub (fst (db_Expire env d k dur)) = pubsub d" "pubsub (fst (db_Persist env d k)) = pubsub d"
  "pubsub (fst (db_Get env d k)) = pubsub d" "pubsub (db_Set d k v) = pubsub d"
  by (simp_all add: db_LPush_def db_RPush_def db_LPop_def db_RPop_def db_HSet_def db_HDel_def db_SAdd_def
      db_SRem_def db_Expire_def db_Persist_def db_Get_def expireIfNeeded_def db_Set_def Let_def
      split: prod.splits sum.splits option.splits list.splits)

lemma db_Del_pubsub [simp]: "pubsub (fst (db_Del env d ks)) = pubsub d"
  by (induction env d ks rule: db_Del.induct) (auto split: prod.splits option.splits)

lemma handler_pubsub:
  assumes "map_of commands name = Some h" and "name \<noteq> ''PUBLISH''"
  shows "pubsub (fst (h env d args)) = pubsub d"
proof -
  have "h \<in> {cmd_Ping, cmd_Echo, cmd_Set, cmd_Get, cmd_Del, cmd_Exists, cmd_LPush, cmd_RPush, cmd_LPop, cmd_RPop,
      cmd_LRange, cmd_LLen, cmd_HSet, cmd_HGet, cmd_HDel, cmd_HGetAll, cmd_HKeys, cmd_HVals, cmd_HLen, cmd_SAdd,
      cmd_SRem, cmd_SIsMember, cmd_SMembers, cmd_SCard, cmd_Expire, cmd_PExpire, cmd_TTL, cmd_PTTL, cmd_Persist}"
    using assms by (auto simp: commands_def split: if_splits)
  moreover have "pubsub (fst (cmd_Set env d args)) = pubsub d" "pubsub (fst (cmd_Get env d args)) = pubsub d"
    "pubsub (fst (cmd_Del env d args)) = pubsub d" "pubsub (fst (cmd_Persist env d args)) = pubsub d"
    by (simp_all add: cmd_Set_def cmd_Get_def cmd_Del_def cmd_Persist_def bulk_case bool_case case_prod_beta)
  moreover have "pubsub (fst (cmd_LPush env d args)) = pubsub d" "pubsub (fst (cmd_RPush env d args)) = pubsub d"
    "pubsub (fst (cmd_LPop env d args)) = pubsub d" "pubsub (fst (cmd_RPop env d args)) = pubsub d"
    "pubsub (fst (cmd_HSet env d args)) = pubsub d" "pubsub (fst (cmd_HDel env d args)) = pubsub d"
    "pubsub (fst (cmd_SAdd env d args)) = pubsub d" "pubsub (fst (cmd_SRem env d args)) = pubsub d"
    by (simp_all add: cmd_LPush_def cmd_RPush_def cmd_LPop_def cmd_RPop_def cmd_HSet_def cmd_HDel_def cmd_SAdd_def
        cmd_SRem_def count_case bulk_case)
  moreover have "pubsub (fst (cmd_Expire env d args)) = pubsub d" "pubsub (fst (cmd_PExpire env d args)) = pubsub d"
    by (simp_all add: cmd_Expire_def cmd_PExpire_def bool_case split: option.split)
  moreover have "fst (cmd_Exists env d args) = d" "fst (cmd_LRange env d args) = d" "fst (cmd_LLen env d args) = d"
    "fst (cmd_HGet env d args) = d" "fst (cmd_HGetAll env d args) = d" "fst (cmd_HKeys env d args) = d"
    "fst (cmd_HVals env d args) = d" "fst (cmd_HLen env d args) = d" "fst (cmd_SIsMember env d args) = d"
    "fst (cmd_SMembers env d args) = d" "fst (cmd_SCard env d args) = d" "fst (cmd_TTL env d args) = d"
    "fst (cmd_PTTL env d args) = d"
    by (simp_all add: cmd_Exists_def cmd_LRange_def cmd_LLen_def cmd_HGet_def cmd_HGetAll_def cmd_HKeys_def
        cmd_HVals_def cmd_HLen_def cmd_SIsMember_def cmd_SMembers_def cmd_SCard_def cmd_TTL_def cmd_PTTL_def
        split: sum.split option.split prod.split)
  ultimately show ?thesis using ping_echo_frame [of env d args] by auto
qed

text \<open>What no command changes of the broker: the registrations and which mailboxes are open.\<close>

definition is_open :: "broker \<Rightarrow> nat \<Rightarrow> bool" where
  "is_open b m \<longleftrightarrow> (\<exists>ch. mailboxes b m = Some ch \<and> \<not> closed ch)"

lemma Publish_open:
  assumes "broker_ok b"
  shows "is_open (fst (Publish b ch p)) m = is_open b m"
proof -
  obtain b' n where pub: "Publish b ch p = (b', n)" by fastforce
  from Publish_spec(2) [OF assms pub, of m] pub show ?thesis by (auto simp: is_open_def)
qed

lemma Dispatch_broker:
  assumes ok: "db_ok d"
  shows "subs (pubsub (fst (Dispatch u env d r))) = subs (pubsub d) \<and>
    is_open (pubsub (fst (Dispatch u env d r))) m = is_open (pubsub d) m \<and>
    next_sub (pubsub (fst (Dispatch u env d r))) = next_sub (pubsub d)"
proof (cases rule: Dispatch_cases [of r u])
  case (run h)
  show ?thesis
  proof (cases "req_name u r = ''PUBLISH''")
    case True
    with run(2) have h: "h = cmd_Publish" by (simp add: commands_def)
    from ok have "broker_ok (pubsub d)" by (simp add: db_ok_def)
    with run(3) show ?thesis
      using Publish_open [of "pubsub d"] Publish_frame [of "pubsub d"]
      by (simp add: h cmd_Publish_def split: prod.splits) (metis fst_conv)
  next
    case False
    with handler_pubsub [OF run(2)] run(3) show ?thesis by simp
  qed
qed simp

section \<open>Invariants\<close>

definition server_ok :: "server \<Rightarrow> bool" where
  "server_ok s \<longleftrightarrow> db_ok (sv_db s) \<and> replicas_ok (sv_replicas s)"

definition held :: "conn \<Rightarrow> string set" where
  "held cs = fst ` set (cs_channels cs)"

definition conn_ok :: "server \<Rightarrow> conn \<Rightarrow> bool" where
  "conn_ok s cs \<longleftrightarrow>
     gomap_ok (cs_channels cs) \<and>
     (case cs_sub cs of
        None \<Rightarrow> cs_channels cs = []
      | Some m \<Rightarrow> is_open (broker_of s) m \<and> (\<forall>c. m \<in> listeners (broker_of s) c \<longleftrightarrow> c \<in> held cs)) \<and>
     (\<forall>rep. cs_replica cs = Some rep \<longrightarrow> rep \<in> feeds (sv_replicas s))"

text \<open>Two connections never share a mailbox or a feed.\<close>

definition apart :: "conn \<Rightarrow> conn \<Rightarrow> bool" where
  "apart cs cs' \<longleftrightarrow> (\<forall>m. cs_sub cs = Some m \<longrightarrow> cs_sub cs' \<noteq> Some m) \<and>
     (\<forall>rep. cs_replica cs = Some rep \<longrightarrow> cs_replica cs' \<noteq> Some rep)"

lemma conn_ok_new: "conn_ok s (new_conn remote)"
  by (simp add: conn_ok_def new_conn_def)

lemma writes_frame:
  assumes "conn_write net cs v = (cs', ok)"
  shows "cs_sub cs' = cs_sub cs" "cs_channels cs' = cs_channels cs" "cs_replica cs' = cs_replica cs"
    "cs_remote cs' = cs_remote cs"
  using assms by (auto simp: conn_write_def writeRaw_def Let_def split: if_splits prod.splits bool.splits option.splits)

lemma conn_ok_cong:
  assumes "conn_ok s cs" and "cs_sub cs' = cs_sub cs" "cs_channels cs' = cs_channels cs" "cs_replica cs' = cs_replica cs"
    and "listeners (broker_of s') = listeners (broker_of s)" "\<And>m. is_open (broker_of s') m = is_open (broker_of s) m"
    and "feeds (sv_replicas s') = feeds (sv_replicas s)"
  shows "conn_ok s' cs'"
  using assms by (cases "cs_sub cs") (simp_all add: conn_ok_def held_def)

lemma conn_ok_write:
  assumes "conn_ok s cs" and "conn_write net cs v = (cs', ok)"
  shows "conn_ok s cs'"
  by (rule conn_ok_cong [OF assms(1)]) (use writes_frame [OF assms(2)] in simp_all)

lemma apart_cong:
  "apart cs cs2 \<Longrightarrow> cs_sub cs' = cs_sub cs \<Longrightarrow> cs_replica cs' = cs_replica cs \<Longrightarrow> apart cs' cs2"
  by (simp add: apart_def)

lemma broker_of_set [simp]: "broker_of (set_broker s b) = b" "sv_replicas (set_broker s b) = sv_replicas s"
  by (simp_all add: set_broker_def)

lemma server_ok_broker: "server_ok s \<Longrightarrow> broker_ok (broker_of s)"
  by (simp add: server_ok_def db_ok_def)

lemma server_ok_set_broker: "server_ok s \<Longrightarrow> broker_ok b \<Longrightarrow> server_ok (set_broker s b)"
  by (simp add: server_ok_def db_ok_def set_broker_def)

lemma Subscribe_frame [simp]:
  "mailboxes (Subscribe b c m) = mailboxes b" "is_open (Subscribe b c m) = is_open b" "next_sub (Subscribe b c m) = next_sub b"
  by (simp_all add: Subscribe_def is_open_def fun_eq_iff)

lemma Unsubscribe_open [simp]: "is_open (Unsubscribe b c m) = is_open b"
  by (simp add: is_open_def fun_eq_iff Unsubscribe_frame)

section \<open>Subscribing and unsubscribing\<close>

text \<open>
  One channel joined or left: the invariant of this connection, and of any other one.
\<close>

lemma join_channel:
  assumes s: "server_ok s" and c: "conn_ok s cs" and m: "cs_sub cs = Some m" and new: "channel \<notin> held cs"
  defines "s' \<equiv> set_broker s (Subscribe (broker_of s) channel m)"
    and "cs' \<equiv> cs\<lparr>cs_channels := AList.update channel () (cs_channels cs)\<rparr>"
  shows "server_ok s'" and "conn_ok s' cs'" and "conn_ok s cs2 \<Longrightarrow> apart cs cs2 \<Longrightarrow> conn_ok s' cs2"
proof -
  from c m obtain ch where ch: "mailboxes (broker_of s) m = Some ch" "\<not> closed ch"
    and l: "\<And>c. m \<in> listeners (broker_of s) c \<longleftrightarrow> c \<in> held cs" by (auto simp: conn_ok_def is_open_def)
  from l new have "m \<notin> listeners (broker_of s) channel" by simp
  with broker_ok_Subscribe [OF server_ok_broker [OF s] ch] show "server_ok s'"
    by (simp add: s'_def server_ok_set_broker [OF s])
  show "conn_ok s' cs'"
    using c m l by (auto simp: conn_ok_def s'_def cs'_def held_def fst_set_update listeners_Subscribe)
  show "conn_ok s' cs2" if "conn_ok s cs2" "apart cs cs2"
  proof -
    from that(2) m have "cs_sub cs2 \<noteq> Some m" by (simp add: apart_def)
    with that(1) show ?thesis
      by (auto simp: conn_ok_def s'_def listeners_Subscribe split: option.splits)
  qed
qed

lemma leave_channel:
  fixes channel
  assumes s: "server_ok s" and c: "conn_ok s cs" and m: "cs_sub cs = Some m"
  defines "s' \<equiv> set_broker s (Unsubscribe (broker_of s) channel m)"
    and "cs' \<equiv> cs\<lparr>cs_channels := AList.delete channel (cs_channels cs)\<rparr>"
  shows "server_ok s'" and "conn_ok s' cs'" and "conn_ok s cs2 \<Longrightarrow> apart cs cs2 \<Longrightarrow> conn_ok s' cs2"
proof -
  note b = server_ok_broker [OF s]
  have d: "distinct (subs_of (broker_of s) channel)" using b by (simp add: broker_ok_def)
  note l = listeners_Unsubscribe [OF d, of m]
  from broker_ok_Unsubscribe [OF b] show "server_ok s'" by (simp add: s'_def server_ok_set_broker [OF s])
  show "conn_ok s' cs'"
    using c m by (auto simp: conn_ok_def s'_def cs'_def held_def fst_set_delete l)
  show "conn_ok s' cs2" if "conn_ok s cs2" "apart cs cs2"
  proof -
    from that(2) m have "cs_sub cs2 \<noteq> Some m" by (simp add: apart_def)
    with that(1) show ?thesis by (auto simp: conn_ok_def s'_def l split: option.splits)
  qed
qed

lemma held_iff: "map_of (cs_channels cs) c \<noteq> None \<longleftrightarrow> c \<in> held cs"
  by (simp add: held_def map_of_eq_None_iff)

lemma subscribe_loop_ok:
  assumes "server_ok s" and "conn_ok s cs" and "cs_sub cs = Some m"
    and "subscribe_loop net m s cs channels = (s', cs', ok)"
  shows "server_ok s' \<and> conn_ok s' cs' \<and> cs_sub cs' = Some m \<and> cs_replica cs' = cs_replica cs \<and>
    sv_replicas s' = sv_replicas s \<and>
    held cs \<subseteq> held cs' \<and> held cs' \<subseteq> held cs \<union> bulk_str ` set channels \<and>
    (ok \<longrightarrow> held cs' = held cs \<union> bulk_str ` set channels) \<and>
    (\<forall>cs2. conn_ok s cs2 \<longrightarrow> apart cs cs2 \<longrightarrow> conn_ok s' cs2)"
  using assms
proof (induction channels arbitrary: s cs)
  case Nil
  then show ?case by auto
next
  case (Cons c channels)
  let ?c = "bulk_str c"
  define new where "new \<longleftrightarrow> ?c \<notin> held cs"
  define cs1 where "cs1 = (if new then cs\<lparr>cs_channels := AList.update ?c () (cs_channels cs)\<rparr> else cs)"
  define s1 where "s1 = (if new then set_broker s (Subscribe (broker_of s) ?c m) else s)"
  have 1: "server_ok s1" "conn_ok s1 cs1" "\<And>cs2. conn_ok s cs2 \<Longrightarrow> apart cs cs2 \<Longrightarrow> conn_ok s1 cs2"
    "cs_sub cs1 = Some m" "cs_replica cs1 = cs_replica cs" "held cs1 = insert ?c (held cs)" "sv_replicas s1 = sv_replicas s"
    using join_channel [OF Cons.prems(1-3), of ?c] Cons.prems(1-3)
    by (auto simp: new_def s1_def cs1_def held_def fst_set_update)
  obtain cs2 b where w: "conn_write net cs1 (subscribeReply ''subscribe'' ?c (length (cs_channels cs1))) = (cs2, b)" by fastforce
  have step: "(if b then subscribe_loop net m s1 cs2 channels else (s1, cs2, False)) = (s', cs', ok)"
    using Cons.prems(4) w held_iff [of cs ?c]
    by (cases b; cases new) (simp_all add: Let_def new_def cs1_def s1_def)
  note wf = writes_frame [OF w]
  have h2: "held cs2 = insert ?c (held cs)" using wf 1(6) by (simp add: held_def)
  show ?case
  proof (cases b)
    case False
    with step 1 wf h2 conn_ok_write [OF 1(2) w] show ?thesis by auto
  next
    case True
    with step have rec: "subscribe_loop net m s1 cs2 channels = (s', cs', ok)" by simp
    have ih: "server_ok s' \<and> conn_ok s' cs' \<and> cs_sub cs' = Some m \<and> cs_replica cs' = cs_replica cs2 \<and>
      sv_replicas s' = sv_replicas s1 \<and>
      held cs2 \<subseteq> held cs' \<and> held cs' \<subseteq> held cs2 \<union> bulk_str ` set channels \<and>
      (ok \<longrightarrow> held cs' = held cs2 \<union> bulk_str ` set channels) \<and>
      (\<forall>cs3. conn_ok s1 cs3 \<longrightarrow> apart cs2 cs3 \<longrightarrow> conn_ok s' cs3)"
      by (rule Cons.IH [OF 1(1) conn_ok_write [OF 1(2) w] _ rec]) (use wf 1 in simp)
    have "apart cs cs3 \<Longrightarrow> apart cs2 cs3" for cs3
      by (rule apart_cong) (use wf 1 Cons.prems(3) in simp_all)
    with ih h2 wf 1 show ?thesis by auto
  qed
qed

lemma unsubscribe_loop_ok:
  assumes "server_ok s" and "conn_ok s cs" and "unsubscribe_loop net s cs targets = (s', cs', ok)"
  shows "server_ok s' \<and> conn_ok s' cs' \<and> cs_sub cs' = cs_sub cs \<and> cs_replica cs' = cs_replica cs \<and>
    sv_replicas s' = sv_replicas s \<and>
    held cs - set targets \<subseteq> held cs' \<and> held cs' \<subseteq> held cs \<and>
    (ok \<longrightarrow> held cs' = held cs - set targets) \<and>
    (\<forall>cs2. conn_ok s cs2 \<longrightarrow> apart cs cs2 \<longrightarrow> conn_ok s' cs2)"
  using assms
proof (induction targets arbitrary: s cs)
  case Nil
  then show ?case by auto
next
  case (Cons c targets)
  define h where "h \<longleftrightarrow> c \<in> held cs"
  define cs1 where "cs1 = (if h then cs\<lparr>cs_channels := AList.delete c (cs_channels cs)\<rparr> else cs)"
  define s1 where "s1 = (if h then case cs_sub cs of None \<Rightarrow> s
      | Some sub \<Rightarrow> set_broker s (Unsubscribe (broker_of s) c sub) else s)"
  have m: "\<exists>m. cs_sub cs = Some m" if h
    using that Cons.prems(2) by (cases "cs_sub cs") (auto simp: h_def conn_ok_def held_def)
  have 1: "server_ok s1 \<and> conn_ok s1 cs1 \<and> (\<forall>cs2. conn_ok s cs2 \<longrightarrow> apart cs cs2 \<longrightarrow> conn_ok s1 cs2) \<and>
    cs_sub cs1 = cs_sub cs \<and> cs_replica cs1 = cs_replica cs \<and> held cs1 = held cs - {c} \<and> sv_replicas s1 = sv_replicas s"
  proof (cases h)
    case True
    with m obtain m where sub: "cs_sub cs = Some m" by blast
    note l = leave_channel [OF Cons.prems(1,2) sub, where channel = c]
    have "s1 = set_broker s (Unsubscribe (broker_of s) c m)" "cs1 = cs\<lparr>cs_channels := AList.delete c (cs_channels cs)\<rparr>"
      using True sub by (simp_all add: s1_def cs1_def)
    with l show ?thesis by (simp add: held_def fst_set_delete)
  qed (use Cons.prems(1,2) in \<open>auto simp: s1_def cs1_def h_def\<close>)
  obtain cs2 b where w: "conn_write net cs1 (subscribeReply ''unsubscribe'' c (length (cs_channels cs1))) = (cs2, b)" by fastforce
  have step: "(if b then unsubscribe_loop net s1 cs2 targets else (s1, cs2, False)) = (s', cs', ok)"
    using Cons.prems(3) w held_iff [of cs c]
    by (cases b; cases h) (simp_all add: Let_def h_def cs1_def s1_def)
  note wf = writes_frame [OF w]
  have h2: "held cs2 = held cs - {c}" using wf 1 by (simp add: held_def)
  show ?case
  proof (cases b)
    case False
    with step 1 wf h2 conn_ok_write [OF _ w] show ?thesis by auto
  next
    case True
    with step have rec: "unsubscribe_loop net s1 cs2 targets = (s', cs', ok)" by simp
    have "server_ok s1" "conn_ok s1 cs2" using 1 conn_ok_write [OF _ w] by blast+
    note ih = Cons.IH [OF this rec]
    have "apart cs cs3 \<Longrightarrow> apart cs2 cs3" for cs3
      by (rule apart_cong) (use wf 1 in simp_all)
    with ih h2 wf 1 show ?thesis by auto
  qed
qed

section \<open>Every request keeps the invariants\<close>

lemma Propagate_feeds: "feeds (Propagate cs r cmd) = feeds r"
  by (simp add: Propagate_def feeds_def split: prod.splits bool.splits)

lemma server_apply_ok:
  assumes s: "server_ok s" and ap: "server_apply u w s r = (s', reply, m)"
  shows "server_ok s'" and "listeners (broker_of s') = listeners (broker_of s)"
    and "is_open (broker_of s') k = is_open (broker_of s) k" and "feeds (sv_replicas s') = feeds (sv_replicas s)"
proof -
  from s have ok: "db_ok (sv_db s)" by (simp add: server_ok_def)
  have db: "sv_db s' = fst (Dispatch u (w_env w) (sv_db s) r)" using server_apply_reply(2) [of u w s r] ap by simp
  have reps: "sv_replicas s' = sv_replicas s \<or> sv_replicas s' = Propagate (w_order w) (sv_replicas s) r"
    using ap by (auto simp: server_apply_def applyRecord_def record_write_def Let_def
        split: prod.splits if_splits option.splits)
  show "feeds (sv_replicas s') = feeds (sv_replicas s)" using reps Propagate_feeds by auto
  show "server_ok s'"
    using s reps db Dispatch_db_ok [OF ok, of u "w_env w" r] replicas_ok_Propagate by (auto simp: server_ok_def)
  from Dispatch_broker [OF ok, of u "w_env w" r] db show "is_open (broker_of s') k = is_open (broker_of s) k"
    "listeners (broker_of s') = listeners (broker_of s)"
    using subs_of_cong [of "broker_of s'" "broker_of s"] by simp_all
qed

definition keeps :: "server \<Rightarrow> conn \<Rightarrow> server \<Rightarrow> conn \<Rightarrow> bool" where
  "keeps s cs s' cs' \<longleftrightarrow> server_ok s' \<and> conn_ok s' cs' \<and>
     (\<forall>cs2. conn_ok s cs2 \<longrightarrow> apart cs cs2 \<longrightarrow> conn_ok s' cs2 \<and> apart cs' cs2)"

lemma keeps_write:
  assumes "server_ok s" and "conn_ok s cs" and "conn_write net cs v = (cs', ok)"
  shows "keeps s cs s cs'"
  unfolding keeps_def using assms conn_ok_write writes_frame [OF assms(3)] by (auto intro: apart_cong)

lemma serve_subscribe:
  assumes "server_ok s" and "conn_ok s cs" and "conn_subscribe net s cs channels = (s', cs', ok)"
  shows "keeps s cs s' cs'"
proof (cases "channels = []")
  case True
  with assms show ?thesis by (auto simp: conn_subscribe_def intro: keeps_write split: prod.splits)
next
  case False
  show ?thesis
  proof (cases "cs_sub cs")
    case (Some m)
    with False assms(3) have "subscribe_loop net m s cs channels = (s', cs', ok)" by (simp add: conn_subscribe_def)
    from subscribe_loop_ok [OF assms(1,2) Some this] Some show ?thesis by (auto simp: keeps_def apart_def)
  next
    case None
    obtain b m where new: "NewSubscriber (broker_of s) = (b, m)" by fastforce
    let ?s = "set_broker s b" and ?cs = "cs\<lparr>cs_sub := Some m, cs_channels := []\<rparr>"
    from False None assms(3) new have loop: "subscribe_loop net m ?s ?cs channels = (s', cs', ok)"
      by (simp add: conn_subscribe_def)
    note nb = broker_ok_NewSubscriber [OF server_ok_broker [OF assms(1)] new]
    have open_old: "is_open b k" if "is_open (broker_of s) k" for k
      using that new by (auto simp: NewSubscriber_def is_open_def make_chan_def)
    have fresh: "\<not> is_open (broker_of s) m"
      using new server_ok_broker [OF assms(1)] by (auto simp: NewSubscriber_def is_open_def broker_ok_def)
    have s: "server_ok ?s" using nb(1) by (rule server_ok_set_broker [OF assms(1)])
    have cs: "conn_ok ?s ?cs"
      using assms(2) nb(2,3) by (simp add: conn_ok_def held_def is_open_def make_chan_def)
    have other: "conn_ok ?s cs2" "cs_sub cs2 \<noteq> Some m" if "conn_ok s cs2" for cs2
      using that nb(4) open_old fresh by (auto simp: conn_ok_def split: option.splits)
    have "apart ?cs cs2" if "conn_ok s cs2" "apart cs cs2" for cs2
      using that other [of cs2] by (simp add: apart_def)
    with subscribe_loop_ok [OF s cs _ loop] other show ?thesis by (auto simp: keeps_def apart_def)
  qed
qed

lemma serve_unsubscribe:
  assumes "server_ok s" and "conn_ok s cs" and un: "conn_unsubscribe order net s cs channels = (s', cs', ok)"
  shows "keeps s cs s' cs'"
proof -
  define targets where "targets = (if channels = [] then map fst (go_range order (cs_channels cs)) else map bulk_str channels)"
  show ?thesis
  proof (cases "targets = []")
    case True
    with un have "conn_write net cs (subscribeReplyNull ''unsubscribe'' 0) = (cs', ok)" "s' = s"
      by (auto simp: conn_unsubscribe_def targets_def [symmetric] Let_def split: prod.splits)
    with keeps_write [OF assms(1,2)] show ?thesis by blast
  next
    case False
    with un have "unsubscribe_loop net s cs targets = (s', cs', ok)"
      by (simp add: conn_unsubscribe_def targets_def [symmetric] Let_def)
    from unsubscribe_loop_ok [OF assms(1,2) this] show ?thesis by (auto simp: keeps_def apart_def)
  qed
qed

lemma serve_replicaof:
  assumes "server_ok s" and "conn_ok s cs" and re: "conn_replicaof now net s cs = (s', cs', ok)"
  shows "keeps s cs s' cs'"
proof -
  obtain cs1 b where w: "conn_write net cs okVal = (cs1, b)" by fastforce
  note wf = writes_frame [OF w]
  show ?thesis
  proof (cases b)
    case False
    with re w have "s' = s" "cs' = cs1" by (simp_all add: conn_replicaof_def)
    with keeps_write [OF assms(1,2) w] show ?thesis by simp
  next
    case True
    obtain r rep where add: "Add now (sv_replicas s) (cs_remote cs) = (r, rep)" by fastforce
    with True re w have s': "s' = s\<lparr>sv_replicas := r\<rparr>" "cs' = cs1\<lparr>cs_replica := Some rep\<rparr>"
      by (simp_all add: conn_replicaof_def)
    from assms(1) have "replicas_ok (sv_replicas s)" by (simp add: server_ok_def)
    note a = replicas_ok_Add [OF this add]
    have "conn_ok s' cs'" using assms(2) wf a(2) by (cases "cs_sub cs") (simp_all add: s' conn_ok_def held_def)
    moreover have "conn_ok s' cs2" if "conn_ok s cs2" for cs2
      using that a(2) by (cases "cs_sub cs2") (simp_all add: s' conn_ok_def)
    moreover have "apart cs' cs2" if "conn_ok s cs2" "apart cs cs2" for cs2
      using that wf a(3) by (auto simp: s' conn_ok_def apart_def)
    ultimately show ?thesis using assms(1) a(1) by (simp add: keeps_def server_ok_def s')
  qed
qed

lemma keeps_trans_write:
  assumes "server_ok s'" and "\<And>c. conn_ok s c \<Longrightarrow> conn_ok s' c" and "conn_ok s cs" and "conn_write net cs v = (cs', ok)"
  shows "keeps s cs s' cs'"
  using assms writes_frame [OF assms(4)] conn_ok_write [OF _ assms(4)] by (auto simp: keeps_def intro: apart_cong)

lemma keeps_server:
  assumes "server_ok s'" and "\<And>c. conn_ok s c \<Longrightarrow> conn_ok s' c" and "conn_ok s cs"
  shows "keeps s cs s' cs"
  using assms by (simp add: keeps_def)

lemma serve_apply:
  assumes "server_ok s" and "conn_ok s cs" and ap: "server_apply u w s r = (s', reply, m)"
    and "conn_write net cs reply = (cs', ok)"
  shows "keeps s cs s' cs'"
proof (rule keeps_trans_write [OF _ _ assms(2,4)])
  note a = server_apply_ok [OF assms(1) ap]
  show "server_ok s'" by (rule a)
  show "conn_ok s' c" if "conn_ok s c" for c by (rule conn_ok_cong [OF that]) (simp_all add: a)
qed

lemma conn_ok_Acked:
  fixes now rep
  assumes "server_ok s"
  defines "s' \<equiv> s\<lparr>sv_replicas := Acked now (sv_replicas s) rep\<rparr>"
  shows "server_ok s'" and "conn_ok s c \<Longrightarrow> conn_ok s' c"
proof -
  from assms(1) have ok: "replicas_ok (sv_replicas s)" by (simp add: server_ok_def)
  note a = replicas_ok_Acked [OF ok, of now rep]
  from a assms(1) show "server_ok s'" by (simp add: s'_def server_ok_def)
  show "conn_ok s' c" if "conn_ok s c" by (rule conn_ok_cong [OF that]) (simp_all add: s'_def a)
qed

lemma six_guards:
  assumes "a \<Longrightarrow> R" and "\<not> a \<Longrightarrow> b \<Longrightarrow> R" and "\<not> a \<Longrightarrow> \<not> b \<Longrightarrow> c \<Longrightarrow> R" and "\<not> a \<Longrightarrow> \<not> b \<Longrightarrow> \<not> c \<Longrightarrow> d \<Longrightarrow> R"
    and "\<not> a \<Longrightarrow> \<not> b \<Longrightarrow> \<not> c \<Longrightarrow> \<not> d \<Longrightarrow> e \<Longrightarrow> R" and "\<not> a \<Longrightarrow> \<not> b \<Longrightarrow> \<not> c \<Longrightarrow> \<not> d \<Longrightarrow> \<not> e \<Longrightarrow> f \<Longrightarrow> R"
    and "\<not> a \<Longrightarrow> \<not> b \<Longrightarrow> \<not> c \<Longrightarrow> \<not> d \<Longrightarrow> \<not> e \<Longrightarrow> \<not> f \<Longrightarrow> R"
  shows R
  using assms by blast

text \<open>The branches of \<open>serve\<close>: a reply that leaves the server alone, or one of the calls it makes.\<close>

lemma serve_cases:
  assumes sv: "serve u w net s cs request = (s', cs', ok)"
  obtains (reply) v b where "s' = s" and "conn_write net cs v = (cs', b)" and "ok \<longrightarrow> b"
    | (subscribe) "conn_subscribe net s cs (tl (val_Array request)) = (s', cs', ok)"
    | (unsubscribe) "conn_unsubscribe (w_order w) net s cs (tl (val_Array request)) = (s', cs', ok)"
    | (replicaof) "conn_replicaof (clock (w_env w) 0) net s cs = (s', cs', ok)"
    | (ack) rep where "s' = s\<lparr>sv_replicas := Acked (clock (w_env w) 0) (sv_replicas s) rep\<rparr>" and "cs' = cs"
    | (run) reply m where "server_apply u w s request = (s', reply, m)" and "conn_write net cs reply = (cs', ok)"
      and "subscribed cs \<Longrightarrow> ToUpper u (commandName request) \<in> set allowedWhileSubscribed"
proof -
  define name where "name = ToUpper u (commandName request)"
  note def = serve_def [of u w net s cs request, folded name_def, unfolded Let_def]
  consider (refuse) "subscribed cs \<and> name \<notin> set allowedWhileSubscribed"
    | (sub) "\<not> (subscribed cs \<and> name \<notin> set allowedWhileSubscribed)" "name = ''SUBSCRIBE''"
    | (unsub) "\<not> (subscribed cs \<and> name \<notin> set allowedWhileSubscribed)" "name \<noteq> ''SUBSCRIBE''"
        "name = ''UNSUBSCRIBE''"
    | (repl) "\<not> (subscribed cs \<and> name \<notin> set allowedWhileSubscribed)" "name \<noteq> ''SUBSCRIBE''"
        "name \<noteq> ''UNSUBSCRIBE''" "name = ''REPLICAOF''"
    | (conf) "\<not> (subscribed cs \<and> name \<notin> set allowedWhileSubscribed)" "name \<noteq> ''SUBSCRIBE''"
        "name \<noteq> ''UNSUBSCRIBE''" "name \<noteq> ''REPLICAOF''" "name = ''REPLCONF''"
    | (quit) "\<not> (subscribed cs \<and> name \<notin> set allowedWhileSubscribed)" "name \<noteq> ''SUBSCRIBE''"
        "name \<noteq> ''UNSUBSCRIBE''" "name \<noteq> ''REPLICAOF''" "name \<noteq> ''REPLCONF''" "name = ''QUIT''"
    | (other) "\<not> (subscribed cs \<and> name \<notin> set allowedWhileSubscribed)" "name \<noteq> ''SUBSCRIBE''"
        "name \<noteq> ''UNSUBSCRIBE''" "name \<noteq> ''REPLICAOF''" "name \<noteq> ''REPLCONF''" "name \<noteq> ''QUIT''"
    by (rule six_guards)
  then show thesis
  proof cases
    case refuse
    note sv = sv [unfolded def if_P [OF refuse]]
    then show ?thesis by (cases "conn_write net cs (refused u name)") (simp add: reply)
  next
    case sub
    show ?thesis by (rule subscribe) (use sv in \<open>unfold def if_not_P [OF sub(1)] if_P [OF sub(2)]\<close>)
  next
    case unsub
    show ?thesis
      by (rule unsubscribe) (use sv in \<open>unfold def if_not_P [OF unsub(1)] if_not_P [OF unsub(2)] if_P [OF unsub(3)]\<close>)
  next
    case repl
    show ?thesis
      by (rule replicaof)
        (use sv in \<open>unfold def if_not_P [OF repl(1)] if_not_P [OF repl(2)] if_not_P [OF repl(3)] if_P [OF repl(4)]\<close>)
  next
    case conf
    note sv = sv [unfolded def if_not_P [OF conf(1)] if_not_P [OF conf(2)] if_not_P [OF conf(3)] if_not_P [OF conf(4)]
        if_P [OF conf(5)]]
    then show ?thesis by (cases "cs_replica cs"; cases "conn_write net cs okVal") (auto intro: reply ack)
  next
    case quit
    note sv = sv [unfolded def if_not_P [OF quit(1)] if_not_P [OF quit(2)] if_not_P [OF quit(3)] if_not_P [OF quit(4)]
        if_not_P [OF quit(5)] if_P [OF quit(6)]]
    then show ?thesis by (cases "conn_write net cs okVal") (simp add: reply)
  next
    case other
    note sv = sv [unfolded def if_not_P [OF other(1)] if_not_P [OF other(2)] if_not_P [OF other(3)] if_not_P [OF other(4)]
        if_not_P [OF other(5)] if_not_P [OF other(6)]]
    then show ?thesis
      by (cases "conn_write net cs readonly") (use other(1) in \<open>auto simp: name_def split: if_splits prod.splits intro: reply run\<close>)
  qed
qed

lemma serve_keeps:
  assumes s: "server_ok s" and c: "conn_ok s cs" and sv: "serve u w net s cs request = (s', cs', ok)"
  shows "keeps s cs s' cs'"
  using sv
proof (cases rule: serve_cases)
  case (reply v b)
  with keeps_write [OF s c] show ?thesis by simp
next
  case (ack rep)
  with keeps_server [OF conn_ok_Acked(1) [OF s] conn_ok_Acked(2) [OF s] c] show ?thesis by simp
next
  case (run reply m)
  from run(1,2) show ?thesis by (rule serve_apply [OF s c])
qed (use serve_subscribe [OF s c] serve_unsubscribe [OF s c] serve_replicaof [OF s c] in blast)+

section \<open>Tearing a connection down\<close>

lemma Unsubscribe_fold:
  assumes "broker_ok b"
  shows "broker_ok (fold (\<lambda>(c, _) b. Unsubscribe b c m) cs b) \<and>
    is_open (fold (\<lambda>(c, _) b. Unsubscribe b c m) cs b) = is_open b \<and>
    listeners (fold (\<lambda>(c, _) b. Unsubscribe b c m) cs b) =
      (\<lambda>c. if c \<in> fst ` set cs then listeners b c - {m} else listeners b c)"
  using assms
proof (induction cs arbitrary: b)
  case (Cons c cs)
  let ?b = "Unsubscribe b (fst c) m"
  from Cons.prems have d: "distinct (subs_of b (fst c))" by (simp add: broker_ok_def)
  have "fold (\<lambda>(c, _) b. Unsubscribe b c m) (c # cs) b = fold (\<lambda>(c, _) b. Unsubscribe b c m) cs ?b"
    by (simp add: case_prod_beta)
  with Cons.IH [OF broker_ok_Unsubscribe [OF Cons.prems]] listeners_Unsubscribe [OF d, of m]
  show ?case by (auto simp: fun_eq_iff)
qed simp

lemma unsubscribeAll_ok:
  fixes order
  assumes s: "server_ok s" and c: "conn_ok s cs"
  defines "s' \<equiv> unsubscribeAll order s cs"
  shows "server_ok s'" and "\<And>m ch. cs_sub cs = Some m \<Longrightarrow> \<not> is_open (broker_of s') m \<and> m \<notin> listeners (broker_of s') ch"
    and "\<And>cs2. conn_ok s cs2 \<Longrightarrow> apart cs cs2 \<Longrightarrow> conn_ok s' cs2" and "sv_replicas s' = sv_replicas s"
proof -
  have "server_ok s' \<and> (\<forall>m ch. cs_sub cs = Some m \<longrightarrow> \<not> is_open (broker_of s') m \<and> m \<notin> listeners (broker_of s') ch) \<and>
    (\<forall>cs2. conn_ok s cs2 \<longrightarrow> apart cs cs2 \<longrightarrow> conn_ok s' cs2) \<and> sv_replicas s' = sv_replicas s"
  proof (cases "cs_sub cs")
    case None
    then show ?thesis using s by (simp add: s'_def unsubscribeAll_def)
  next
    case (Some m)
    define b where "b = fold (\<lambda>(channel, _) b. Unsubscribe b channel m) (go_range order (cs_channels cs)) (broker_of s)"
    have f: "broker_ok b" "is_open b = is_open (broker_of s)"
      "listeners b = (\<lambda>c. if c \<in> held cs then listeners (broker_of s) c - {m} else listeners (broker_of s) c)"
      using Unsubscribe_fold [OF server_ok_broker [OF s], of m "go_range order (cs_channels cs)"]
      by (simp_all add: b_def held_def)
    from c Some have op: "is_open (broker_of s) m" and l: "\<And>c. m \<in> listeners (broker_of s) c \<longleftrightarrow> c \<in> held cs"
      by (auto simp: conn_ok_def)
    from op have "is_open b m" by (simp add: f(2))
    then obtain ch where ch: "mailboxes b m = Some ch" "\<not> closed ch" by (auto simp: is_open_def)
    have out: "m \<notin> listeners b c" for c using f(3) l [of c] by simp
    have cl: "CloseSub b m = b\<lparr>mailboxes := (mailboxes b)(m \<mapsto> close_chan ch)\<rparr>" using ch by (simp add: CloseSub_def)
    have s': "s' = set_broker s (CloseSub b m)" using Some by (simp add: s'_def unsubscribeAll_def b_def Let_def)
    have lc: "listeners (CloseSub b m) = listeners b" using subs_of_cong [of "CloseSub b m" b] by (simp add: cl)
    have oc: "is_open (CloseSub b m) k \<longleftrightarrow> k \<noteq> m \<and> is_open b k" for k
      by (simp add: cl is_open_def close_chan_def)
    have "conn_ok s' cs2" if "conn_ok s cs2" "apart cs cs2" for cs2
    proof -
      from that(2) Some have "cs_sub cs2 \<noteq> Some m" by (simp add: apart_def)
      with that(1) f(2,3) lc oc show ?thesis by (cases "cs_sub cs2") (simp_all add: conn_ok_def s')
    qed
    moreover have "server_ok s'"
      unfolding s' by (rule server_ok_set_broker [OF s]) (rule broker_ok_Close [OF f(1) ch out])
    ultimately show ?thesis using out lc oc Some by (simp add: s')
  qed
  then show "server_ok s'" and "\<And>m ch. cs_sub cs = Some m \<Longrightarrow> \<not> is_open (broker_of s') m \<and> m \<notin> listeners (broker_of s') ch"
    and "\<And>cs2. conn_ok s cs2 \<Longrightarrow> apart cs cs2 \<Longrightarrow> conn_ok s' cs2" and "sv_replicas s' = sv_replicas s" by blast+
qed

lemma removeReplica_ok:
  assumes s: "server_ok s" and c: "conn_ok s cs"
  defines "s' \<equiv> removeReplica s cs"
  shows "server_ok s'" and "conn_ok s' (cs\<lparr>cs_replica := None\<rparr>)"
    and "\<And>cs2. conn_ok s cs2 \<Longrightarrow> apart cs cs2 \<Longrightarrow> conn_ok s' cs2"
    and "\<And>rep. cs_replica cs = Some rep \<Longrightarrow> feeds (sv_replicas s') = feeds (sv_replicas s) - {rep}"
proof -
  have "server_ok s' \<and> conn_ok s' (cs\<lparr>cs_replica := None\<rparr>) \<and>
    (\<forall>cs2. conn_ok s cs2 \<longrightarrow> apart cs cs2 \<longrightarrow> conn_ok s' cs2) \<and>
    (\<forall>rep. cs_replica cs = Some rep \<longrightarrow> feeds (sv_replicas s') = feeds (sv_replicas s) - {rep})"
  proof (cases "cs_replica cs")
    case None
    have "conn_ok s (cs\<lparr>cs_replica := None\<rparr>)" by (rule conn_ok_cong [OF c]) (simp_all add: None)
    with None s show ?thesis by (simp add: s'_def removeReplica_def)
  next
    case (Some rep)
    then have s': "s' = s\<lparr>sv_replicas := Remove (sv_replicas s) rep\<rparr>" by (simp add: s'_def removeReplica_def)
    from s c Some have "replicas_ok (sv_replicas s)" "rep \<in> feeds (sv_replicas s)" by (simp_all add: server_ok_def conn_ok_def)
    note r = replicas_ok_Remove [OF this]
    have "conn_ok s' (cs\<lparr>cs_replica := None\<rparr>)" using c by (cases "cs_sub cs") (simp_all add: conn_ok_def s' held_def)
    moreover have "conn_ok s' cs2" if "conn_ok s cs2" "apart cs cs2" for cs2
      using that Some r(2) by (cases "cs_sub cs2") (auto simp: conn_ok_def s' apart_def)
    ultimately show ?thesis using s r Some by (simp add: s' server_ok_def)
  qed
  then show "server_ok s'" and "conn_ok s' (cs\<lparr>cs_replica := None\<rparr>)"
    and "\<And>cs2. conn_ok s cs2 \<Longrightarrow> apart cs cs2 \<Longrightarrow> conn_ok s' cs2"
    and "\<And>rep. cs_replica cs = Some rep \<Longrightarrow> feeds (sv_replicas s') = feeds (sv_replicas s) - {rep}" by blast+
qed

lemma unsubscribeAll_replica: "unsubscribeAll order s (cs\<lparr>cs_replica := x\<rparr>) = unsubscribeAll order s cs"
  by (cases "cs_sub cs") (simp_all add: unsubscribeAll_def)

text \<open>The deferred calls of \<open>handle\<close>, in their order.\<close>

lemma teardown_ok:
  fixes order
  assumes s: "server_ok s" and c: "conn_ok s cs"
  defines "s' \<equiv> unsubscribeAll order (removeReplica s cs) cs"
  shows "server_ok s'" and "\<And>m ch. cs_sub cs = Some m \<Longrightarrow> \<not> is_open (broker_of s') m \<and> m \<notin> listeners (broker_of s') ch"
    and "\<And>rep. cs_replica cs = Some rep \<Longrightarrow> feeds (sv_replicas s') = feeds (sv_replicas s) - {rep}"
    and "\<And>cs2. conn_ok s cs2 \<Longrightarrow> apart cs cs2 \<Longrightarrow> conn_ok s' cs2"
proof -
  note r = removeReplica_ok [OF s c]
  note un = unsubscribeAll_ok [OF r(1,2), where order = order, unfolded unsubscribeAll_replica, folded s'_def]
  show "server_ok s'" by (rule un)
  show "\<not> is_open (broker_of s') m \<and> m \<notin> listeners (broker_of s') ch" if "cs_sub cs = Some m" for m ch
    using un(2) [of m] that by simp
  show "feeds (sv_replicas s') = feeds (sv_replicas s) - {rep}" if "cs_replica cs = Some rep" for rep
    using un(4) r(4) [OF that] by simp
  show "conn_ok s' cs2" if "conn_ok s cs2" "apart cs cs2" for cs2
    using un(3) [OF r(3) [OF that]] that by (simp add: apart_def)
qed

section \<open>The whole life of a connection\<close>

lemma keeps_refl: "server_ok s \<Longrightarrow> conn_ok s cs \<Longrightarrow> keeps s cs s cs"
  by (simp add: keeps_def)

lemma keeps_trans: "keeps s cs s1 cs1 \<Longrightarrow> keeps s1 cs1 s2 cs2 \<Longrightarrow> keeps s cs s2 cs2"
  by (simp add: keeps_def)

lemma handle_loop_keeps:
  assumes "server_ok s" and "conn_ok s cs" and "handle_loop u q ws net e bs i s cs = Some (s', cs')"
  shows "keeps s cs s' cs'"
  using assms
proof (induction u q ws net e bs i s cs rule: handle_loop.induct)
  case (1 u q ws net e bs i s cs)
  show ?case
  proof (cases "Decode e bs")
    case (Fail x)
    have "keeps s cs s (fst (conn_write net cs v))" for v
      by (rule keeps_write [OF "1.prems"(1,2), of net v _ "snd (conn_write net cs v)"]) simp
    with Fail 1 keeps_refl [OF "1.prems"(1,2)] show ?thesis
      by (simp add: handle_loop.simps [of u q ws net e bs] split: if_splits) blast
  next
    case (Ret request r)
    obtain s1 cs1 b where sv: "serve u (ws i) net s cs request = (s1, cs1, b)" by (metis prod_cases3)
    note k = serve_keeps [OF "1.prems"(1,2) sv]
    show ?thesis
    proof (cases b)
      case False
      with Ret sv 1 k show ?thesis by (simp add: handle_loop.simps [of u q ws net e bs])
    next
      case True
      with Ret sv "1.prems"(3) have rec: "handle_loop u q ws net e r (Suc i) s1 cs1 = Some (s', cs')"
        by (simp add: handle_loop.simps [of u q ws net e bs])
      from k have "server_ok s1" "conn_ok s1 cs1" by (simp_all add: keeps_def)
      from "1.IH" [OF Ret sv [symmetric] refl _ this rec] True k show ?thesis by (auto intro: keeps_trans)
    qed
  next
    case Panic
    with "1.prems"(3) show ?thesis by (simp add: handle_loop.simps [of u q ws net e bs])
  qed
qed

lemma handle_ok:
  assumes s: "server_ok s" and h: "handle u q ws net e order remote bs s = Some (s', cs)"
  shows "server_ok s'" and "\<And>m ch. cs_sub cs = Some m \<Longrightarrow> \<not> is_open (broker_of s') m \<and> m \<notin> listeners (broker_of s') ch"
    and "\<And>rep. cs_replica cs = Some rep \<Longrightarrow> rep \<notin> feeds (sv_replicas s')"
    and "\<And>cs2. conn_ok s cs2 \<Longrightarrow> conn_ok s' cs2"
proof -
  from h obtain s1 where lp: "handle_loop u q ws net e bs 0 s (new_conn remote) = Some (s1, cs)"
    and s': "s' = unsubscribeAll order (removeReplica s1 cs) cs"
    by (auto simp: handle_def split: option.splits)
  from handle_loop_keeps [OF s conn_ok_new lp] have k: "server_ok s1" "conn_ok s1 cs"
    "\<And>cs2. conn_ok s cs2 \<Longrightarrow> conn_ok s1 cs2 \<and> apart cs cs2"
    by (simp_all add: keeps_def apart_def new_conn_def)
  note td = teardown_ok [OF k(1,2), where order = order, folded s']
  show "server_ok s'" by (rule td)
  show "\<not> is_open (broker_of s') m \<and> m \<notin> listeners (broker_of s') ch" if "cs_sub cs = Some m" for m ch
    by (rule td(2) [OF that])
  show "rep \<notin> feeds (sv_replicas s')" if "cs_replica cs = Some rep" for rep using td(3) [OF that] by simp
  show "conn_ok s' cs2" if "conn_ok s cs2" for cs2 using k(3) [OF that] td(4) by blast
qed

section \<open>Properties\<close>

text \<open>A connection's first \<open>SUBSCRIBE\<close>.\<close>

lemma first_subscribe:
  assumes "server_ok s" and "ToUpper u name = ''SUBSCRIBE''"
  obtains s1 cs1 b where "serve u w net s (new_conn remote) (bulkCmd name [channel]) = (s1, cs1, b)"
    and "cs_sub cs1 = Some (next_sub (broker_of s))" and "held cs1 = {channel}"
proof -
  let ?cs = "new_conn remote"
  obtain b0 m where new: "NewSubscriber (broker_of s) = (b0, m)" by fastforce
  then have m: "m = next_sub (broker_of s)" by (simp add: NewSubscriber_def)
  let ?cs1 = "?cs\<lparr>cs_sub := Some m, cs_channels := []\<rparr>"
  obtain s1 cs1 b where lp: "subscribe_loop net m (set_broker s b0) ?cs1 [BulkString (Some channel)] = (s1, cs1, b)"
    by (metis prod_cases3)
  have "serve u w net s ?cs (bulkCmd name [channel]) = (s1, cs1, b)"
    using assms(2) new lp
    by (simp add: serve_def Let_def subscribed_def new_conn_def bulkCmd_def commandName_def val_defs conn_subscribe_def)
  moreover have "cs_sub cs1 = Some m \<and> held cs1 = {channel}"
  proof -
    obtain cs2 ok where w: "conn_write net (?cs1\<lparr>cs_channels := [(channel, ())]\<rparr>) (subscribeReply ''subscribe'' channel 1) = (cs2, ok)"
      by fastforce
    from lp w have "cs1 = cs2" by (cases ok) (simp_all add: Let_def val_defs)
    with writes_frame [OF w] show ?thesis by (simp add: held_def)
  qed
  ultimately show thesis using that m by blast
qed



text \<open>
  C20: Serving any request keeps the registrations right: the channels a connection holds are exactly those
  its mailbox is registered on, for the connection served and for every other one; and while it
  holds a channel, every command other than SUBSCRIBE, UNSUBSCRIBE, PING and QUIT is refused
  without touching the server.
\<close>

theorem serve_keeps_registrations:
  assumes "server_ok s" and "conn_ok s cs" and "serve u w net s cs request = (s', cs', ok)"
  shows "server_ok s' \<and> conn_ok s' cs' \<and>
    (\<forall>cs2. conn_ok s cs2 \<longrightarrow> apart cs cs2 \<longrightarrow> conn_ok s' cs2 \<and> apart cs' cs2) \<and>
    (held cs \<noteq> {} \<longrightarrow> ToUpper u (commandName request) \<notin> {''SUBSCRIBE'', ''UNSUBSCRIBE'', ''PING'', ''QUIT''} \<longrightarrow>
      s' = s \<and> (cs', ok) = conn_write net cs (refused u (ToUpper u (commandName request))))"
proof -
  have "s' = s \<and> (cs', ok) = conn_write net cs (refused u (ToUpper u (commandName request)))"
    if "held cs \<noteq> {}" "ToUpper u (commandName request) \<notin> {''SUBSCRIBE'', ''UNSUBSCRIBE'', ''PING'', ''QUIT''}"
  proof -
    have "subscribed cs \<and> ToUpper u (commandName request) \<notin> set allowedWhileSubscribed"
      using that by (auto simp: held_def subscribed_def allowedWhileSubscribed_def)
    with assms(3) show ?thesis unfolding serve_def Let_def if_P [OF \<open>_ \<and> _\<close>] by (auto split: prod.splits)
  qed
  with serve_keeps [OF assms] show ?thesis by (simp add: keeps_def)
qed

theorem serve_keeps_registrations_witness:
  "(let u = \<lparr>upper_table = id, lower_table = id\<rparr>; s = the (NewMulti empty_disk 1 []);
        w = \<lparr>w_env = at_time 0, w_os = all_well, w_order = []\<rparr>;
        p = serve u w (\<lambda>_. None) s (new_conn ''client'') (bulkCmd ''subscribe'' [''news'']);
        q = serve u w (\<lambda>_. None) (fst p) (fst (snd p)) (bulkCmd ''set'' [''k'', ''v''])
    in conn_ok (fst p) (fst (snd p)) \<and> held (fst (snd p)) = {''news''} \<and> fst q = fst p)"
proof -
  let ?u = "\<lparr>upper_table = id, lower_table = id\<rparr>" and ?w = "\<lparr>w_env = at_time 0, w_os = all_well, w_order = []\<rparr>"
  define s where "s = the (NewMulti empty_disk 1 [])"
  have ok: "server_ok s" by (simp add: s_def server_ok_def NewMulti_def db_ok_New replicas_ok_New)
  have u: "ToUpper ?u ''subscribe'' = ''SUBSCRIBE''" "ToUpper ?u (commandName (bulkCmd ''set'' [''k'', ''v''])) = ''SET''"
    by code_simp+
  obtain s1 c1 b1 where p: "serve ?u ?w (\<lambda>_. None) s (new_conn ''client'') (bulkCmd ''subscribe'' [''news'']) = (s1, c1, b1)"
    and h: "held c1 = {''news''}"
    using first_subscribe [OF ok u(1), of ?w "\<lambda>_. None" "''client''" "''news''"] by metis
  obtain s2 c2 b2 where q: "serve ?u ?w (\<lambda>_. None) s1 c1 (bulkCmd ''set'' [''k'', ''v'']) = (s2, c2, b2)"
    by (metis prod_cases3)
  from serve_keeps_registrations [OF ok conn_ok_new p] serve_keeps_registrations [OF _ _ q] h u(2) p q
  show ?thesis unfolding Let_def s_def by simp
qed

text \<open>
  A replica is read-only for clients: a write command, in any letter case, is answered with READONLY
  and leaves the server as it was.
\<close>

lemma replica_refuses_writes:
  assumes "sv_primaryAddr s \<noteq> []" and "\<not> subscribed cs" and "ToUpper u (commandName request) \<in> set writeCommands"
  shows "serve u w net s cs request = (s, conn_write net cs readonly)"
proof -
  let ?n = "ToUpper u (commandName request)"
  have "IsWrite u ?n" using assms(3) by (simp add: IsWrite_def write_name_upper)
  moreover have "?n \<notin> {''SUBSCRIBE'', ''UNSUBSCRIBE'', ''REPLICAOF'', ''REPLCONF'', ''QUIT''}"
    using assms(3) by (auto simp: writeCommands_def)
  ultimately show ?thesis using assms(1,2) by (simp add: serve_def Let_def split: prod.splits)
qed

end
