(* ===== verification/Lifecycle.thy ===== *)
theory Lifecycle
  imports Durability Sessions
begin

text \<open>
  The life of a server process, \<open>Serve\<close> of \<open>internal/server/server.go\<close>: recovery, the background
  goroutines, one accept loop per listener, one handler per connection, and the orderly shutdown.
  The goroutines are a state machine: an event says which of them moves next, \<open>life_step\<close> is \<open>None\<close>
  where that goroutine cannot move. Requests are single events here; how two writes interleave
  inside the write mutex is the subject of \<open>Write_Path\<close>. A panic ends the process, so it is no event.
\<close>

section \<open>State\<close>

text \<open>The goroutines \<open>Serve\<close> waits for through a \<open>done\<close> channel, and where its own goroutine stands.\<close>

datatype task = ExpiryTask | RewriteTask | ReplicaTask | HeartbeatTask | MetricsTask

datatype serve_pc = AcceptWait | ConnWait | TaskWait "task list" | Returned

record life =
  lf_server :: server
  lf_lns :: nat
  lf_cancelled :: bool
  lf_closed :: nat
  lf_loops :: "nat list"
  lf_conns :: "(nat, conn) gomap"
  lf_next :: nat
  lf_tasks :: "task list"
  lf_pc :: serve_pc

text \<open>A \<open>done\<close> channel of a goroutine that is not started is closed from the outset.\<close>

definition serve_tasks :: "server \<Rightarrow> task list" where
  "serve_tasks s =
     (if sv_metricsAddr s \<noteq> [] then [MetricsTask] else []) @ [ExpiryTask] @
     (if sv_aof s \<noteq> None then [RewriteTask] else []) @
     (if sv_primaryAddr s \<noteq> [] then [ReplicaTask] else []) @ [HeartbeatTask]"

text \<open>The part of \<open>Serve\<close> before it waits; \<open>None\<close> is the early return of the recovery's error.\<close>

definition Serve :: "unicode \<Rightarrow> (nat \<Rightarrow> env) \<Rightarrow> bool \<Rightarrow> io_err \<Rightarrow> os_outcome \<Rightarrow> nat \<Rightarrow> server \<Rightarrow> life option" where
  "Serve u envs openable e os lns s =
     (case (if sv_aofPath s \<noteq> [] then loadAOF u envs openable e os s else (s, True)) of
        (_, False) \<Rightarrow> None
      | (s', True) \<Rightarrow>
          Some \<lparr>lf_server = s', lf_lns = lns, lf_cancelled = False, lf_closed = 0, lf_loops = [0..<lns],
             lf_conns = [], lf_next = 0, lf_tasks = serve_tasks s', lf_pc = AcceptWait\<rparr>)"

section \<open>Steps\<close>

datatype life_event =
    EvCancel
  | EvCloseListener
  | EvAccept nat string
  | EvAcceptError nat
  | EvAcceptClosed nat
  | EvRequest nat world net resp choices
  | EvClientGone nat choices
  | EvDeliver nat net
  | EvDeliverReplica nat net
  | EvExpiryTick "nat \<Rightarrow> env \<times> nat"
  | EvRewriteTick os_outcome rewrite_outcome env env
  | EvFsyncTick os_outcome
  | EvHeartbeat choices choices int
  | EvStreamed env resp
  | EvTaskDone task
  | EvProceed os_outcome

text \<open>The deferred calls of \<open>handle\<close>.\<close>

definition teardown :: "choices \<Rightarrow> server \<Rightarrow> conn \<Rightarrow> server" where
  "teardown order s cs = unsubscribeAll order (removeReplica s cs) cs"

text \<open>The deferred close of the log; its error is only logged.\<close>

definition close_log :: "os_outcome \<Rightarrow> server \<Rightarrow> server" where
  "close_log os s =
     (case sv_aof s of
        None \<Rightarrow> s
      | Some a \<Rightarrow> (case aof_Close os (sv_disk s) a of (d, a', _) \<Rightarrow> s\<lparr>sv_disk := d, sv_aof := Some a'\<rparr>))"

text \<open>The shutdown goroutine closes the listeners in order, so the first \<open>lf_closed\<close> are closed.\<close>

definition close_listener :: "life \<Rightarrow> life option" where
  "close_listener l =
     (if lf_cancelled l \<and> lf_closed l < lf_lns l then Some (l\<lparr>lf_closed := Suc (lf_closed l)\<rparr>) else None)"

definition accept_conn :: "nat \<Rightarrow> string \<Rightarrow> life \<Rightarrow> life option" where
  "accept_conn i remote l =
     (if i \<in> set (lf_loops l) \<and> lf_closed l \<le> i
      then Some (l\<lparr>lf_conns := AList.update (lf_next l) (new_conn remote) (lf_conns l), lf_next := Suc (lf_next l)\<rparr>)
      else None)"

text \<open>An accept error on an open listener is logged and the loop goes on; on a closed one it ends.\<close>

definition accept_error :: "nat \<Rightarrow> life \<Rightarrow> life option" where
  "accept_error i l = (if i \<in> set (lf_loops l) \<and> lf_closed l \<le> i then Some l else None)"

definition accept_closed :: "nat \<Rightarrow> life \<Rightarrow> life option" where
  "accept_closed i l =
     (if i \<in> set (lf_loops l) \<and> i < lf_closed l then Some (l\<lparr>lf_loops := removeAll i (lf_loops l)\<rparr>) else None)"

text \<open>A handler that returns tears its connection down.\<close>

definition finish_conn :: "nat \<Rightarrow> choices \<Rightarrow> server \<Rightarrow> conn \<Rightarrow> life \<Rightarrow> life" where
  "finish_conn i order s cs l =
     l\<lparr>lf_server := teardown order s cs, lf_conns := AList.delete i (lf_conns l)\<rparr>"

definition serve_conn :: "unicode \<Rightarrow> nat \<Rightarrow> world \<Rightarrow> net \<Rightarrow> resp \<Rightarrow> choices \<Rightarrow> life \<Rightarrow> life option" where
  "serve_conn u i w net r order l =
     (case map_of (lf_conns l) i of
        None \<Rightarrow> None
      | Some cs \<Rightarrow>
          (case serve u w net (lf_server l) cs r of
             (s', cs', True) \<Rightarrow> Some (l\<lparr>lf_server := s', lf_conns := AList.update i cs' (lf_conns l)\<rparr>)
           | (s', cs', False) \<Rightarrow> Some (finish_conn i order s' cs' l)))"

definition client_gone :: "nat \<Rightarrow> choices \<Rightarrow> life \<Rightarrow> life option" where
  "client_gone i order l =
     map_option (\<lambda>cs. finish_conn i order (lf_server l) cs l) (map_of (lf_conns l) i)"

text \<open>A round of a delivery goroutine writes to the connection without touching its registrations.\<close>

definition deliver_conn :: "(server \<Rightarrow> conn \<Rightarrow> server \<times> conn \<times> bool) \<Rightarrow> nat \<Rightarrow> life \<Rightarrow> life option" where
  "deliver_conn f i l =
     (case map_of (lf_conns l) i of
        None \<Rightarrow> None
      | Some cs \<Rightarrow>
          (case f (lf_server l) cs of
             (s', cs', _) \<Rightarrow> Some (l\<lparr>lf_server := s', lf_conns := AList.update i cs' (lf_conns l)\<rparr>)))"

text \<open>A tick of a background goroutine that is still running.\<close>

definition task_tick :: "task \<Rightarrow> (server \<Rightarrow> server option) \<Rightarrow> life \<Rightarrow> life option" where
  "task_tick t f l =
     (if t \<in> set (lf_tasks l) then map_option (\<lambda>s. l\<lparr>lf_server := s\<rparr>) (f (lf_server l)) else None)"

definition expiry_tick :: "(nat \<Rightarrow> env \<times> nat) \<Rightarrow> server \<Rightarrow> server option" where
  "expiry_tick world s = map_option (\<lambda>(d, _). s\<lparr>sv_db := d\<rparr>) (drain world 0 (sv_db s))"

definition fsync_tick :: "os_outcome \<Rightarrow> life \<Rightarrow> life option" where
  "fsync_tick os l =
     map_option (\<lambda>a. l\<lparr>lf_server := (lf_server l)\<lparr>sv_disk := syncEverySec os (sv_disk (lf_server l)) a\<rparr>\<rparr>)
       (sv_aof (lf_server l))"

text \<open>Every background goroutine returns once the context is cancelled.\<close>

definition task_done :: "task \<Rightarrow> life \<Rightarrow> life option" where
  "task_done t l =
     (if lf_cancelled l \<and> t \<in> set (lf_tasks l) then Some (l\<lparr>lf_tasks := removeAll t (lf_tasks l)\<rparr>) else None)"

text \<open>The waits of \<open>Serve\<close> itself, in order, and its return.\<close>

definition proceed :: "os_outcome \<Rightarrow> life \<Rightarrow> life option" where
  "proceed os l =
     (case lf_pc l of
        AcceptWait \<Rightarrow> if lf_loops l = [] then Some (l\<lparr>lf_pc := ConnWait\<rparr>) else None
      | ConnWait \<Rightarrow>
          if lf_conns l = []
          then Some (l\<lparr>lf_pc := TaskWait [ExpiryTask, RewriteTask, ReplicaTask, HeartbeatTask, MetricsTask]\<rparr>) else None
      | TaskWait (t # ts) \<Rightarrow> if t \<notin> set (lf_tasks l) then Some (l\<lparr>lf_pc := TaskWait ts\<rparr>) else None
      | TaskWait [] \<Rightarrow> Some (l\<lparr>lf_server := close_log os (lf_server l), lf_pc := Returned\<rparr>)
      | Returned \<Rightarrow> None)"

fun life_step :: "unicode \<Rightarrow> life_event \<Rightarrow> life \<Rightarrow> life option" where
  "life_step u EvCancel l = Some (l\<lparr>lf_cancelled := True\<rparr>)"
| "life_step u EvCloseListener l = close_listener l"
| "life_step u (EvAccept i remote) l = accept_conn i remote l"
| "life_step u (EvAcceptError i) l = accept_error i l"
| "life_step u (EvAcceptClosed i) l = accept_closed i l"
| "life_step u (EvRequest i w net r order) l = serve_conn u i w net r order l"
| "life_step u (EvClientGone i order) l = client_gone i order l"
| "life_step u (EvDeliver i net) l = deliver_conn (deliver net) i l"
| "life_step u (EvDeliverReplica i net) l = deliver_conn (deliverReplica net) i l"
| "life_step u (EvExpiryTick world) l = task_tick ExpiryTask (expiry_tick world) l"
| "life_step u (EvRewriteTick st os env wenv) l = task_tick RewriteTask (\<lambda>s. Some (runAutoRewrite st os env wenv s)) l"
| "life_step u (EvFsyncTick os) l = fsync_tick os l"
| "life_step u (EvHeartbeat cs cs' now) l = task_tick HeartbeatTask (\<lambda>s. Some (fst (runReplicaHeartbeat cs cs' now s))) l"
| "life_step u (EvStreamed env c) l = task_tick ReplicaTask (\<lambda>s. Some (apply_streamed u env s c)) l"
| "life_step u (EvTaskDone t) l = task_done t l"
| "life_step u (EvProceed os) l = proceed os l"

text \<open>A run all of whose events satisfy \<open>P\<close> in the state they happen in.\<close>

fun life_run :: "unicode \<Rightarrow> (life_event \<Rightarrow> life \<Rightarrow> bool) \<Rightarrow> life_event list \<Rightarrow> life \<Rightarrow> life option" where
  "life_run u P [] l = Some l"
| "life_run u P (ev # evs) l =
     (if P ev l then (case life_step u ev l of None \<Rightarrow> None | Some l' \<Rightarrow> life_run u P evs l') else None)"

abbreviation any_event :: "life_event \<Rightarrow> life \<Rightarrow> bool" where "any_event \<equiv> \<lambda>_ _. True"

lemma life_run_invariant:
  assumes "life_run u P evs l = Some l'" and "I l"
    and "\<And>ev l l'. P ev l \<Longrightarrow> I l \<Longrightarrow> life_step u ev l = Some l' \<Longrightarrow> I l'"
  shows "I l'"
  using assms(1,2) by (induction evs arbitrary: l) (auto split: if_splits option.splits intro: assms(3))

section \<open>The order of the shutdown\<close>

definition phase_ok :: "life \<Rightarrow> bool" where
  "phase_ok l \<longleftrightarrow>
     lf_closed l \<le> lf_lns l \<and> (0 < lf_closed l \<longrightarrow> lf_cancelled l) \<and>
     (\<forall>i < lf_lns l. i \<in> set (lf_loops l) \<or> i < lf_closed l) \<and> set (lf_loops l) \<subseteq> {..<lf_lns l} \<and>
     (lf_pc l \<noteq> AcceptWait \<longrightarrow> lf_loops l = []) \<and>
     (lf_pc l \<notin> {AcceptWait, ConnWait} \<longrightarrow> lf_conns l = []) \<and>
     (\<forall>ts. lf_pc l = TaskWait ts \<longrightarrow> set (lf_tasks l) \<subseteq> set ts) \<and>
     (lf_pc l = Returned \<longrightarrow> lf_tasks l = [])"

text \<open>The parts of the state a step of a handler or of a background goroutine leaves alone.\<close>

definition same_phase :: "life \<Rightarrow> life \<Rightarrow> bool" where
  "same_phase l l' \<longleftrightarrow> lf_lns l' = lf_lns l \<and> lf_closed l' = lf_closed l \<and> lf_cancelled l' = lf_cancelled l \<and>
     lf_loops l' = lf_loops l \<and> lf_tasks l' = lf_tasks l \<and> lf_pc l' = lf_pc l \<and>
     (lf_conns l = [] \<longrightarrow> lf_conns l' = [])"

lemma phase_ok_same: "phase_ok l \<Longrightarrow> same_phase l l' \<Longrightarrow> phase_ok l'"
  by (simp add: phase_ok_def same_phase_def)

lemmas work_steps = serve_conn_def client_gone_def finish_conn_def deliver_conn_def task_tick_def fsync_tick_def

lemma work_same_phase:
  "serve_conn u i w net r order l = Some l' \<Longrightarrow> same_phase l l'"
  "client_gone i order l = Some l' \<Longrightarrow> same_phase l l'"
  "deliver_conn f i l = Some l' \<Longrightarrow> same_phase l l'"
  "task_tick t g l = Some l' \<Longrightarrow> same_phase l l'"
  "fsync_tick os l = Some l' \<Longrightarrow> same_phase l l'"
  by (auto simp: work_steps same_phase_def split: option.splits prod.splits bool.splits if_splits)

lemma subset_drop_absent: "S \<subseteq> insert t T \<Longrightarrow> t \<notin> S \<Longrightarrow> S \<subseteq> T"
  by auto

lemma all_tasks: "{ExpiryTask, RewriteTask, ReplicaTask, HeartbeatTask, MetricsTask} = UNIV"
  by (auto intro: task.exhaust)

lemma proceed_phase:
  assumes "proceed os l = Some l'" and "phase_ok l"
  shows "phase_ok l'"
proof (cases "lf_pc l")
  case (TaskWait ts)
  with assms subset_drop_absent [of "set (lf_tasks l)"] show ?thesis
    by (cases ts) (auto simp: proceed_def phase_ok_def split: if_splits)
qed (use assms in \<open>auto simp: proceed_def phase_ok_def all_tasks split: if_splits\<close>)

lemma accept_phase:
  "accept_conn i remote l = Some l' \<Longrightarrow> phase_ok l \<Longrightarrow> phase_ok l'"
  "accept_error i l = Some l' \<Longrightarrow> phase_ok l \<Longrightarrow> phase_ok l'"
  by (cases "lf_pc l"; simp add: accept_conn_def accept_error_def phase_ok_def split: if_splits; force)+

lemma accept_closed_phase:
  assumes "accept_closed i l = Some l'" and "phase_ok l"
  shows "phase_ok l'"
proof -
  from assms(1) have i: "i \<in> set (lf_loops l)" "i < lf_closed l" and l': "l' = l\<lparr>lf_loops := removeAll i (lf_loops l)\<rparr>"
    by (simp_all add: accept_closed_def split: if_splits)
  with assms(2) have "lf_pc l = AcceptWait" by (auto simp: phase_ok_def)
  with assms(2) i(2) show ?thesis unfolding phase_ok_def l' by auto
qed

lemma cancelled_phase:
  "close_listener l = Some l' \<Longrightarrow> phase_ok l \<Longrightarrow> phase_ok l'"
  "task_done t l = Some l' \<Longrightarrow> phase_ok l \<Longrightarrow> phase_ok l'"
  unfolding close_listener_def task_done_def phase_ok_def
  by (auto simp: less_Suc_eq split: if_splits simp del: disj_not1)

lemma phase_step: "life_step u ev l = Some l' \<Longrightarrow> phase_ok l \<Longrightarrow> phase_ok l'"
proof (cases ev)
  case EvCancel
  then show "life_step u ev l = Some l' \<Longrightarrow> phase_ok l \<Longrightarrow> phase_ok l'" by (auto simp: phase_ok_def)
qed (simp_all, (metis accept_phase accept_closed_phase cancelled_phase proceed_phase phase_ok_same work_same_phase)+)

lemma Serve_phase: "Serve u envs openable e os lns s = Some l \<Longrightarrow> phase_ok l"
  by (auto simp: Serve_def phase_ok_def split: prod.splits bool.splits if_splits)

section \<open>Registrations belong to live connections\<close>

definition conns_ok :: "server \<Rightarrow> (nat \<rightharpoonup> conn) \<Rightarrow> bool" where
  "conns_ok s C \<longleftrightarrow> server_ok s \<and>
     (\<forall>i cs. C i = Some cs \<longrightarrow> conn_ok s cs) \<and>
     (\<forall>i j cs cs'. C i = Some cs \<longrightarrow> C j = Some cs' \<longrightarrow> i \<noteq> j \<longrightarrow> apart cs cs') \<and>
     (\<forall>m. is_open (broker_of s) m \<longrightarrow> (\<exists>i cs. C i = Some cs \<and> cs_sub cs = Some m))"

lemma apart_sym: "apart cs cs' \<Longrightarrow> apart cs' cs"
  by (auto simp: apart_def)

lemma apart_new: "apart cs (new_conn remote)"
  by (simp add: apart_def new_conn_def)

lemma conns_ok_accept:
  assumes "conns_ok s C" and "C i = None"
  shows "conns_ok s (C(i \<mapsto> new_conn remote))"
proof -
  have "\<exists>j cs. (C(i \<mapsto> new_conn remote)) j = Some cs \<and> cs_sub cs = Some m" if "is_open (broker_of s) m" for m
    using that assms unfolding conns_ok_def by (metis fun_upd_other option.distinct(1))
  with assms show ?thesis
    by (auto simp: conns_ok_def conn_ok_new apart_new intro: apart_sym [OF apart_new])
qed

text \<open>What a handler may do to the mailboxes: it opens only its own, and it never gives that one up.\<close>

definition own_mailbox :: "server \<Rightarrow> conn \<Rightarrow> server \<Rightarrow> conn \<Rightarrow> bool" where
  "own_mailbox s cs s' cs' \<longleftrightarrow>
     (\<forall>m. is_open (broker_of s') m \<longrightarrow> is_open (broker_of s) m \<or> cs_sub cs' = Some m) \<and>
     (\<forall>m. cs_sub cs = Some m \<longrightarrow> cs_sub cs' = Some m)"

lemma conns_ok_serve:
  assumes C: "conns_ok s C" "C i = Some cs" and k: "keeps s cs s' cs'" and own: "own_mailbox s cs s' cs'"
  shows "conns_ok s' (C(i \<mapsto> cs'))"
proof -
  have other: "conn_ok s' c \<and> apart cs' c" if "C j = Some c" "j \<noteq> i" for j c
    using that C k unfolding conns_ok_def keeps_def by metis
  have "\<exists>j c. (C(i \<mapsto> cs')) j = Some c \<and> cs_sub c = Some m" if "is_open (broker_of s') m" for m
  proof (cases "cs_sub cs' = Some m")
    case False
    with own that have "is_open (broker_of s) m" "cs_sub cs \<noteq> Some m" by (auto simp: own_mailbox_def)
    with C obtain j c where j: "C j = Some c" "cs_sub c = Some m" unfolding conns_ok_def by blast
    with C \<open>cs_sub cs \<noteq> Some m\<close> have "j \<noteq> i" by auto
    with j show ?thesis by (metis fun_upd_other)
  qed auto
  with C other k show ?thesis by (auto simp: conns_ok_def keeps_def intro: apart_sym)
qed

lemma CloseSub_opens: "is_open (CloseSub b k) m \<Longrightarrow> is_open b m"
  by (auto simp: CloseSub_def is_open_def close_chan_def split: option.splits if_splits)

lemma Unsubscribe_fold_open [simp]:
  "is_open (fold (\<lambda>(c, _) b. Unsubscribe b c m) cs b) = is_open b"
  by (induction cs arbitrary: b) (auto simp: split_beta)

lemma teardown_opens:
  assumes "is_open (broker_of (teardown order s cs)) m"
  shows "is_open (broker_of s) m"
proof -
  have "broker_of (removeReplica s cs) = broker_of s" by (simp add: removeReplica_def split: option.splits)
  with assms show ?thesis
    by (auto simp: teardown_def unsubscribeAll_def Let_def split: option.splits dest: CloseSub_opens)
qed

lemma conns_ok_finish:
  assumes C: "conns_ok s C" "C i = Some cs"
  shows "conns_ok (teardown order s cs) (C(i := None))"
proof -
  from C have "server_ok s" "conn_ok s cs" by (simp_all add: conns_ok_def)
  note td = teardown_ok [OF this, where order = order, folded teardown_def]
  have "\<exists>j c. (C(i := None)) j = Some c \<and> cs_sub c = Some m" if op: "is_open (broker_of (teardown order s cs)) m" for m
  proof -
    from C teardown_opens [OF op] obtain j c where j: "C j = Some c" "cs_sub c = Some m"
      unfolding conns_ok_def by blast
    with td(2) op C have "j \<noteq> i" by auto
    with j show ?thesis by (metis fun_upd_other)
  qed
  moreover have "conn_ok (teardown order s cs) c" if "C j = Some c" "j \<noteq> i" for j c
    using that C td(4) unfolding conns_ok_def by metis
  ultimately show ?thesis using C td(1) by (auto simp: conns_ok_def)
qed

section \<open>What one request does to mailboxes and to the store\<close>

definition same_store :: "server \<Rightarrow> server \<Rightarrow> bool" where
  "same_store s s' \<longleftrightarrow> shards (sv_db s') = shards (sv_db s) \<and> sv_aof s' = sv_aof s \<and>
     sv_aofPath s' = sv_aofPath s \<and> sv_disk s' = sv_disk s"

definition request_effect :: "unicode \<Rightarrow> world \<Rightarrow> resp \<Rightarrow> server \<Rightarrow> conn \<Rightarrow> server \<Rightarrow> conn \<Rightarrow> bool" where
  "request_effect u w r s cs s' cs' \<longleftrightarrow>
     own_mailbox s cs s' cs' \<and> (same_store s s' \<or> s' = fst (server_apply u w s r))"

lemma same_store_refl [simp]: "same_store s s"
  by (simp add: same_store_def)

lemma same_store_trans: "same_store s s1 \<Longrightarrow> same_store s1 s2 \<Longrightarrow> same_store s s2"
  by (simp add: same_store_def)

lemma same_store_broker [simp]: "same_store s (set_broker s b)"
  by (simp add: same_store_def set_broker_def)

lemma effect_write: "conn_write net cs v = (cs', ok) \<Longrightarrow> request_effect u w r s cs s cs'"
  using writes_frame(1) by (simp add: request_effect_def own_mailbox_def)

lemma subscribe_loop_effect:
  "subscribe_loop net m s cs channels = (s', cs', ok) \<Longrightarrow>
     cs_sub cs' = cs_sub cs \<and> same_store s s' \<and> mailboxes (broker_of s') = mailboxes (broker_of s)"
proof (induction channels arbitrary: s cs)
  case (Cons c channels)
  define already where "already \<longleftrightarrow> map_of (cs_channels cs) (bulk_str c) \<noteq> None"
  define cs1 where "cs1 = (if already then cs else cs\<lparr>cs_channels := AList.update (bulk_str c) () (cs_channels cs)\<rparr>)"
  define s1 where "s1 = (if already then s else set_broker s (Subscribe (broker_of s) (bulk_str c) m))"
  obtain cs2 b where w: "conn_write net cs1 (subscribeReply ''subscribe'' (bulk_str c) (length (cs_channels cs1))) = (cs2, b)"
    by fastforce
  have step: "cs_sub cs2 = cs_sub cs" "same_store s s1" "mailboxes (broker_of s1) = mailboxes (broker_of s)"
    using writes_frame(1) [OF w] by (simp_all add: cs1_def s1_def)
  from Cons.prems have "(if b then subscribe_loop net m s1 cs2 channels else (s1, cs2, False)) = (s', cs', ok)"
    unfolding subscribe_loop.simps Let_def already_def [symmetric] cs1_def [symmetric] s1_def [symmetric] w
    by (cases b) simp_all
  with Cons.IH [of s1 cs2] step show ?case by (cases b) (auto intro: same_store_trans)
qed simp

lemma unsubscribe_loop_effect:
  "unsubscribe_loop net s cs targets = (s', cs', ok) \<Longrightarrow>
     cs_sub cs' = cs_sub cs \<and> same_store s s' \<and> mailboxes (broker_of s') = mailboxes (broker_of s)"
proof (induction targets arbitrary: s cs)
  case (Cons c targets)
  define had where "had \<longleftrightarrow> map_of (cs_channels cs) c \<noteq> None"
  define cs1 where "cs1 = (if had then cs\<lparr>cs_channels := AList.delete c (cs_channels cs)\<rparr> else cs)"
  define s1 where "s1 = (if had then (case cs_sub cs of None \<Rightarrow> s
      | Some sub \<Rightarrow> set_broker s (Unsubscribe (broker_of s) c sub)) else s)"
  obtain cs2 b where w: "conn_write net cs1 (subscribeReply ''unsubscribe'' c (length (cs_channels cs1))) = (cs2, b)"
    by fastforce
  have step: "cs_sub cs2 = cs_sub cs" "same_store s s1" "mailboxes (broker_of s1) = mailboxes (broker_of s)"
    using writes_frame(1) [OF w] by (simp_all add: cs1_def s1_def Unsubscribe_frame split: option.splits)
  from Cons.prems have "(if b then unsubscribe_loop net s1 cs2 targets else (s1, cs2, False)) = (s', cs', ok)"
    unfolding unsubscribe_loop.simps Let_def had_def [symmetric] cs1_def [symmetric] s1_def [symmetric] w
    by (cases b) simp_all
  with Cons.IH [of s1 cs2] step show ?case by (cases b) (auto intro: same_store_trans)
qed simp

lemma subscribe_effect:
  assumes "conn_subscribe net s cs channels = (s', cs', ok)"
  shows "request_effect u w r s cs s' cs'"
proof (cases "channels = []")
  case True
  with assms show ?thesis by (auto simp: conn_subscribe_def split: prod.splits intro: effect_write)
next
  case False
  show ?thesis
  proof (cases "cs_sub cs")
    case (Some m)
    with assms False have "subscribe_loop net m s cs channels = (s', cs', ok)" by (simp add: conn_subscribe_def)
    from subscribe_loop_effect [OF this] show ?thesis by (simp add: request_effect_def own_mailbox_def is_open_def)
  next
    case None
    obtain b m where new: "NewSubscriber (broker_of s) = (b, m)" by fastforce
    then have "is_open b k \<Longrightarrow> is_open (broker_of s) k \<or> k = m" for k
      by (auto simp: NewSubscriber_def is_open_def split: if_splits)
    moreover from assms False None new
    have "subscribe_loop net m (set_broker s b) (cs\<lparr>cs_sub := Some m, cs_channels := []\<rparr>) channels = (s', cs', ok)"
      by (simp add: conn_subscribe_def)
    note subscribe_loop_effect [OF this]
    ultimately show ?thesis using None
      by (auto simp: request_effect_def own_mailbox_def is_open_def intro: same_store_trans [OF same_store_broker])
  qed
qed

lemma unsubscribe_effect:
  assumes "conn_unsubscribe order net s cs channels = (s', cs', ok)"
  shows "request_effect u w r s cs s' cs'"
proof -
  define targets where "targets = (if channels = [] then map fst (go_range order (cs_channels cs)) else map bulk_str channels)"
  show ?thesis
  proof (cases "targets = []")
    case True
    with assms show ?thesis
      by (auto simp: conn_unsubscribe_def targets_def [symmetric] Let_def split: prod.splits intro: effect_write)
  next
    case False
    with assms have "unsubscribe_loop net s cs targets = (s', cs', ok)"
      by (simp add: conn_unsubscribe_def targets_def [symmetric] Let_def)
    from unsubscribe_loop_effect [OF this] show ?thesis by (simp add: request_effect_def own_mailbox_def is_open_def)
  qed
qed

lemma replicaof_effect:
  assumes "conn_replicaof now net s cs = (s', cs', ok)"
  shows "request_effect u w r s cs s' cs'"
proof -
  obtain cs1 b where w: "conn_write net cs okVal = (cs1, b)" by fastforce
  from assms w writes_frame(1) [OF w] show ?thesis
    by (cases b) (auto simp: conn_replicaof_def request_effect_def own_mailbox_def same_store_def split: prod.splits)
qed

lemma apply_effect:
  assumes "server_ok s" and "server_apply u w s r = (s', reply, m)" and "conn_write net cs reply = (cs', ok)"
  shows "request_effect u w r s cs s' cs'"
  using server_apply_ok(3) [OF assms(1,2)] writes_frame(1) [OF assms(3)] assms(2)
  by (simp add: request_effect_def own_mailbox_def)

lemma replconf_effect: "request_effect u w r s cs (s\<lparr>sv_replicas := x\<rparr>) cs"
  by (simp add: request_effect_def own_mailbox_def same_store_def)

lemma serve_effect:
  assumes s: "server_ok s" and sv: "serve u w net s cs r = (s', cs', ok)"
  shows "request_effect u w r s cs s' cs'"
  using sv
proof (cases rule: serve_cases)
  case (reply v b)
  then show ?thesis by (simp add: effect_write)
next
  case (ack rep)
  then show ?thesis by (simp add: replconf_effect)
next
  case (run reply m)
  from run(1,2) show ?thesis by (rule apply_effect [OF s])
qed (simp_all add: subscribe_effect unsubscribe_effect replicaof_effect)

section \<open>Every step keeps the registrations in order\<close>

lemma conns_ok_background:
  assumes "conns_ok s C" and "server_ok s'" and "listeners (broker_of s') = listeners (broker_of s)"
    and "\<And>m. is_open (broker_of s') m = is_open (broker_of s) m" and "feeds (sv_replicas s') = feeds (sv_replicas s)"
  shows "conns_ok s' C"
proof -
  have "conn_ok s' cs" if "conn_ok s cs" for cs by (rule conn_ok_cong [OF that]) (simp_all add: assms)
  with assms show ?thesis by (simp add: conns_ok_def)
qed

lemma deliver_cases:
  assumes d: "deliver net s cs = (s', cs', ok)"
  obtains (idle) "s' = s" and "cs' = cs"
    | (message) sub ch x ch' v b where "mailboxes (broker_of s) sub = Some ch" and "recv ch = Received x ch'"
      and "conn_write net cs v = (cs', b)"
      and "s' = set_broker s ((broker_of s)\<lparr>mailboxes := (mailboxes (broker_of s))(sub \<mapsto> ch')\<rparr>)"
proof (cases "\<exists>sub ch x ch'. cs_sub cs = Some sub \<and> mailboxes (broker_of s) sub = Some ch \<and> recv ch = Received x ch'")
  case True
  then obtain sub ch x ch' where "cs_sub cs = Some sub" and c: "mailboxes (broker_of s) sub = Some ch" "recv ch = Received x ch'"
    by blast
  with d message [OF c] show thesis
    by (cases "conn_write net cs (messageReply (msg_Channel x) (msg_Payload x))") (simp add: deliver_def)
next
  case False
  with d have "s' = s \<and> cs' = cs" by (fastforce simp: deliver_def split: option.splits received.splits)
  with idle show thesis by blast
qed

lemma deliver_quiet:
  assumes s: "server_ok s" and d: "deliver net s cs = (s', cs', ok)"
  shows "server_ok s' \<and> same_store s s' \<and> is_open (broker_of s') = is_open (broker_of s) \<and>
    (\<forall>c. conn_ok s c \<longrightarrow> conn_ok s' c)"
  using d
proof (cases rule: deliver_cases)
  case idle
  with s show ?thesis by simp
next
  case (message sub ch x ch' v b)
  note s' = message(4)
  have op: "is_open (broker_of s') m = is_open (broker_of s) m" for m
    using message(1) recv_chan [OF message(2)] by (simp add: s' is_open_def)
  have ls: "listeners (broker_of s') = listeners (broker_of s)" by (rule subs_of_cong [THEN conjunct2]) (simp add: s')
  have "broker_ok (broker_of s')"
    using server_ok_broker [OF s] heap_recv [of "mailboxes (broker_of s)", OF message(1,2)]
    by (intro broker_ok_heap [OF server_ok_broker [OF s]]) (simp_all add: s' broker_ok_def)
  then have "server_ok s'" using s by (simp add: s' server_ok_set_broker)
  moreover have "conn_ok s' c" if "conn_ok s c" for c
    by (rule conn_ok_cong [OF that]) (simp_all only: ls op, simp add: s')
  moreover have "same_store s s'" by (simp add: s')
  ultimately show ?thesis using op by (simp add: fun_eq_iff)
qed

lemma deliver_keeps:
  assumes s: "server_ok s" and c: "conn_ok s cs" and d: "deliver net s cs = (s', cs', ok)"
  shows "keeps s cs s' cs'" and "own_mailbox s cs s' cs'" and "same_store s s'"
proof -
  note q = deliver_quiet [OF s d]
  from q show "same_store s s'" by blast
  have w: "cs' = cs \<or> (\<exists>v b. conn_write net cs v = (cs', b))" using d by (cases rule: deliver_cases) blast+
  then show "keeps s cs s' cs'" using q c keeps_server [of s' s cs] keeps_trans_write [of s' s cs] by blast
  have "cs_sub cs' = cs_sub cs" using w writes_frame(1) by metis
  with q show "own_mailbox s cs s' cs'" by (simp add: own_mailbox_def)
qed

lemma deliverReplica_cases:
  assumes d: "deliverReplica net s cs = (s', cs', ok)"
  obtains (idle) "s' = s" and "cs' = cs"
    | (frame) rep ch x ch' b where "queues (sv_replicas s) rep = Some ch" and "recv ch = Received x ch'"
      and "writeRaw net cs x = (cs', b)"
      and "s' = s\<lparr>sv_replicas := (sv_replicas s)\<lparr>queues := (queues (sv_replicas s))(rep \<mapsto> ch')\<rparr>\<rparr>"
proof (cases "\<exists>rep ch x ch'. cs_replica cs = Some rep \<and> queues (sv_replicas s) rep = Some ch \<and> recv ch = Received x ch'")
  case True
  then obtain rep ch x ch' where "cs_replica cs = Some rep" and c: "queues (sv_replicas s) rep = Some ch" "recv ch = Received x ch'"
    by blast
  with d frame [OF c] show thesis by (cases "writeRaw net cs x") (simp add: deliverReplica_def)
next
  case False
  with d have "s' = s \<and> cs' = cs" by (fastforce simp: deliverReplica_def split: option.splits received.splits)
  with idle show thesis by blast
qed

lemma deliverReplica_keeps:
  assumes s: "server_ok s" and c: "conn_ok s cs" and d: "deliverReplica net s cs = (s', cs', ok)"
  shows "keeps s cs s' cs'" and "own_mailbox s cs s' cs'" and "same_store s s'"
proof -
  from d have "keeps s cs s' cs' \<and> own_mailbox s cs s' cs' \<and> same_store s s'"
  proof (cases rule: deliverReplica_cases)
    case idle
    with keeps_refl [OF s c] show ?thesis by (simp add: own_mailbox_def)
  next
    case (frame rep ch x ch' b)
    note s' = frame(4)
    have cs': "cs_sub cs' = cs_sub cs" "cs_channels cs' = cs_channels cs" "cs_replica cs' = cs_replica cs"
      using frame(3) by (auto simp: writeRaw_def Let_def split: if_splits option.splits)
    have ok: "server_ok s'"
      using s heap_recv [of "queues (sv_replicas s)", OF frame(1,2)] by (simp add: s' server_ok_def replicas_ok_def feeds_def)
    have cong: "conn_ok s' c2" if "conn_ok s c2" for c2
      by (rule conn_ok_cong [OF that]) (simp_all add: s' feeds_def)
    have "conn_ok s' cs'" by (rule conn_ok_cong [OF cong [OF c]]) (simp_all add: cs')
    with ok cong cs' have "keeps s cs s' cs'" by (auto simp: keeps_def intro: apart_cong)
    with cs' show ?thesis by (simp add: own_mailbox_def s' same_store_def)
  qed
  then show "keeps s cs s' cs'" "own_mailbox s cs s' cs'" "same_store s s'" by blast+
qed

definition life_ok :: "life \<Rightarrow> bool" where
  "life_ok l \<longleftrightarrow> phase_ok l \<and> conns_ok (lf_server l) (map_of (lf_conns l)) \<and> (\<forall>i \<in> dom (map_of (lf_conns l)). i < lf_next l)"

text \<open>A background goroutine leaves the registrations, the mailboxes and the feeds alone.\<close>

definition keeps_registry :: "server \<Rightarrow> server \<Rightarrow> bool" where
  "keeps_registry s s' \<longleftrightarrow> (server_ok s \<longrightarrow> server_ok s' \<and> listeners (broker_of s') = listeners (broker_of s) \<and>
     (\<forall>m. is_open (broker_of s') m = is_open (broker_of s) m) \<and> feeds (sv_replicas s') = feeds (sv_replicas s))"

lemma conns_ok_registry: "conns_ok s C \<Longrightarrow> keeps_registry s s' \<Longrightarrow> conns_ok s' C"
  using conns_ok_background [of s C s'] by (simp add: keeps_registry_def conns_ok_def)

lemma keeps_registry_same: "sv_db s' = sv_db s \<Longrightarrow> sv_replicas s' = sv_replicas s \<Longrightarrow> keeps_registry s s'"
  by (simp add: keeps_registry_def server_ok_def)

lemma close_log_db [simp]:
  "sv_db (close_log os s) = sv_db s" "sv_replicas (close_log os s) = sv_replicas s" "sv_aofPath (close_log os s) = sv_aofPath s"
  by (simp_all add: close_log_def split: option.splits prod.splits)

lemma runAutoRewrite_db:
  "sv_db (runAutoRewrite st os env wenv s) = sv_db s" "sv_replicas (runAutoRewrite st os env wenv s) = sv_replicas s"
  by (simp_all add: runAutoRewrite_def rewriteAOF_def split: option.splits prod.splits)

lemma ticks_keep_registry:
  "expiry_tick world s = Some s' \<Longrightarrow> keeps_registry s s'"
  "keeps_registry s (runAutoRewrite st os env wenv s)"
  "keeps_registry s (fst (runReplicaHeartbeat cs cs' now s))"
  "keeps_registry s (apply_streamed u env s c)"
proof -
  show "keeps_registry s s'" if "expiry_tick world s = Some s'"
  proof -
    from that obtain d n where d: "drain world 0 (sv_db s) = Some (d, n)" "s' = s\<lparr>sv_db := d\<rparr>"
      by (auto simp: expiry_tick_def)
    with drain_returns [of "sv_db s" world 0] show ?thesis by (auto simp: keeps_registry_def server_ok_def)
  qed
  show "keeps_registry s (runAutoRewrite st os env wenv s)" by (simp add: keeps_registry_same runAutoRewrite_db)
  obtain r warned where h: "Heartbeat cs cs' now (sv_replicas s) replicaAckTimeout = (r, warned)" by fastforce
  with Heartbeat_ok [OF _ h] show "keeps_registry s (fst (runReplicaHeartbeat cs cs' now s))"
    by (simp add: runReplicaHeartbeat_def keeps_registry_def server_ok_def feeds_def)
  show "keeps_registry s (apply_streamed u env s c)"
    using Dispatch_db_ok [of "sv_db s" u env c] Dispatch_broker [of "sv_db s" u env c]
      subs_of_cong [of "pubsub (fst (Dispatch u env (sv_db s) c))" "broker_of s"]
    by (simp add: apply_streamed_def keeps_registry_def server_ok_def)
qed

lemma task_tick_ok:
  assumes "task_tick t f l = Some l'" and "life_ok l" and "\<And>s'. f (lf_server l) = Some s' \<Longrightarrow> keeps_registry (lf_server l) s'"
  shows "life_ok l'"
  using assms phase_ok_same [OF _ work_same_phase(4) [OF assms(1)]]
  by (auto simp: life_ok_def task_tick_def split: if_splits intro: conns_ok_registry)

lemma serve_conn_ok:
  assumes "serve_conn u i w net r order l = Some l'" and ok: "life_ok l"
  shows "life_ok l'"
proof -
  let ?C = "map_of (lf_conns l)"
  from assms(1) obtain cs where cs: "?C i = Some cs" by (auto simp: serve_conn_def split: option.splits)
  obtain s' cs' b where sv: "serve u w net (lf_server l) cs r = (s', cs', b)" by (metis prod_cases3)
  from ok cs have C: "conns_ok (lf_server l) ?C" "conn_ok (lf_server l) cs" "server_ok (lf_server l)" "i < lf_next l"
    by (auto simp: life_ok_def conns_ok_def)
  have new: "conns_ok s' (?C(i \<mapsto> cs'))"
    using conns_ok_serve [OF C(1) cs serve_keeps [OF C(3,2) sv]] serve_effect [OF C(3) sv] by (simp add: request_effect_def)
  from phase_ok_same [OF _ work_same_phase(1) [OF assms(1)]] ok have "phase_ok l'" by (simp add: life_ok_def)
  moreover have "conns_ok (lf_server l') (map_of (lf_conns l'))"
    using assms(1) cs sv new conns_ok_finish [OF new, of i cs' order]
    by (cases b) (auto simp: serve_conn_def finish_conn_def update_conv' delete_conv')
  moreover have "\<forall>j \<in> dom (map_of (lf_conns l')). j < lf_next l'"
    using assms(1) cs sv ok C(4)
    by (cases b) (auto simp: serve_conn_def finish_conn_def update_conv' delete_conv' life_ok_def split: if_splits)
  ultimately show ?thesis by (simp add: life_ok_def)
qed

lemma client_gone_ok:
  assumes "client_gone i order l = Some l'" and ok: "life_ok l"
  shows "life_ok l'"
proof -
  from assms(1) obtain cs where cs: "map_of (lf_conns l) i = Some cs" and l': "l' = finish_conn i order (lf_server l) cs l"
    by (auto simp: client_gone_def)
  from ok have C: "conns_ok (lf_server l) (map_of (lf_conns l))" by (simp add: life_ok_def)
  from phase_ok_same [OF _ work_same_phase(2) [OF assms(1)]] ok conns_ok_finish [OF C cs, of order] show ?thesis
    by (auto simp: life_ok_def l' finish_conn_def delete_conv' split: if_splits)
qed

lemma deliver_conn_ok:
  assumes "deliver_conn f i l = Some l'" and ok: "life_ok l"
    and f: "\<And>s cs s' cs' b. server_ok s \<Longrightarrow> conn_ok s cs \<Longrightarrow> f s cs = (s', cs', b) \<Longrightarrow> keeps s cs s' cs' \<and> own_mailbox s cs s' cs'"
  shows "life_ok l'"
proof -
  from assms(1) obtain cs s' cs' b where cs: "map_of (lf_conns l) i = Some cs" and d: "f (lf_server l) cs = (s', cs', b)"
    and l': "l' = l\<lparr>lf_server := s', lf_conns := AList.update i cs' (lf_conns l)\<rparr>"
    by (auto simp: deliver_conn_def split: option.splits prod.splits)
  from ok cs have C: "conns_ok (lf_server l) (map_of (lf_conns l))" "conn_ok (lf_server l) cs" "server_ok (lf_server l)" "i < lf_next l"
    by (auto simp: life_ok_def conns_ok_def)
  from conns_ok_serve [OF C(1) cs] f [OF C(3,2) d] have "conns_ok s' ((map_of (lf_conns l))(i \<mapsto> cs'))" by blast
  with phase_ok_same [OF _ work_same_phase(3) [OF assms(1)]] ok C(4) show ?thesis
    by (auto simp: life_ok_def l' update_conv' split: if_splits)
qed

lemma accept_conn_ok:
  assumes "accept_conn i remote l = Some l'" and ok: "life_ok l"
  shows "life_ok l'"
proof -
  from assms(1) have l': "l' = l\<lparr>lf_conns := AList.update (lf_next l) (new_conn remote) (lf_conns l), lf_next := Suc (lf_next l)\<rparr>"
    by (simp add: accept_conn_def split: if_splits)
  from ok have "map_of (lf_conns l) (lf_next l) = None" by (auto simp: life_ok_def dom_def)
  with conns_ok_accept [of "lf_server l" "map_of (lf_conns l)"] ok accept_phase(1) [OF assms(1)] show ?thesis
    by (auto simp: life_ok_def l' update_conv' less_Suc_eq)
qed

text \<open>The events of the accept loops, of the shutdown and of the log's ticker.\<close>

definition same_serving :: "life \<Rightarrow> life \<Rightarrow> bool" where
  "same_serving l l' \<longleftrightarrow> lf_conns l' = lf_conns l \<and> lf_next l' = lf_next l \<and>
     sv_db (lf_server l') = sv_db (lf_server l) \<and> sv_replicas (lf_server l') = sv_replicas (lf_server l)"

lemma control_frame:
  "close_listener l = Some l' \<Longrightarrow> same_serving l l'" "accept_error i l = Some l' \<Longrightarrow> same_serving l l'"
  "accept_closed i l = Some l' \<Longrightarrow> same_serving l l'" "fsync_tick os l = Some l' \<Longrightarrow> same_serving l l'"
  "task_done t l = Some l' \<Longrightarrow> same_serving l l'" "proceed os l = Some l' \<Longrightarrow> same_serving l l'"
  by (auto simp: same_serving_def close_listener_def accept_error_def accept_closed_def
    fsync_tick_def task_done_def proceed_def split: if_splits serve_pc.splits list.splits)

lemma control_ok:
  assumes "life_step u ev l = Some l'" and "life_ok l" and "same_serving l l'"
  shows "life_ok l'"
  using assms phase_step [OF assms(1)] conns_ok_registry [OF _ keeps_registry_same [of "lf_server l'" "lf_server l"]]
  by (simp add: life_ok_def same_serving_def)

lemma life_step_ok:
  assumes "life_step u ev l = Some l'" and "life_ok l"
  shows "life_ok l'"
proof (cases ev)
  case (EvAccept i remote)
  with assms accept_conn_ok show ?thesis by simp
next
  case (EvRequest i w net r order)
  with assms serve_conn_ok show ?thesis by simp
next
  case (EvClientGone i order)
  with assms client_gone_ok show ?thesis by simp
next
  case (EvDeliver i net)
  with assms deliver_conn_ok [of "deliver net"] deliver_keeps(1,2) show ?thesis by simp
next
  case (EvDeliverReplica i net)
  with assms deliver_conn_ok [of "deliverReplica net"] deliverReplica_keeps(1,2) show ?thesis by simp
next
  case (EvExpiryTick world)
  with assms task_tick_ok [of ExpiryTask "expiry_tick world"] ticks_keep_registry(1) show ?thesis by simp
next
  case (EvRewriteTick st os env wenv)
  with assms task_tick_ok [of RewriteTask] ticks_keep_registry(2) show ?thesis by fastforce
next
  case (EvHeartbeat cs cs' now)
  with assms task_tick_ok [of HeartbeatTask] ticks_keep_registry(3) show ?thesis by fastforce
next
  case (EvStreamed env c)
  with assms task_tick_ok [of ReplicaTask] ticks_keep_registry(4) show ?thesis by fastforce
next
  case EvCancel
  with assms control_ok [OF assms] show ?thesis by (auto simp: same_serving_def)
qed (use assms control_ok [OF assms] control_frame in auto)

section \<open>Starting\<close>

lemma replay_loop_invariant:
  assumes "I s" and "\<And>s c. I s \<Longrightarrow> I (f s c)"
  shows "I (fst (replay_loop e (never_fails f) bs s n))"
  using assms(1)
proof (induction e "never_fails f" bs s n rule: replay_loop.induct)
  case (1 e bs s n)
  show ?case
  proof (cases "Decode e bs")
    case (Ret c r)
    with 1 assms(2) show ?thesis by (subst replay_loop.simps) (simp add: never_fails_def)
  qed (use 1 in \<open>simp_all add: replay_loop.simps [of e _ bs]\<close>)
qed

lemma loadAOF_registry:
  assumes "loadAOF u envs openable e os s = (s', True)"
  shows "keeps_registry s s'"
proof -
  define I where "I = (\<lambda>p :: db \<times> nat. db_ok (fst p) \<and> listeners (pubsub (fst p)) = listeners (broker_of s) \<and>
    (\<forall>m. is_open (pubsub (fst p)) m = is_open (broker_of s) m))"
  have step: "I (replay_step u envs p c)" if "I p" for p c
    using that Dispatch_db_ok [of "fst p" u "envs (snd p)" c] Dispatch_broker [of "fst p" u "envs (snd p)" c]
      subs_of_cong [of "pubsub (fst (Dispatch u (envs (snd p)) (fst p) c))" "pubsub (fst p)"]
    by (simp add: I_def replay_step_machine)
  obtain d n res where r: "Replay openable e (sv_disk s) (sv_aofPath s) (never_fails (replay_step u envs)) (sv_db s, 0) = ((d, n), res)"
    by (metis surj_pair)
  have "I (fst ((d, n), res))" if "db_ok (sv_db s)"
  proof -
    have start: "I (sv_db s, 0)" using that by (simp add: I_def)
    then have "I (fst (replay_loop e (never_fails (replay_step u envs)) bs (sv_db s, 0) 0))" for bs
      by (rule replay_loop_invariant) (rule step)
    with start show ?thesis
      unfolding r [symmetric] by (cases "read_path (sv_disk s) (sv_aofPath s)") (simp_all add: Replay_def)
  qed
  moreover obtain disk a where "s' = s\<lparr>sv_db := d, sv_disk := disk, sv_aof := a\<rparr>"
    using assms by (cases res) (auto simp: loadAOF_def r split: prod.splits option.splits)
  ultimately show ?thesis by (simp add: keeps_registry_def server_ok_def I_def)
qed

text \<open>A server before \<open>Serve\<close>: nothing has subscribed yet.\<close>

definition unserved :: "server \<Rightarrow> bool" where
  "unserved s \<longleftrightarrow> server_ok s \<and> (\<forall>m. \<not> is_open (broker_of s) m)"

lemma unserved_NewMulti:
  assumes "NewMulti disk lns opts = Some s" and "set opts \<subseteq> range WithAOF \<union> range WithFsync \<union> range WithReplicaOf \<union> range WithMetrics"
  shows "unserved s"
proof -
  have keep: "unserved (fold (\<lambda>opt s. opt s) opts s0)" if "unserved s0" for s0
    using assms(2) that
    by (induction opts arbitrary: s0)
      (auto simp: WithAOF_def WithFsync_def WithReplicaOf_def WithMetrics_def unserved_def server_ok_def)
  have "\<not> is_open (pubsub db_New) m" for m by (simp add: db_New_def NewBroker_def is_open_def)
  with assms(1) keep show ?thesis
    by (auto simp: NewMulti_def unserved_def server_ok_def db_ok_New replicas_ok_New split: if_splits)
qed

lemma Serve_ok:
  assumes "Serve u envs openable e os lns s = Some l" and "unserved s"
  shows "life_ok l"
proof -
  obtain s' where s': "(if sv_aofPath s \<noteq> [] then loadAOF u envs openable e os s else (s, True)) = (s', True)"
    and l: "lf_server l = s'" "lf_conns l = []"
    using assms(1) by (auto simp: Serve_def split: prod.splits bool.splits)
  have "keeps_registry s s'"
    using s' loadAOF_registry by (auto simp: keeps_registry_same split: if_splits)
  with assms(2) have "conns_ok s' Map.empty" by (simp add: keeps_registry_def unserved_def conns_ok_def)
  with Serve_phase [OF assms(1)] l show ?thesis by (simp add: life_ok_def)
qed

lemma life_run_ok: "life_run u P evs l = Some l' \<Longrightarrow> life_ok l \<Longrightarrow> life_ok l'"
  by (erule life_run_invariant) (auto intro: life_step_ok)

lemma no_open_no_listener: "server_ok s \<Longrightarrow> \<forall>m. \<not> is_open (broker_of s) m \<Longrightarrow> listeners (broker_of s) ch = {}"
  using listeners_open [OF server_ok_broker [of s], of _ ch] unfolding is_open_def by blast

lemma returned_quiescent:
  assumes "life_ok l" and "lf_pc l = Returned"
  shows "lf_closed l = lf_lns l \<and> lf_loops l = [] \<and> lf_conns l = [] \<and> lf_tasks l = [] \<and>
    (0 < lf_lns l \<longrightarrow> lf_cancelled l) \<and>
    (\<forall>m. \<not> is_open (broker_of (lf_server l)) m) \<and> (\<forall>ch. listeners (broker_of (lf_server l)) ch = {})"
proof -
  from assms have "lf_loops l = []" "lf_conns l = []" "lf_tasks l = []" by (simp_all add: life_ok_def phase_ok_def)
  moreover from this assms(1) have "\<not> lf_closed l < lf_lns l" "lf_closed l \<le> lf_lns l" "0 < lf_closed l \<longrightarrow> lf_cancelled l"
    unfolding life_ok_def phase_ok_def by force+
  moreover from assms(1) \<open>lf_conns l = []\<close> have "server_ok (lf_server l)" "\<forall>m. \<not> is_open (broker_of (lf_server l)) m"
    by (simp_all add: life_ok_def conns_ok_def)
  ultimately show ?thesis using no_open_no_listener by auto
qed

section \<open>The log until the server returns\<close>

lemma log_inv_store:
  assumes "log_inv u s cmds" and "same_store s s'" and "db_ok (sv_db s')"
  shows "log_inv u s' cmds"
proof -
  from assms(2) have "keyspace (sv_db s') = keyspace (sv_db s)" by (simp add: same_store_def keyspace_shard fun_eq_iff)
  with assms show ?thesis by (auto simp: log_inv_def same_store_def)
qed

text \<open>
  The events under which the log stays the record of the store: requests without deadlines whose
  append succeeds, compactions that do not lose the handle, no stream from a primary, and a final
  close whose fsync succeeds.
\<close>

definition log_safe :: "unicode \<Rightarrow> life_event \<Rightarrow> life \<Rightarrow> bool" where
  "log_safe u ev l \<longleftrightarrow>
     (case ev of
        EvRequest i w net r order \<Rightarrow> wire_ok r \<and> ttl_free u r \<and> o_write (w_os w) = None \<and> o_sync (w_os w)
      | EvRewriteTick st os env wenv \<Rightarrow>
          list_all wire_ok (snapshotCmds wenv (Snapshot env (sv_db (lf_server l)))) \<and> (r_reopen os \<or> \<not> r_rename os)
      | EvStreamed env c \<Rightarrow> False
      | EvProceed os \<Rightarrow> o_sync os
      | _ \<Rightarrow> True)"

definition logging :: "unicode \<Rightarrow> life \<Rightarrow> bool" where
  "logging u l \<longleftrightarrow> life_ok l \<and> (\<exists>cmds. log_inv u (lf_server l) cmds) \<and>
     (lf_pc l = Returned \<longrightarrow>
        durable_path (sv_disk (lf_server l)) (sv_aofPath (lf_server l)) = read_path (sv_disk (lf_server l)) (sv_aofPath (lf_server l)))"

lemma teardown_store: "same_store s (teardown order s cs)"
  by (simp add: teardown_def unsubscribeAll_def removeReplica_def set_broker_def same_store_def Let_def split: option.splits)

lemma close_log_inv:
  assumes "log_inv u s cmds" and "o_sync os"
  shows "log_inv u (close_log os s) cmds"
    and "durable_path (sv_disk (close_log os s)) (sv_aofPath (close_log os s)) = read_path (sv_disk (close_log os s)) (sv_aofPath (close_log os s))"
  using assms
  by (auto simp: log_inv_def close_log_def aof_Close_def w_Flush_def fsync_def aof_ok_def log_bytes_def disk_ok_ops
      durable_path_def read_path_def)

lemma serve_log:
  assumes "server_ok s" and "conn_ok s cs" and "serve u w net s cs r = (s', cs', ok)" and "log_inv u s cmds"
    and "wire_ok r" and "ttl_free u r" and "o_write (w_os w) = None" and "o_sync (w_os w)"
  shows "\<exists>cmds'. log_inv u s' cmds'"
proof -
  have "db_ok (sv_db s')" using serve_keeps [OF assms(1-3)] by (simp add: keeps_def server_ok_def)
  with serve_effect [OF assms(1,3)] apply_keeps_log [OF assms(4-8)] log_inv_store [OF assms(4)] show ?thesis
    by (auto simp: request_effect_def)
qed

lemma finish_log:
  assumes "log_inv u s cmds" and "server_ok (teardown order s cs)"
  shows "log_inv u (teardown order s cs) cmds"
  using log_inv_store [OF assms(1) teardown_store] assms(2) by (simp add: server_ok_def)

lemma serve_conn_log:
  assumes st: "serve_conn u i w net r order l = Some l'" and ok: "life_ok l" and lg: "log_inv u (lf_server l) cmds"
    and safe: "log_safe u (EvRequest i w net r order) l"
  shows "\<exists>cmds'. log_inv u (lf_server l') cmds'"
proof -
  from st obtain cs where cs: "map_of (lf_conns l) i = Some cs" by (auto simp: serve_conn_def split: option.splits)
  obtain s' cs' b where sv: "serve u w net (lf_server l) cs r = (s', cs', b)" by (metis prod_cases3)
  from ok cs have C: "conn_ok (lf_server l) cs" "server_ok (lf_server l)" by (auto simp: life_ok_def conns_ok_def)
  from serve_log [OF C(2,1) sv lg] safe obtain cmds' where lg': "log_inv u s' cmds'" by (auto simp: log_safe_def)
  have "server_ok (lf_server l')" using serve_conn_ok [OF st ok] by (simp add: life_ok_def conns_ok_def)
  with finish_log [OF lg', of order cs'] lg' st cs sv show ?thesis
    by (cases b) (auto simp: serve_conn_def finish_conn_def)
qed

lemma tick_log:
  assumes "serving u (lf_server l) (lf_server l')" and "log_inv u (lf_server l) cmds"
  shows "\<exists>cmds'. log_inv u (lf_server l') cmds'"
  using serving_keeps_log [OF assms] .

lemma deliver_conn_log:
  assumes "deliver_conn f i l = Some l'" and ok: "life_ok l" "life_ok l'" and lg: "log_inv u (lf_server l) cmds"
    and f: "\<And>s cs s' cs' b. server_ok s \<Longrightarrow> conn_ok s cs \<Longrightarrow> f s cs = (s', cs', b) \<Longrightarrow> same_store s s'"
  shows "log_inv u (lf_server l') cmds"
proof -
  from assms(1) obtain cs s' cs' b where cs: "map_of (lf_conns l) i = Some cs" and d: "f (lf_server l) cs = (s', cs', b)"
    and l': "lf_server l' = s'"
    by (auto simp: deliver_conn_def split: option.splits prod.splits)
  from ok cs have "conn_ok (lf_server l) cs" "server_ok (lf_server l)" "db_ok (sv_db s')"
    by (auto simp: life_ok_def conns_ok_def server_ok_def l')
  with f [OF _ _ d] log_inv_store [OF lg] show ?thesis by (simp add: l')
qed

lemma ticks_serving:
  "task_tick ExpiryTask (expiry_tick world) l = Some l' \<Longrightarrow> serving u (lf_server l) (lf_server l')"
  "task_tick HeartbeatTask (\<lambda>s. Some (fst (runReplicaHeartbeat cs cs' now s))) l = Some l' \<Longrightarrow> serving u (lf_server l) (lf_server l')"
  "fsync_tick os l = Some l' \<Longrightarrow> serving u (lf_server l) (lf_server l')"
  "task_tick RewriteTask (\<lambda>s. Some (runAutoRewrite st ro env wenv s)) l = Some l' \<Longrightarrow>
     log_safe u (EvRewriteTick st ro env wenv) l \<Longrightarrow> serving u (lf_server l) (lf_server l')"
  by (auto simp: task_tick_def expiry_tick_def fsync_tick_def log_safe_def split: if_splits intro: serving.intros)

lemma step_log:
  assumes st: "life_step u ev l = Some l'" and ok: "life_ok l" and lg: "log_inv u (lf_server l) cmds" and safe: "log_safe u ev l"
  shows "\<exists>cmds'. log_inv u (lf_server l') cmds'"
proof (cases ev)
  case (EvRequest i w net r order)
  with st serve_conn_log [OF _ ok lg] safe show ?thesis by simp
next
  case (EvClientGone i order)
  with st obtain cs where "lf_server l' = teardown order (lf_server l) cs" by (auto simp: client_gone_def finish_conn_def)
  with finish_log [OF lg, of order cs] life_step_ok [OF st ok] show ?thesis by (auto simp: life_ok_def conns_ok_def)
next
  case (EvDeliver i net)
  with st deliver_conn_log [OF _ ok life_step_ok [OF st ok] lg, of "deliver net" i] deliver_keeps(3) show ?thesis by auto
next
  case (EvDeliverReplica i net)
  with st deliver_conn_log [OF _ ok life_step_ok [OF st ok] lg, of "deliverReplica net" i] deliverReplica_keeps(3)
  show ?thesis by auto
next
  case (EvProceed os)
  with st safe lg close_log_inv(1) [OF lg, of os] show ?thesis
    by (auto simp: proceed_def log_safe_def split: if_splits serve_pc.splits list.splits)
next
  case (EvRewriteTick sta os env wenv)
  with st safe ticks_serving(4) [of sta os env wenv l l' u] tick_log [OF _ lg] show ?thesis by simp
next
  case (EvExpiryTick world)
  with st tick_log [OF ticks_serving(1) lg] show ?thesis by simp
next
  case (EvHeartbeat cs cs' now)
  with st tick_log [OF ticks_serving(2) lg] show ?thesis by simp
next
  case (EvFsyncTick os)
  with st tick_log [OF ticks_serving(3) lg] show ?thesis by simp
qed (use st safe lg in \<open>auto simp: close_listener_def accept_conn_def accept_error_def accept_closed_def task_done_def log_safe_def split: if_splits\<close>)

lemma returned_step:
  assumes "life_step u ev l = Some l'" and "life_ok l" and "lf_pc l = Returned"
  shows "lf_pc l' = Returned \<and> (lf_server l' = lf_server l \<or>
    (\<exists>os a. sv_aof (lf_server l) = Some a \<and> lf_server l' = (lf_server l)\<lparr>sv_disk := syncEverySec os (sv_disk (lf_server l)) a\<rparr>))"
proof -
  from assms(2,3) have "lf_conns l = []" "lf_tasks l = []" "lf_loops l = []" by (simp_all add: life_ok_def phase_ok_def)
  with assms show ?thesis
    by (cases ev) (auto simp: close_listener_def accept_conn_def accept_error_def accept_closed_def task_done_def
        serve_conn_def client_gone_def deliver_conn_def task_tick_def fsync_tick_def proceed_def split: if_splits)
qed

text \<open>Only \<open>Serve\<close>'s own goroutine moves its program counter.\<close>

lemma work_pc:
  "same_phase l l' \<Longrightarrow> lf_pc l' = lf_pc l" "close_listener l = Some l' \<Longrightarrow> lf_pc l' = lf_pc l"
  "accept_conn i remote l = Some l' \<Longrightarrow> lf_pc l' = lf_pc l" "accept_error i l = Some l' \<Longrightarrow> lf_pc l' = lf_pc l"
  "accept_closed i l = Some l' \<Longrightarrow> lf_pc l' = lf_pc l" "task_done t l = Some l' \<Longrightarrow> lf_pc l' = lf_pc l"
  by (auto simp: same_phase_def close_listener_def accept_conn_def accept_error_def accept_closed_def task_done_def
      split: if_splits)

lemma pc_step:
  assumes "life_step u ev l = Some l'" and "\<And>os. ev \<noteq> EvProceed os"
  shows "lf_pc l' = lf_pc l"
  using assms by (cases ev) (auto dest: work_pc work_same_phase [THEN work_pc(1)])

lemma pc_returns: "proceed os l = Some l' \<Longrightarrow> lf_pc l' = Returned \<Longrightarrow> lf_pc l = TaskWait []"
  by (auto simp: proceed_def split: if_splits serve_pc.splits list.splits)

lemma logging_step:
  assumes lg: "logging u l" and st: "life_step u ev l = Some l'" and safe: "log_safe u ev l"
  shows "logging u l'"
proof -
  from lg obtain cmds where ok: "life_ok l" and inv: "log_inv u (lf_server l) cmds" by (auto simp: logging_def)
  have "durable_path (sv_disk (lf_server l')) (sv_aofPath (lf_server l')) = read_path (sv_disk (lf_server l')) (sv_aofPath (lf_server l'))"
    if ret: "lf_pc l' = Returned"
  proof (cases "lf_pc l = Returned")
    case True
    with returned_step [OF st ok] lg inv show ?thesis
      by (auto simp: logging_def syncEverySec_def fsync_def log_inv_def aof_ok_def durable_path_def read_path_def)
  next
    case False
    with pc_step [OF st] ret obtain os where ev: "ev = EvProceed os" by fastforce
    with st ret have "lf_pc l = TaskWait []" by (auto intro: pc_returns)
    with ev st safe close_log_inv(2) [OF inv, of os] show ?thesis by (auto simp: proceed_def log_safe_def)
  qed
  with life_step_ok [OF st ok] step_log [OF st ok inv safe] show ?thesis by (simp add: logging_def)
qed

lemma logging_run: "life_run u (log_safe u) evs l = Some l' \<Longrightarrow> logging u l \<Longrightarrow> logging u l'"
  by (erule life_run_invariant) (auto intro: logging_step)

text \<open>A power loss keeps of every file what its last fsync made durable.\<close>

definition power_loss :: "disk \<Rightarrow> disk" where
  "power_loss d = d\<lparr>inodes := (\<lambda>i. (inodes d i)\<lparr>f_content := f_durable (inodes d i)\<rparr>)\<rparr>"

lemma power_loss_simps [simp]:
  "read_path (power_loss d) p = durable_path d p" "dir (power_loss d) = dir d" "disk_ok (power_loss d) = disk_ok d"
  by (simp_all add: power_loss_def read_path_def durable_path_def disk_ok_def)

lemma returned_survives:
  assumes lg: "logging u l" "lf_pc l = Returned"
    and s1: "sv_disk s1 = power_loss (sv_disk (lf_server l))" "sv_aofPath s1 = sv_aofPath (lf_server l)" "sv_db s1 = db_New"
    and os: "o_open os"
  obtains s' where "loadAOF u envs True EOF os s1 = (s', True)" and "keyspace (sv_db s') = keyspace (sv_db (lf_server l))"
proof -
  let ?s = "lf_server l"
  from lg obtain cmds where inv: "log_inv u ?s cmds" by (auto simp: logging_def)
  then obtain a where a: "aof_ok (sv_disk ?s) (sv_aofPath ?s) a" "log_bytes (sv_disk ?s) a = concat (map wire cmds)"
    by (auto simp: log_inv_def)
  have content: "read_path (sv_disk s1) (sv_aofPath s1) = Some (concat (map wire cmds) @ [])"
    using lg a by (simp add: s1 logging_def) (simp add: read_path_def aof_ok_def log_bytes_def)
  have disk: "disk_ok (sv_disk s1)" using a by (simp add: s1 aof_ok_def)
  from inv have c: "list_all wire_ok cmds" "list_all (ttl_free u) cmds"
    and k: "keyspace (sv_db ?s) = fold (spec_apply u) cmds Map.empty" by (simp_all add: log_inv_def)
  from loadAOF_recovers [OF disk content s1(3) os c, of envs] k that show thesis by auto
qed

section \<open>The shutdown completes\<close>

text \<open>An upper bound on the events the shutdown still needs.\<close>

definition pc_work :: "serve_pc \<Rightarrow> nat" where
  "pc_work pc = (case pc of AcceptWait \<Rightarrow> 8 | ConnWait \<Rightarrow> 7 | TaskWait ts \<Rightarrow> Suc (length ts) | Returned \<Rightarrow> 0)"

definition shutdown_work :: "life \<Rightarrow> nat" where
  "shutdown_work l = (lf_lns l - lf_closed l) + length (lf_loops l) + length (lf_conns l) + length (lf_tasks l) + pc_work (lf_pc l)"

text \<open>The events of a shutdown: of those only the end of a connection is up to its client.\<close>

definition shutdown_event :: "life_event \<Rightarrow> bool" where
  "shutdown_event ev \<longleftrightarrow>
     (case ev of EvCloseListener \<Rightarrow> True | EvAcceptClosed i \<Rightarrow> True | EvClientGone i order \<Rightarrow> True
      | EvTaskDone t \<Rightarrow> True | EvProceed os \<Rightarrow> True | _ \<Rightarrow> False)"

lemma length_removeAll_hd: "xs \<noteq> [] \<Longrightarrow> length (removeAll (hd xs) xs) < length xs"
  by (cases xs) (simp_all add: less_Suc_eq_le length_removeAll_less_eq)

lemma length_delete_hd: "xs \<noteq> [] \<Longrightarrow> length (AList.delete (fst (hd xs)) xs) < length xs"
  by (cases xs) (auto simp: AList.delete_eq less_Suc_eq_le)

lemma proceed_progress:
  assumes "lf_loops l = []" and "lf_conns l = []" and "lf_tasks l = []" and "lf_pc l \<noteq> Returned"
  obtains l' where "proceed os l = Some l'" and "shutdown_work l' < shutdown_work l" and "lf_cancelled l' = lf_cancelled l"
proof (cases "lf_pc l")
  case (TaskWait ts)
  with assms that show thesis by (cases ts) (simp_all add: proceed_def shutdown_work_def pc_work_def)
qed (use assms that in \<open>simp_all add: proceed_def shutdown_work_def pc_work_def\<close>)

lemma shutdown_progress:
  assumes ok: "phase_ok l" and c: "lf_cancelled l" and pc: "lf_pc l \<noteq> Returned"
  obtains ev l' where "shutdown_event ev" and "life_step u ev l = Some l'" and "shutdown_work l' < shutdown_work l"
    and "lf_cancelled l'"
proof -
  consider "lf_closed l < lf_lns l" | "\<not> lf_closed l < lf_lns l" "lf_loops l \<noteq> []" | "lf_loops l = []" "lf_conns l \<noteq> []"
    | "lf_loops l = []" "lf_conns l = []" "lf_tasks l \<noteq> []" | "lf_loops l = []" "lf_conns l = []" "lf_tasks l = []" by blast
  then show thesis
  proof cases
    case 1
    with c show thesis
      by (intro that [of EvCloseListener "l\<lparr>lf_closed := Suc (lf_closed l)\<rparr>"])
        (simp_all add: shutdown_event_def close_listener_def shutdown_work_def)
  next
    case 2
    have hd: "hd (lf_loops l) \<in> set (lf_loops l)" by (rule hd_in_set [OF 2(2)])
    moreover from ok have "set (lf_loops l) \<subseteq> {..<lf_lns l}" by (simp add: phase_ok_def)
    ultimately have "hd (lf_loops l) < lf_closed l" using 2(1) by auto
    with hd c length_removeAll_hd [OF 2(2)] show thesis
      by (intro that [of "EvAcceptClosed (hd (lf_loops l))" "l\<lparr>lf_loops := removeAll (hd (lf_loops l)) (lf_loops l)\<rparr>"])
        (simp_all add: shutdown_event_def accept_closed_def shutdown_work_def)
  next
    case 3
    then obtain cs where "map_of (lf_conns l) (fst (hd (lf_conns l))) = Some cs" by (cases "lf_conns l") auto
    with c length_delete_hd [OF 3(2)] show thesis
      by (intro that [of "EvClientGone (fst (hd (lf_conns l))) []" "finish_conn (fst (hd (lf_conns l))) [] (lf_server l) cs l"])
        (simp_all add: shutdown_event_def client_gone_def finish_conn_def shutdown_work_def)
  next
    case 4
    with c length_removeAll_hd [OF 4(3)] hd_in_set [OF 4(3)] show thesis
      by (intro that [of "EvTaskDone (hd (lf_tasks l))" "l\<lparr>lf_tasks := removeAll (hd (lf_tasks l)) (lf_tasks l)\<rparr>"])
        (simp_all add: shutdown_event_def task_done_def shutdown_work_def)
  next
    case 5
    from proceed_progress [OF 5 pc] obtain l' where
      "proceed all_well l = Some l'" "shutdown_work l' < shutdown_work l" "lf_cancelled l' = lf_cancelled l" .
    with c show thesis by (intro that [of "EvProceed all_well" l']) (simp_all add: shutdown_event_def)
  qed
qed

lemma shutdown_run:
  assumes "phase_ok l" and "lf_cancelled l"
  shows "\<exists>evs l'. life_run u any_event evs l = Some l' \<and> lf_pc l' = Returned \<and> length evs \<le> shutdown_work l \<and>
    list_all shutdown_event evs"
  using assms
proof (induction "shutdown_work l" arbitrary: l rule: less_induct)
  case less
  show ?case
  proof (cases "lf_pc l = Returned")
    case True
    then show ?thesis by (intro exI [of _ "[]"]) simp
  next
    case False
    from shutdown_progress [OF less.prems False] obtain ev l1 where
      ev: "shutdown_event ev" "life_step u ev l = Some l1" "shutdown_work l1 < shutdown_work l" "lf_cancelled l1" .
    from less.hyps [OF ev(3) phase_step [OF ev(2) less.prems(1)] ev(4)] obtain evs l' where
      "life_run u any_event evs l1 = Some l'" "lf_pc l' = Returned" "length evs \<le> shutdown_work l1" "list_all shutdown_event evs"
      by blast
    with ev show ?thesis by (intro exI [of _ "ev # evs"]) auto
  qed
qed

section \<open>A silent client\<close>

text \<open>The client an event is up to.\<close>

definition event_client :: "life_event \<Rightarrow> nat option" where
  "event_client ev =
     (case ev of EvRequest i w net r order \<Rightarrow> Some i | EvClientGone i order \<Rightarrow> Some i | _ \<Rightarrow> None)"

lemma silent_step:
  assumes "life_step u ev l = Some l'" and "event_client ev \<noteq> Some i" and "i \<in> dom (map_of (lf_conns l))"
  shows "i \<in> dom (map_of (lf_conns l'))"
proof (cases ev)
  case (EvProceed os)
  with assms control_frame(6) show ?thesis by (simp add: same_serving_def)
next
  case (EvRequest j w net r order)
  with assms show ?thesis
    by (auto simp: event_client_def serve_conn_def finish_conn_def update_conv' delete_conv'
        split: option.splits prod.splits bool.splits)
qed (use assms in \<open>auto simp: event_client_def close_listener_def accept_conn_def accept_error_def accept_closed_def
    task_done_def client_gone_def finish_conn_def deliver_conn_def task_tick_def fsync_tick_def update_conv' delete_conv'
    split: if_splits option.splits prod.splits\<close>)

lemma silent_run:
  assumes "life_run u (\<lambda>ev _. event_client ev \<noteq> Some i) evs l = Some l'" and "i \<in> dom (map_of (lf_conns l))"
  shows "i \<in> dom (map_of (lf_conns l'))"
  using assms by (rule life_run_invariant) (rule silent_step)

lemma life_step_lns: "life_step u ev l = Some l' \<Longrightarrow> lf_lns l' = lf_lns l"
  by (cases ev) (auto simp: close_listener_def accept_conn_def accept_error_def accept_closed_def task_done_def proceed_def
      split: if_splits serve_pc.splits list.splits dest!: work_same_phase [unfolded same_phase_def])

text \<open>A server without persistence on two listeners, as started by \<open>Serve\<close>.\<close>

definition two_listeners :: server where
  "two_listeners = the (NewMulti empty_disk 2 [])"

lemma two_listeners_start:
  "unserved two_listeners"
  "Serve u envs openable e os 2 two_listeners = Some \<lparr>lf_server = two_listeners, lf_lns = 2, lf_cancelled = False, lf_closed = 0,
     lf_loops = [0, 1], lf_conns = [], lf_next = 0, lf_tasks = [ExpiryTask, HeartbeatTask], lf_pc = AcceptWait\<rparr>"
proof -
  have new: "NewMulti empty_disk 2 [] = Some two_listeners" by (simp add: two_listeners_def NewMulti_def)
  from unserved_NewMulti [OF new] show "unserved two_listeners" by simp
  have "sv_aofPath two_listeners = []" "sv_aof two_listeners = None" "sv_primaryAddr two_listeners = []"
    "sv_metricsAddr two_listeners = []" by (simp_all add: two_listeners_def NewMulti_def)
  then show "Serve u envs openable e os 2 two_listeners = Some \<lparr>lf_server = two_listeners, lf_lns = 2, lf_cancelled = False,
      lf_closed = 0, lf_loops = [0, 1], lf_conns = [], lf_next = 0, lf_tasks = [ExpiryTask, HeartbeatTask], lf_pc = AcceptWait\<rparr>"
    by (simp add: Serve_def serve_tasks_def numeral_2_eq_2)
qed

lemmas run_steps = close_listener_def accept_conn_def accept_closed_def client_gone_def finish_conn_def new_conn_def
  teardown_def removeReplica_def unsubscribeAll_def task_done_def proceed_def

section \<open>Main results\<close>





text \<open>
  C39: The drain has no deadline: as long as one client stays connected and silent, no sequence of events
  lets \<open>Serve\<close> return, even when the context is cancelled and everything else has ended.
\<close>

theorem silent_client_blocks_shutdown:
  assumes "unserved s" and "Serve u envs openable e os lns s = Some l0"
    and "life_run u any_event evs l0 = Some l" and "i \<in> dom (map_of (lf_conns l))"
    and "life_run u (\<lambda>ev _. event_client ev \<noteq> Some i) evs' l = Some l'"
  shows "i \<in> dom (map_of (lf_conns l')) \<and> lf_pc l' \<in> {AcceptWait, ConnWait}"
proof -
  have i: "i \<in> dom (map_of (lf_conns l'))" by (rule silent_run [OF assms(5,4)])
  then have "lf_conns l' \<noteq> []" by auto
  moreover have "phase_ok l'"
    using life_run_ok [OF assms(5) life_run_ok [OF assms(3) Serve_ok [OF assms(2,1)]]] by (simp add: life_ok_def)
  ultimately show ?thesis using i unfolding phase_ok_def by blast
qed

theorem silent_client_blocks_shutdown_witness:
  "(let u = \<lparr>upper_table = id, lower_table = id\<rparr>; l0 = the (Serve u (\<lambda>_. at_time 0) True EOF all_well 2 two_listeners);
        l = the (life_run u any_event [EvAccept 1 ''client'', EvCancel] l0);
        evs = [EvCloseListener, EvCloseListener, EvAcceptClosed 1, EvAcceptClosed 0, EvProceed all_well,
          EvTaskDone HeartbeatTask, EvTaskDone ExpiryTask]
    in \<exists>l'. life_run u (\<lambda>ev _. event_client ev \<noteq> Some 0) evs l = Some l' \<and> lf_tasks l' = [] \<and> lf_loops l' = [] \<and>
       lf_cancelled l' \<and> lf_pc l' \<in> {AcceptWait, ConnWait})"
proof -
  let ?u = "\<lparr>upper_table = id, lower_table = id\<rparr>"
  let ?evs = "[EvCloseListener, EvCloseListener, EvAcceptClosed 1, EvAcceptClosed 0, EvProceed all_well,
    EvTaskDone HeartbeatTask, EvTaskDone ExpiryTask]"
  note start = two_listeners_start(2) [of ?u "\<lambda>_. at_time 0" True EOF all_well]
  obtain l l' where l: "life_run ?u any_event [EvAccept 1 ''client'', EvCancel]
      (the (Serve ?u (\<lambda>_. at_time 0) True EOF all_well 2 two_listeners)) = Some l"
    "0 \<in> dom (map_of (lf_conns l))" "life_run ?u (\<lambda>ev _. event_client ev \<noteq> Some 0) ?evs l = Some l'"
    "lf_tasks l' = []" "lf_loops l' = []" "lf_cancelled l'"
    unfolding start by (simp add: run_steps event_client_def)
  have "lf_pc l' \<in> {AcceptWait, ConnWait}"
    using silent_client_blocks_shutdown [OF two_listeners_start(1) start l(1) [unfolded start option.sel] l(2,3)] by blast
  with l(3-6) show ?thesis unfolding Let_def l(1) option.sel by blast
qed

end
