(* ===== verification/Startup.thy ===== *)
theory Startup
  imports Lifecycle
begin

text \<open>
  \<open>cmd/server/main.go\<close>: from the command-line flags to a serving process. The flags as parsed by the
  \<open>flag\<close> package and the answers of the operating system to the calls of \<open>openListeners\<close> are
  arguments; the listeners left open and the files deleted on the way are results.
\<close>

section \<open>Library functions\<close>

text \<open>\<open>unicode.IsSpace\<close> and \<open>strings.Fields\<close>.\<close>

definition IsSpace :: "nat \<Rightarrow> bool" where
  "IsSpace r \<longleftrightarrow> 9 \<le> r \<and> r \<le> 13 \<or> r = 32 \<or> r = 0x85 \<or> r = 0xA0 \<or> r = 0x1680 \<or> 0x2000 \<le> r \<and> r \<le> 0x200A \<or>
     r = 0x2028 \<or> r = 0x2029 \<or> r = 0x202F \<or> r = 0x205F \<or> r = 0x3000"

definition emit_field :: "string \<Rightarrow> string list" where
  "emit_field cur = (if cur = [] then [] else [cur])"

fun fields_from :: "string \<Rightarrow> string \<Rightarrow> string list" where
  "fields_from cur [] = emit_field cur"
| "fields_from cur (c # cs) =
     (let (r, w) = decodeRune (map of_char (c # cs))
      in if IsSpace r then emit_field cur @ fields_from [] (drop (w - 1) cs)
         else fields_from (cur @ take w (c # cs)) (drop (w - 1) cs))"

definition Fields :: "string \<Rightarrow> string list" where
  "Fields s = fields_from [] s"

text \<open>\<open>net.JoinHostPort\<close>: a host with a colon is an IPv6 literal.\<close>

definition JoinHostPort :: "string \<Rightarrow> string \<Rightarrow> string" where
  "JoinHostPort host port =
     (if CHR '':'' \<in> set host then ''['' @ host @ '']:'' @ port else host @ '':'' @ port)"

section \<open>Flags\<close>

record flags =
  fl_port :: string
  fl_bind :: string
  fl_noTCP :: bool
  fl_unixSocket :: string
  fl_appendOnly :: bool
  fl_aofPath :: string
  fl_appendFsync :: string
  fl_replicaOf :: string
  fl_metricsAddr :: string

abbreviation DefaultFilename :: string where "DefaultFilename \<equiv> ''appendonly.aof''"

definition default_flags :: flags where
  "default_flags = \<lparr>fl_port = ''6380'', fl_bind = [], fl_noTCP = False, fl_unixSocket = [], fl_appendOnly = True,
     fl_aofPath = DefaultFilename, fl_appendFsync = ''everysec'', fl_replicaOf = [], fl_metricsAddr = '':9091''\<rparr>"

datatype startup_err =
    BadFsync string
  | BadReplicaOf string
  | ListenTCP string
  | ListenUnix string
  | StatFailed string
  | NotASocket string
  | RemoveFailed string
  | NothingToListenOn
  | ServeFailed

text \<open>The dial target of \<open>--replicaof\<close>: empty when the flag is, an error unless it has two fields.\<close>

definition replica_target :: "string \<Rightarrow> startup_err + string" where
  "replica_target replicaOf =
     (if replicaOf \<noteq> []
      then (case Fields replicaOf of [host, port] \<Rightarrow> Inr (JoinHostPort host port) | _ \<Rightarrow> Inl (BadReplicaOf replicaOf))
      else Inr [])"

definition main_options :: "flags \<Rightarrow> FsyncMode \<Rightarrow> string \<Rightarrow> server_option list" where
  "main_options fl fsyncMode primaryAddr =
     (if fl_appendOnly fl then [WithAOF (fl_aofPath fl), WithFsync fsyncMode] else []) @
     (if primaryAddr \<noteq> [] then [WithReplicaOf primaryAddr] else []) @
     (if fl_metricsAddr fl \<noteq> [] then [WithMetrics (fl_metricsAddr fl)] else [])"

section \<open>Listeners\<close>

datatype listener = TCPListener string | UnixListener string

text \<open>What \<open>Lstat\<close> says about the socket path, and whether the other calls succeed.\<close>

datatype path_state = NoFile | StatError | SocketFile | OtherFile

record listen_outcome =
  ln_tcp :: bool
  ln_path :: path_state
  ln_remove :: bool
  ln_unix :: bool

text \<open>The paths deleted, and the error if there is one.\<close>

definition removeStaleUnixSocket :: "listen_outcome \<Rightarrow> string \<Rightarrow> string list \<times> startup_err option" where
  "removeStaleUnixSocket os path =
     (case ln_path os of
        NoFile \<Rightarrow> ([], None)
      | StatError \<Rightarrow> ([], Some (StatFailed path))
      | OtherFile \<Rightarrow> ([], Some (NotASocket path))
      | SocketFile \<Rightarrow> if ln_remove os then ([path], None) else ([], Some (RemoveFailed path)))"

text \<open>Closing the listeners \<open>lns\<close> among the open ones.\<close>

definition closeAll :: "listener list \<Rightarrow> listener list \<Rightarrow> listener list" where
  "closeAll lns opened = filter (\<lambda>ln. ln \<notin> set lns) opened"

text \<open>
  The listeners and the path \<open>cleanup\<close> unlinks, or the error; then the listeners left open in the
  process and the paths deleted.
\<close>

type_synonym opened = "(startup_err + listener list \<times> string option) \<times> listener list \<times> string list"

definition require_one :: "listener list \<Rightarrow> string option \<Rightarrow> string list \<Rightarrow> opened" where
  "require_one lns cleanup removed =
     (if lns = [] then (Inl NothingToListenOn, [], removed) else (Inr (lns, cleanup), lns, removed))"

definition openListeners :: "listen_outcome \<Rightarrow> string \<Rightarrow> string \<Rightarrow> bool \<Rightarrow> string \<Rightarrow> opened" where
  "openListeners os bind port noTCP unixSocket =
     (let addr = JoinHostPort bind port
      in if \<not> noTCP \<and> \<not> ln_tcp os then (Inl (ListenTCP addr), [], [])
         else let lns = (if \<not> noTCP then [TCPListener addr] else [])
              in if unixSocket \<noteq> []
                 then (case removeStaleUnixSocket os unixSocket of
                         (removed, Some err) \<Rightarrow> (Inl err, closeAll lns lns, removed)
                       | (removed, None) \<Rightarrow>
                           if \<not> ln_unix os then (Inl (ListenUnix unixSocket), closeAll lns lns, removed)
                           else require_one (lns @ [UnixListener unixSocket]) (Some unixSocket) removed)
                 else require_one lns None [])"

section \<open>The main function\<close>

text \<open>
  Up to the point where \<open>Serve\<close> waits. \<open>Fatal\<close> is \<open>log.Fatal\<close>, with the paths deleted before it;
  \<open>MainPanic\<close> is the panic of \<open>NewMulti\<close>; \<open>Running\<close> has the state of \<open>Serve\<close> and the path the
  deferred \<open>cleanup\<close> will unlink.
\<close>

datatype main_state =
    Fatal startup_err "string list"
  | MainPanic
  | Running life "string option" "string list"

definition main ::
  "flags \<Rightarrow> listen_outcome \<Rightarrow> unicode \<Rightarrow> (nat \<Rightarrow> env) \<Rightarrow> bool \<Rightarrow> io_err \<Rightarrow> os_outcome \<Rightarrow> disk \<Rightarrow> main_state" where
  "main fl los u envs openable e os disk =
     (case ParseFsyncMode (fl_appendFsync fl) of
        None \<Rightarrow> Fatal (BadFsync (fl_appendFsync fl)) []
      | Some fsyncMode \<Rightarrow>
          (case replica_target (fl_replicaOf fl) of
             Inl err \<Rightarrow> Fatal err []
           | Inr primaryAddr \<Rightarrow>
               (case openListeners los (fl_bind fl) (fl_port fl) (fl_noTCP fl) (fl_unixSocket fl) of
                  (Inl err, _, removed) \<Rightarrow> Fatal err removed
                | (Inr (lns, cleanup), _, removed) \<Rightarrow>
                    (case NewMulti disk (length lns) (main_options fl fsyncMode primaryAddr) of
                       None \<Rightarrow> MainPanic
                     | Some s \<Rightarrow>
                         (case Serve u envs openable e os (length lns) s of
                            None \<Rightarrow> Fatal ServeFailed removed
                          | Some l \<Rightarrow> Running l cleanup removed)))))"

section \<open>Opening the listeners\<close>

lemma closeAll_self [simp]: "closeAll lns lns = []"
  by (simp add: closeAll_def)

lemma removeStaleUnixSocket_safe:
  assumes "removeStaleUnixSocket os path = (removed, err)"
  shows "set removed \<subseteq> {path}" and "removed \<noteq> [] \<Longrightarrow> ln_path os = SocketFile"
    and "err = None \<longleftrightarrow> ln_path os = NoFile \<or> ln_path os = SocketFile \<and> ln_remove os"
  using assms by (auto simp: removeStaleUnixSocket_def split: path_state.splits if_splits)

lemma openListeners_cases:
  assumes "openListeners los bind port noTCP unixSocket = (res, opened, removed)"
  shows "(case res of Inl _ \<Rightarrow> opened = []
     | Inr (lns, cleanup) \<Rightarrow> opened = lns \<and> lns \<noteq> [] \<and> (cleanup = (if unixSocket = [] then None else Some unixSocket)) \<and>
         lns = (if noTCP then [] else [TCPListener (JoinHostPort bind port)]) @
               (if unixSocket = [] then [] else [UnixListener unixSocket]))"
    and "set removed \<subseteq> {unixSocket}" and "removed \<noteq> [] \<Longrightarrow> ln_path los = SocketFile \<and> unixSocket \<noteq> []"
proof -
  obtain rm err where r: "removeStaleUnixSocket los unixSocket = (rm, err)" by fastforce
  note safe = removeStaleUnixSocket_safe [OF r]
  show "case res of Inl _ \<Rightarrow> opened = []
     | Inr (lns, cleanup) \<Rightarrow> opened = lns \<and> lns \<noteq> [] \<and> (cleanup = (if unixSocket = [] then None else Some unixSocket)) \<and>
         lns = (if noTCP then [] else [TCPListener (JoinHostPort bind port)]) @
               (if unixSocket = [] then [] else [UnixListener unixSocket])"
    using assms by (auto simp: openListeners_def Let_def r require_one_def split: if_splits option.splits)
  show "set removed \<subseteq> {unixSocket}"
    using assms safe(1) by (auto simp: openListeners_def Let_def r require_one_def split: if_splits option.splits)
  show "ln_path los = SocketFile \<and> unixSocket \<noteq> []" if "removed \<noteq> []"
    using assms that safe(2) by (auto simp: openListeners_def Let_def r require_one_def split: if_splits option.splits)
qed

lemma openListeners_succeeds:
  "(\<exists>lns cleanup. fst (openListeners los bind port noTCP unixSocket) = Inr (lns, cleanup)) \<longleftrightarrow>
     (noTCP \<longrightarrow> unixSocket \<noteq> []) \<and> (noTCP \<or> ln_tcp los) \<and>
     (unixSocket \<noteq> [] \<longrightarrow> ln_unix los \<and> (ln_path los = NoFile \<or> ln_path los = SocketFile \<and> ln_remove los))"
proof -
  obtain rm err where r: "removeStaleUnixSocket los unixSocket = (rm, err)" by fastforce
  from removeStaleUnixSocket_safe(3) [OF r] show ?thesis
    by (cases err) (auto simp: openListeners_def Let_def r require_one_def)
qed

section \<open>The configured server\<close>

lemma main_options_kinds:
  "set (main_options fl mode addr) \<subseteq> range WithAOF \<union> range WithFsync \<union> range WithReplicaOf \<union> range WithMetrics"
  by (auto simp: main_options_def)

lemma main_options_server:
  assumes "NewMulti disk n (main_options fl mode addr) = Some s"
  shows "sv_aofPath s = (if fl_appendOnly fl then fl_aofPath fl else [])"
    and "fl_appendOnly fl \<Longrightarrow> sv_fsyncMode s = mode"
    and "sv_primaryAddr s = addr" and "sv_metricsAddr s = fl_metricsAddr fl" and "sv_disk s = disk"
    and "unserved s"
  using assms unserved_NewMulti [OF assms main_options_kinds]
  by (auto simp: NewMulti_def main_options_def WithAOF_def WithFsync_def WithReplicaOf_def WithMetrics_def split: if_splits)

lemma Serve_frame:
  assumes "Serve u envs openable e os lns s = Some l"
  shows "lf_lns l = lns" and "sv_primaryAddr (lf_server l) = sv_primaryAddr s" and "sv_aofPath (lf_server l) = sv_aofPath s"
    and "sv_metricsAddr (lf_server l) = sv_metricsAddr s"
    and "lf_tasks l = serve_tasks (lf_server l)" and "sv_aofPath s = [] \<Longrightarrow> sv_aof (lf_server l) = sv_aof s"
    and "sv_aofPath s \<noteq> [] \<Longrightarrow> \<exists>a. sv_aof (lf_server l) = Some a \<and> a_mode a = sv_fsyncMode s"
  using assms
  by (auto simp: Serve_def loadAOF_def Open_def split: prod.splits bool.splits if_splits option.splits replay_end.splits)

section \<open>The flag of a replica\<close>

definition printable :: "char \<Rightarrow> bool" where
  "printable c \<longleftrightarrow> 32 < (of_char c :: nat) \<and> (of_char c :: nat) < 127"

lemma fields_from_char:
  "printable c \<Longrightarrow> fields_from cur (c # cs) = fields_from (cur @ [c]) cs"
  "fields_from cur (CHR '' '' # cs) = emit_field cur @ fields_from [] cs"
  by (auto simp: decodeRune_def printable_def IsSpace_def)

declare fields_from.simps(2) [simp del]

lemma fields_from_word:
  "list_all printable w \<Longrightarrow> fields_from cur (w @ rest) = fields_from (cur @ w) rest"
  by (induction w arbitrary: cur) (simp_all add: fields_from_char)

lemma fields_from_blanks: "fields_from [] (replicate n (CHR '' '') @ rest) = fields_from [] rest"
  by (induction n) (simp_all add: fields_from_char emit_field_def)

lemma fields_from_end: "w \<noteq> [] \<Longrightarrow> fields_from w (replicate n (CHR '' '')) = [w]"
  using fields_from_blanks [of "n - 1" "[]"] by (cases n) (simp_all add: fields_from_char emit_field_def)

lemma Fields_two:
  assumes "list_all printable h" "h \<noteq> []" "list_all printable p" "p \<noteq> []"
  shows "Fields (replicate i (CHR '' '') @ h @ replicate (Suc j) (CHR '' '') @ p @ replicate k (CHR '' '')) = [h, p]"
  using assms
  by (simp add: Fields_def fields_from_blanks fields_from_word fields_from_char fields_from_end emit_field_def)

lemma replica_target_two:
  assumes "list_all printable h" "h \<noteq> []" "list_all printable p" "p \<noteq> []"
  shows "replica_target (h @ '' '' @ p) = Inr (JoinHostPort h p)"
  using Fields_two [OF assms, of 0 0 0] assms(2) by (simp add: replica_target_def)

lemma main_no_panic: "main fl los u envs openable e os disk \<noteq> MainPanic"
  using openListeners_cases(1) [of los "fl_bind fl" "fl_port fl" "fl_noTCP fl" "fl_unixSocket fl"]
  by (auto simp: main_def NewMulti_def split: option.splits sum.splits prod.splits if_splits)

lemma main_running:
  assumes "main fl los u envs openable e os disk = Running l cleanup removed"
  shows "life_ok l \<and> 0 < lf_lns l \<and>
      lf_lns l = (if fl_noTCP fl then 0 else 1) + (if fl_unixSocket fl = [] then 0 else 1) \<and>
      (sv_aof (lf_server l) \<noteq> None \<longleftrightarrow> fl_appendOnly fl \<and> fl_aofPath fl \<noteq> []) \<and>
      (\<forall>a. sv_aof (lf_server l) = Some a \<longrightarrow> ParseFsyncMode (fl_appendFsync fl) = Some (a_mode a)) \<and>
      replica_target (fl_replicaOf fl) = Inr (sv_primaryAddr (lf_server l)) \<and>
      (ReplicaTask \<in> set (lf_tasks l) \<longleftrightarrow> sv_primaryAddr (lf_server l) \<noteq> []) \<and>
      (RewriteTask \<in> set (lf_tasks l) \<longleftrightarrow> fl_appendOnly fl \<and> fl_aofPath fl \<noteq> []) \<and>
      (MetricsTask \<in> set (lf_tasks l) \<longleftrightarrow> fl_metricsAddr fl \<noteq> []) \<and>
      {ExpiryTask, HeartbeatTask} \<subseteq> set (lf_tasks l)"
proof -
  from assms obtain mode addr lns opened s where mode: "ParseFsyncMode (fl_appendFsync fl) = Some mode"
    and addr: "replica_target (fl_replicaOf fl) = Inr addr"
    and op: "openListeners los (fl_bind fl) (fl_port fl) (fl_noTCP fl) (fl_unixSocket fl) = (Inr (lns, cleanup), opened, removed)"
    and new: "NewMulti disk (length lns) (main_options fl mode addr) = Some s"
    and sv: "Serve u envs openable e os (length lns) s = Some l"
    by (auto simp: main_def split: option.splits sum.splits prod.splits)
  note cfg = main_options_server [OF new] and fr = Serve_frame [OF sv]
  have none: "sv_aof s = None"
    using new by (auto simp: NewMulti_def main_options_def WithAOF_def WithFsync_def WithReplicaOf_def WithMetrics_def split: if_splits)
  have lns: "lns \<noteq> []" "length lns = (if fl_noTCP fl then 0 else 1) + (if fl_unixSocket fl = [] then 0 else 1)"
    using openListeners_cases(1) [OF op] by (auto split: if_splits)
  have aof: "sv_aof (lf_server l) \<noteq> None \<longleftrightarrow> fl_appendOnly fl \<and> fl_aofPath fl \<noteq> []"
    using cfg(1) fr(6,7) none by (cases "fl_appendOnly fl"; cases "fl_aofPath fl = []") auto
  moreover have "a_mode a = mode" if "sv_aof (lf_server l) = Some a" for a
    using cfg(1,2) fr(7) that aof by (cases "fl_appendOnly fl"; cases "fl_aofPath fl = []") auto
  moreover have "life_ok l" by (rule Serve_ok [OF sv cfg(6)])
  moreover have "set (lf_tasks l) = {ExpiryTask, HeartbeatTask} \<union> (if sv_aof (lf_server l) \<noteq> None then {RewriteTask} else {}) \<union>
      (if addr \<noteq> [] then {ReplicaTask} else {}) \<union> (if fl_metricsAddr fl \<noteq> [] then {MetricsTask} else {})"
    using cfg(3,4) fr(2,4,5) by (auto simp: serve_tasks_def)
  ultimately show ?thesis using mode addr lns cfg(3) fr(1,2) by auto
qed

section \<open>Main results\<close>

text \<open>
  C24: Opening the listeners leaks nothing and destroys nothing. It succeeds exactly when at least one
  listener is asked for and every requested bind works; an error leaves no listener open, success
  leaves exactly the requested ones; and the only file it ever deletes is the socket path, when
  that is a socket.
\<close>

theorem openListeners_safe:
  assumes "openListeners los bind port noTCP unixSocket = (res, opened, removed)"
  shows "((\<exists>lns cleanup. res = Inr (lns, cleanup)) \<longleftrightarrow>
      (noTCP \<longrightarrow> unixSocket \<noteq> []) \<and> (noTCP \<or> ln_tcp los) \<and>
      (unixSocket \<noteq> [] \<longrightarrow> ln_unix los \<and> (ln_path los = NoFile \<or> ln_path los = SocketFile \<and> ln_remove los))) \<and>
    (\<forall>err. res = Inl err \<longrightarrow> opened = []) \<and>
    (\<forall>lns cleanup. res = Inr (lns, cleanup) \<longrightarrow> opened = lns \<and> lns \<noteq> [] \<and>
      lns = (if noTCP then [] else [TCPListener (JoinHostPort bind port)]) @
            (if unixSocket = [] then [] else [UnixListener unixSocket])) \<and>
    set removed \<subseteq> {unixSocket} \<and> (removed \<noteq> [] \<longrightarrow> ln_path los = SocketFile)"
proof (intro conjI)
  show "(\<exists>lns cleanup. res = Inr (lns, cleanup)) \<longleftrightarrow>
      (noTCP \<longrightarrow> unixSocket \<noteq> []) \<and> (noTCP \<or> ln_tcp los) \<and>
      (unixSocket \<noteq> [] \<longrightarrow> ln_unix los \<and> (ln_path los = NoFile \<or> ln_path los = SocketFile \<and> ln_remove los))"
    using openListeners_succeeds [of los bind port noTCP unixSocket] unfolding assms fst_conv .
qed (use openListeners_cases [OF assms] in auto)

theorem openListeners_safe_witness:
  "(let los = \<lparr>ln_tcp = True, ln_path = OtherFile, ln_remove = True, ln_unix = True\<rparr>;
        r = openListeners los [] ''6380'' False ''/srv/data'' in
    r = (Inl (NotASocket ''/srv/data''), [], []) \<and>
    fst (snd (openListeners (los\<lparr>ln_path := SocketFile\<rparr>) [] ''6380'' False ''/srv/data'')) \<noteq> [])"
proof -
  let ?los = "\<lparr>ln_tcp = True, ln_path = OtherFile, ln_remove = True, ln_unix = True\<rparr>"
  obtain res opened removed where r: "openListeners ?los [] ''6380'' False ''/srv/data'' = (res, opened, removed)"
    by (metis prod_cases3)
  moreover have "res = Inl (NotASocket ''/srv/data'')"
    using r by (simp add: openListeners_def Let_def removeStaleUnixSocket_def)
  ultimately have "opened = []" "removed = []" using openListeners_safe [OF r] by auto
  with r \<open>res = _\<close> show ?thesis
    by (simp add: Let_def openListeners_def removeStaleUnixSocket_def require_one_def)
qed



end
