(* ===== verification/Metrics.thy ===== *)
theory Metrics
  imports Startup
begin

text \<open>
  \<open>internal/metrics/metrics.go\<close> and its callers. The Prometheus client library is not part of the
  repository: the state keeps the calls made to it, in order, and nothing is said about what the
  library does with them. Durations are in nanoseconds.
\<close>

section \<open>The package\<close>

datatype metric_call =
    CommandInc string string
  | CommandObserve string int
  | AofBytesAdd int
  | FsyncObserve int
  | ConnInc
  | ConnDec
  | RegisterKeysGauge
  | RegisterMemoryGauge
  | RegisterLagCollector

text \<open>
  The providers are functions of the server's state at scrape time, and the one for the lag also of the
  iteration order and the clock then; \<open>None\<close> before the first \<open>Init\<close>.
\<close>

type_synonym lag_provider = "server \<Rightarrow> choices \<Rightarrow> int \<Rightarrow> (string, int) gomap"

record metrics =
  mx_enabled :: bool
  mx_registered :: bool
  mx_keysFn :: "(server \<Rightarrow> int) option"
  mx_lagFn :: "lag_provider option"
  mx_calls :: "metric_call list"

definition metrics_start :: metrics where
  "metrics_start = \<lparr>mx_enabled = False, mx_registered = False, mx_keysFn = None, mx_lagFn = None, mx_calls = []\<rparr>"

definition call :: "metric_call list \<Rightarrow> metrics \<Rightarrow> metrics" where
  "call cs m = m\<lparr>mx_calls := mx_calls m @ cs\<rparr>"

definition ObserveCommand :: "string \<Rightarrow> string \<Rightarrow> int \<Rightarrow> metrics \<Rightarrow> metrics" where
  "ObserveCommand cmd result d m =
     (if \<not> mx_enabled m then m else call [CommandInc cmd result, CommandObserve cmd d] m)"

definition AddAOFBytes :: "int \<Rightarrow> metrics \<Rightarrow> metrics" where
  "AddAOFBytes n m = (if \<not> mx_enabled m then m else call [AofBytesAdd n] m)"

definition ObserveFsync :: "int \<Rightarrow> metrics \<Rightarrow> metrics" where
  "ObserveFsync d m = (if \<not> mx_enabled m then m else call [FsyncObserve d] m)"

definition ConnOpened :: "metrics \<Rightarrow> metrics" where
  "ConnOpened m = (if mx_enabled m then call [ConnInc] m else m)"

definition ConnClosed :: "metrics \<Rightarrow> metrics" where
  "ConnClosed m = (if mx_enabled m then call [ConnDec] m else m)"

definition Init :: "(server \<Rightarrow> int) \<Rightarrow> lag_provider \<Rightarrow> metrics \<Rightarrow> metrics" where
  "Init keys lag m =
     (let m1 = m\<lparr>mx_keysFn := Some keys, mx_lagFn := Some lag, mx_enabled := True\<rparr>
      in if mx_registered m1 then m1
         else call [RegisterKeysGauge, RegisterMemoryGauge, RegisterLagCollector] (m1\<lparr>mx_registered := True\<rparr>))"

text \<open>A scrape: the value of the keys gauge, and the series of the lag collector.\<close>

definition keys_total :: "metrics \<Rightarrow> server \<Rightarrow> int" where
  "keys_total m s = (case mx_keysFn m of Some f \<Rightarrow> f s | None \<Rightarrow> 0)"

definition Collect :: "choices \<Rightarrow> choices \<Rightarrow> int \<Rightarrow> metrics \<Rightarrow> server \<Rightarrow> (string \<times> int) list" where
  "Collect scan order now m s = (case mx_lagFn m of None \<Rightarrow> [] | Some f \<Rightarrow> go_range order (f s scan now))"

section \<open>The server's calls\<close>

text \<open>What \<open>Serve\<close> hands to \<open>Init\<close> when \<open>--metrics-addr\<close> is set.\<close>

definition serve_metrics :: "server \<Rightarrow> metrics \<Rightarrow> metrics" where
  "serve_metrics s m =
     (if sv_metricsAddr s \<noteq> []
      then Init (\<lambda>s. int (KeyCount (sv_db s))) (\<lambda>s order now. LagSeconds order now (sv_replicas s)) m else m)"

text \<open>The requests that reach \<open>apply\<close>, by the branches of \<open>serve\<close>, and what \<open>apply\<close> reports for them.\<close>

definition reaches_apply :: "unicode \<Rightarrow> server \<Rightarrow> conn \<Rightarrow> resp \<Rightarrow> bool" where
  "reaches_apply u s cs request \<longleftrightarrow>
     (let name = ToUpper u (commandName request)
      in \<not> (subscribed cs \<and> name \<notin> set allowedWhileSubscribed) \<and>
         name \<notin> {''SUBSCRIBE'', ''UNSUBSCRIBE'', ''REPLICAOF'', ''REPLCONF'', ''QUIT''} \<and>
         \<not> (sv_primaryAddr s \<noteq> [] \<and> IsWrite u name))"

definition observe_request :: "unicode \<Rightarrow> world \<Rightarrow> int \<Rightarrow> server \<Rightarrow> conn \<Rightarrow> resp \<Rightarrow> metrics \<Rightarrow> metrics" where
  "observe_request u w d s cs request m =
     (if reaches_apply u s cs request
      then (case snd (snd (server_apply u w s request)) of (label, result) \<Rightarrow> ObserveCommand label result d m)
      else m)"

text \<open>
  What an event of the server's life reports. \<open>d\<close> is the time the command took. The calls of the log
  (\<open>AddAOFBytes\<close>, \<open>ObserveFsync\<close>) are counted by the log itself, see \<open>a_counted\<close>.
\<close>

definition observe :: "unicode \<Rightarrow> int \<Rightarrow> life_event \<Rightarrow> life \<Rightarrow> metrics \<Rightarrow> metrics" where
  "observe u d ev l m =
     (case ev of
        EvAccept i remote \<Rightarrow> ConnOpened m
      | EvRequest i w net r order \<Rightarrow>
          (case map_of (lf_conns l) i of
             None \<Rightarrow> m
           | Some cs \<Rightarrow>
               let m1 = observe_request u w d (lf_server l) cs r m
               in (case serve u w net (lf_server l) cs r of
                     (_, _, True) \<Rightarrow> m1
                   | (_, _, False) \<Rightarrow> ConnClosed m1))
      | EvClientGone i order \<Rightarrow> ConnClosed m
      | _ \<Rightarrow> m)"

fun metered_run :: "unicode \<Rightarrow> (int \<times> life_event) list \<Rightarrow> life \<Rightarrow> metrics \<Rightarrow> (life \<times> metrics) option" where
  "metered_run u [] l m = Some (l, m)"
| "metered_run u ((d, ev) # evs) l m =
     (case life_step u ev l of None \<Rightarrow> None | Some l' \<Rightarrow> metered_run u evs l' (observe u d ev l m))"

section \<open>What the calls add up to\<close>

text \<open>The value the calls give the gauge of open connections, and the label pairs of the command counter.\<close>

definition gauge :: "metric_call list \<Rightarrow> int" where
  "gauge cs = int (count_list cs ConnInc) - int (count_list cs ConnDec)"

definition command_series :: "metric_call list \<Rightarrow> (string \<times> string) set" where
  "command_series cs = {(cmd, result). CommandInc cmd result \<in> set cs}"

definition known_series :: "(string \<times> string) set" where
  "known_series = insert ''unknown'' (fst ` set commands) \<times> {''ok'', ''error''}"

lemma gauge_simps [simp]:
  "gauge [] = 0" "gauge (cs @ ds) = gauge cs + gauge ds" "gauge [ConnInc] = 1" "gauge [ConnDec] = - 1"
  "gauge [CommandInc a b, CommandObserve a d] = 0"
  "gauge [RegisterKeysGauge, RegisterMemoryGauge, RegisterLagCollector] = 0"
  by (simp_all add: gauge_def)

lemma command_series_simps [simp]:
  "command_series [] = {}" "command_series (cs @ ds) = command_series cs \<union> command_series ds"
  "command_series [ConnInc] = {}" "command_series [ConnDec] = {}" "command_series [CommandInc a b, CommandObserve a d] = {(a, b)}"
  "command_series [RegisterKeysGauge, RegisterMemoryGauge, RegisterLagCollector] = {}"
  by (auto simp: command_series_def)

lemma apply_metrics_known: "apply_metrics u name reply \<in> known_series"
proof -
  have "ToUpper u name \<in> fst ` set commands" if "Known u name"
    using that unfolding Known_def by (metis map_of_eq_None_iff)
  then show ?thesis by (simp add: apply_metrics_def known_series_def)
qed

lemma known_series_card: "card known_series \<le> 2 * Suc (length commands)"
proof -
  have "card (fst ` set commands) \<le> length commands"
    using card_image_le [of "set commands" fst] card_length [of commands] by simp
  then have "card (insert ''unknown'' (fst ` set commands)) \<le> Suc (length commands)" by (simp add: card_insert_if)
  then show ?thesis unfolding known_series_def card_cartesian_product by simp
qed

definition metered_ok :: "life \<Rightarrow> metrics \<Rightarrow> bool" where
  "metered_ok l m \<longleftrightarrow>
     (if mx_enabled m then gauge (mx_calls m) = int (card (dom (map_of (lf_conns l)))) \<and> command_series (mx_calls m) \<subseteq> known_series
      else mx_calls m = [])"

lemma observe_request_calls:
  obtains "observe_request u w d s cs r m = m"
    | label result where "mx_enabled m" and "(label, result) \<in> known_series"
      and "observe_request u w d s cs r m = call [CommandInc label result, CommandObserve label d] m"
proof -
  obtain s' reply where "server_apply u w s r = (s', reply, apply_metrics u (commandName r) reply)"
    by (cases "applyRecord u w s r (commandName r)") (simp add: server_apply_def)
  moreover obtain label result where "apply_metrics u (commandName r) reply = (label, result)" by fastforce
  moreover from this have "(label, result) \<in> known_series" by (metis apply_metrics_known)
  ultimately show thesis
    by (cases "reaches_apply u s cs r \<and> mx_enabled m") (auto intro: that simp: observe_request_def ObserveCommand_def)
qed

lemma deliver_conn_dom: "deliver_conn f i l = Some l' \<Longrightarrow> dom (map_of (lf_conns l')) = dom (map_of (lf_conns l))"
  by (auto simp: deliver_conn_def update_conv' split: option.splits prod.splits if_splits)

lemma metered_close:
  assumes m: "metered_ok l m" and C: "map_of (lf_conns l') = (map_of (lf_conns l))(i := None)" "i \<in> dom (map_of (lf_conns l))"
  shows "metered_ok l' (ConnClosed m)" and "mx_enabled (ConnClosed m) = mx_enabled m"
proof -
  let ?A = "dom (map_of (lf_conns l))"
  have A: "dom (map_of (lf_conns l')) = ?A - {i}" using C by auto
  have "Suc (card (?A - {i})) = card ?A" using C(2) by (intro card_Suc_Diff1 finite_dom_map_of)
  then have "int (card (?A - {i})) = int (card ?A) - 1" by linarith
  with m show "metered_ok l' (ConnClosed m)" unfolding metered_ok_def A ConnClosed_def call_def
    by (cases "mx_enabled m") auto
  show "mx_enabled (ConnClosed m) = mx_enabled m" by (simp add: ConnClosed_def call_def)
qed

lemma metered_open:
  assumes m: "metered_ok l m" and C: "map_of (lf_conns l') = (map_of (lf_conns l))(i \<mapsto> cs)" "i \<notin> dom (map_of (lf_conns l))"
  shows "metered_ok l' (ConnOpened m)" and "mx_enabled (ConnOpened m) = mx_enabled m"
  using m C by (auto simp: metered_ok_def ConnOpened_def call_def finite_dom_map_of)

lemma metered_same:
  assumes "metered_ok l m" and "dom (map_of (lf_conns l')) = dom (map_of (lf_conns l))"
  shows "metered_ok l' m"
  using assms by (simp add: metered_ok_def)

lemma metered_request:
  assumes "metered_ok l m"
  shows "metered_ok l (observe_request u w d s cs r m)" and "mx_enabled (observe_request u w d s cs r m) = mx_enabled m"
  using assms by (cases rule: observe_request_calls [of u w d s cs r m]; auto simp: metered_ok_def call_def)+

lemma metered_serve:
  assumes m: "metered_ok l m" and st: "serve_conn u i w net r order l = Some l'"
  shows "metered_ok l' (observe u d (EvRequest i w net r order) l m)"
    and "mx_enabled (observe u d (EvRequest i w net r order) l m) = mx_enabled m"
proof -
  let ?C = "map_of (lf_conns l)"
  from st obtain cs where cs: "?C i = Some cs" by (auto simp: serve_conn_def split: option.splits)
  obtain s' cs' b where sv: "serve u w net (lf_server l) cs r = (s', cs', b)" by (metis prod_cases3)
  let ?m = "observe_request u w d (lf_server l) cs r m"
  have obs: "observe u d (EvRequest i w net r order) l m = (if b then ?m else ConnClosed ?m)"
    by (cases b) (simp_all add: observe_def cs sv)
  note m1 = metered_request [OF m, of u w d "lf_server l" cs r]
  have "metered_ok l' (if b then ?m else ConnClosed ?m) \<and> mx_enabled (if b then ?m else ConnClosed ?m) = mx_enabled m"
  proof (cases b)
    case True
    with st cs sv have "map_of (lf_conns l') = ?C(i \<mapsto> cs')" by (auto simp: serve_conn_def update_conv')
    with cs have "dom (map_of (lf_conns l')) = dom ?C" by auto
    with True m1 metered_same show ?thesis by simp
  next
    case False
    with st cs sv have "map_of (lf_conns l') = ?C(i := None)" "i \<in> dom ?C"
      by (auto simp: serve_conn_def finish_conn_def delete_conv')
    with False m1 metered_close [OF m1(1)] show ?thesis by simp
  qed
  then show "metered_ok l' (observe u d (EvRequest i w net r order) l m)"
    "mx_enabled (observe u d (EvRequest i w net r order) l m) = mx_enabled m" unfolding obs by blast+
qed

lemma metered_step:
  assumes ok: "life_ok l" and m: "metered_ok l m" and st: "life_step u ev l = Some l'"
  shows "metered_ok l' (observe u d ev l m) \<and> mx_enabled (observe u d ev l m) = mx_enabled m"
proof (cases ev)
  case (EvAccept i remote)
  with st have C: "map_of (lf_conns l') = (map_of (lf_conns l))(lf_next l \<mapsto> new_conn remote)"
    by (auto simp: accept_conn_def update_conv' split: if_splits)
  from ok have "lf_next l \<notin> dom (map_of (lf_conns l))" by (auto simp: life_ok_def)
  with EvAccept metered_open [OF m C] show ?thesis by (simp add: observe_def)
next
  case (EvClientGone i order)
  with st have "map_of (lf_conns l') = (map_of (lf_conns l))(i := None)" "i \<in> dom (map_of (lf_conns l))"
    by (auto simp: client_gone_def finish_conn_def delete_conv')
  with EvClientGone metered_close [OF m] show ?thesis by (simp add: observe_def)
next
  case (EvRequest i w net r order)
  with st metered_serve [OF m, of u i w net r order l' d] show ?thesis by simp
next
  case (EvDeliver i net)
  with st metered_same [OF m deliver_conn_dom] show ?thesis by (simp add: observe_def)
next
  case (EvDeliverReplica i net)
  with st metered_same [OF m deliver_conn_dom] show ?thesis by (simp add: observe_def)
qed (use st metered_same [OF m] control_frame in
    \<open>auto simp: observe_def same_serving_def task_tick_def split: if_splits\<close>)

lemma metered_run_ok:
  assumes "metered_run u evs l m = Some (l', m')" and "life_ok l" and "metered_ok l m"
  shows "metered_ok l' m' \<and> mx_enabled m' = mx_enabled m"
  using assms
proof (induction evs arbitrary: l m)
  case (Cons e evs)
  obtain d ev where e: "e = (d, ev)" by fastforce
  with Cons.prems obtain l1 where st: "life_step u ev l = Some l1" and run: "metered_run u evs l1 (observe u d ev l m) = Some (l', m')"
    by (auto split: option.splits)
  with metered_step [OF Cons.prems(2,3) st, of d] Cons.IH [OF run life_step_ok [OF st Cons.prems(2)]] show ?case by simp
qed simp

text \<open>The commands counted are the ones \<open>serve\<close> passes on to \<open>apply\<close>.\<close>

lemma reaches_apply_serve:
  assumes "reaches_apply u s cs r"
  shows "fst (serve u w net s cs r) = fst (server_apply u w s r)"
  using assms unfolding reaches_apply_def Let_def serve_def
  by (simp only: insert_iff empty_iff de_Morgan_disj if_False if_not_P split: if_split) (simp split: prod.splits)

section \<open>Scrapes\<close>

lemma fold_update_keys:
  "fst ` set (fold (\<lambda>(i, rep) out. AList.update (f rep) (g rep) out) xs out) = fst ` set out \<union> (f \<circ> snd) ` set xs"
proof (induction xs arbitrary: out)
  case (Cons x xs)
  obtain i rep where x: "x = (i, rep)" by fastforce
  from Cons.IH [of "AList.update (f rep) (g rep) out"] show ?case by (simp add: x fst_set_update)
qed simp

lemma fold_update_gomap:
  "gomap_ok out \<Longrightarrow> gomap_ok (fold (\<lambda>(i, rep) out. AList.update (f rep) (g rep) out) xs out)"
  by (induction xs arbitrary: out) (auto simp: gomap_ok_update)

section \<open>Main results\<close>



text \<open>
  A scrape reports the live server: the number of stored keys, and exactly one lag series for every
  address a replica is connected from, so no label is emitted twice.
\<close>

lemma scrape_reports_server:
  assumes "sv_metricsAddr s0 \<noteq> []"
  shows "keys_total (serve_metrics s0 m) s = int (KeyCount (sv_db s)) \<and>
    distinct (map fst (Collect scan order now (serve_metrics s0 m) s)) \<and>
    set (map fst (Collect scan order now (serve_metrics s0 m) s)) = (rep_addr \<circ> snd) ` set (reps (sv_replicas s))"
proof -
  let ?L = "LagSeconds scan now (sv_replicas s)"
  have L: "gomap_ok ?L" "fst ` set ?L = (rep_addr \<circ> snd) ` set (reps (sv_replicas s))"
    by (simp_all add: LagSeconds_def fold_update_gomap fold_update_keys)
  have "Collect scan order now (serve_metrics s0 m) s = go_range order ?L"
    "keys_total (serve_metrics s0 m) s = int (KeyCount (sv_db s))"
    using assms by (simp_all add: Collect_def keys_total_def serve_metrics_def Init_def Let_def call_def)
  with L show ?thesis by simp
qed

end
