(* ===== verification/Subscriber_Stream.thy ===== *)
theory Subscriber_Stream
  imports Lifecycle
begin

text \<open>
  Publish/subscribe from the publisher's request to the subscriber's socket: the mailbox of one
  connection, filled by \<open>PUBLISH\<close> on any connection and emptied by its own goroutine \<open>deliver\<close> of
  \<open>internal/server/pubsub.go\<close>. That goroutine is split at its two effects, receiving a message and
  writing it, so that anything may happen in between, and it may outlive its handler.
\<close>

section \<open>The two halves of a delivery\<close>

definition deliver_take :: "server \<Rightarrow> conn \<Rightarrow> (server \<times> message) option" where
  "deliver_take s cs =
     (case cs_sub cs of
        None \<Rightarrow> None
      | Some sub \<Rightarrow>
          (case mailboxes (broker_of s) sub of
             None \<Rightarrow> None
           | Some ch \<Rightarrow>
               (case recv ch of
                  Received msg ch' \<Rightarrow>
                    Some (set_broker s ((broker_of s)\<lparr>mailboxes := (mailboxes (broker_of s))(sub \<mapsto> ch')\<rparr>), msg)
                | _ \<Rightarrow> None)))"

definition deliver_push :: "net \<Rightarrow> conn \<Rightarrow> message \<Rightarrow> conn \<times> bool" where
  "deliver_push net cs msg = conn_write net cs (messageReply (msg_Channel msg) (msg_Payload msg))"

lemma deliver_halves:
  "deliver_take s cs = Some (s', msg) \<Longrightarrow> deliver net s cs = (s', deliver_push net cs msg)"
  by (auto simp: deliver_take_def deliver_def deliver_push_def split: option.splits received.splits prod.splits)

section \<open>What a request does to a mailbox\<close>

text \<open>The message a request publishes, and what of it reaches the mailbox \<open>m\<close>.\<close>

definition request_message :: "unicode \<Rightarrow> resp \<Rightarrow> message option" where
  "request_message u r =
     (if well_formed r \<and> req_name u r = ''PUBLISH'' \<and> length (req_args r) = 2
      then Some \<lparr>msg_Channel = bulk_str (req_args r ! 0), msg_Payload = bulk_str (req_args r ! 1)\<rparr>
      else None)"

definition published :: "unicode \<Rightarrow> conn \<Rightarrow> resp \<Rightarrow> message option" where
  "published u cs r = (if subscribed cs then None else request_message u r)"

definition reached :: "broker \<Rightarrow> nat \<Rightarrow> message option \<Rightarrow> message list" where
  "reached b m x =
     (case x of
        None \<Rightarrow> []
      | Some msg \<Rightarrow> if m \<in> listeners b (msg_Channel msg) \<and> has_room subMailboxCap (mailboxes b) m then [msg] else [])"

lemma reached_None [simp]: "reached b m None = []"
  by (simp add: reached_def)

lemma Dispatch_mail:
  assumes ok: "db_ok d" and m: "mailboxes (pubsub d) m = Some ch"
  shows "mailboxes (pubsub (fst (Dispatch u env d r))) m =
    Some (ch\<lparr>buffer := buffer ch @ reached (pubsub d) m (request_message u r)\<rparr>)"
proof (cases rule: Dispatch_cases [of r u])
  case (bad err)
  then have "request_message u r = None" by (auto simp: request_message_def commands_def)
  with m show ?thesis by (simp add: bad(3))
next
  case (run h)
  show ?thesis
  proof (cases "req_name u r = ''PUBLISH'' \<and> length (req_args r) = 2")
    case True
    with run(2) have h: "h = cmd_Publish" by (simp add: commands_def)
    let ?c = "bulk_str (req_args r ! 0)" and ?p = "bulk_str (req_args r ! 1)"
    obtain b n where pub: "Publish (pubsub d) ?c ?p = (b, n)" by fastforce
    from ok have "broker_ok (pubsub d)" by (simp add: db_ok_def)
    from Publish_spec(2) [OF this pub, of m] True run(1) pub m show ?thesis
      by (simp add: run(3) h cmd_Publish_def request_message_def reached_def)
  next
    case False
    have "pubsub (fst (h env d (req_args r))) = pubsub d"
    proof (cases "req_name u r = ''PUBLISH''")
      case True
      with run(2) have "h = cmd_Publish" by (simp add: commands_def)
      with True False show ?thesis by (simp add: cmd_Publish_def)
    qed (use handler_pubsub [OF run(2)] in blast)
    with False m show ?thesis by (auto simp: run(3) request_message_def)
  qed
qed

lemma apply_mail:
  assumes "server_ok s" and "mailboxes (broker_of s) m = Some ch" and "server_apply u w s r = (s', reply, x)"
  shows "mailboxes (broker_of s') m = Some (ch\<lparr>buffer := buffer ch @ reached (broker_of s) m (request_message u r)\<rparr>)"
  using Dispatch_mail [of "sv_db s" m ch u "w_env w" r] server_apply_reply(2) [of u w s r] assms
  by (simp add: server_ok_def)

lemma subscribe_mail:
  assumes "server_ok s" and m: "mailboxes (broker_of s) m = Some ch" and sb: "conn_subscribe net s cs channels = (s', cs', ok)"
  shows "mailboxes (broker_of s') m = Some ch"
proof (cases "channels = []")
  case True
  with m sb show ?thesis by (auto simp: conn_subscribe_def split: prod.splits)
next
  case False
  show ?thesis
  proof (cases "cs_sub cs")
    case None
    obtain b k where new: "NewSubscriber (broker_of s) = (b, k)" by fastforce
    from m server_ok_broker [OF assms(1)] have "m < next_sub (broker_of s)" by (force simp: broker_ok_def)
    with new m have "mailboxes b m = Some ch" by (auto simp: NewSubscriber_def)
    with subscribe_loop_effect [of net k "set_broker s b"] sb False None new show ?thesis
      by (simp add: conn_subscribe_def)
  next
    case (Some k)
    with subscribe_loop_effect [of net k s cs channels] sb False m show ?thesis by (simp add: conn_subscribe_def)
  qed
qed

lemma unsubscribe_mail:
  assumes "conn_unsubscribe order net s cs channels = (s', cs', ok)"
  shows "mailboxes (broker_of s') = mailboxes (broker_of s)"
  using assms unsubscribe_loop_effect
  by (fastforce simp: conn_unsubscribe_def Let_def split: prod.splits if_splits)

lemma publish_name:
  assumes "request_message u r = Some msg"
  shows "ToUpper u (commandName r) = ''PUBLISH''"
  using assms by (simp add: request_message_def commandName_def req_name_def well_formed_def split: if_splits)

lemma serve_publish:
  assumes "published u cs r = Some msg" and "serve u w net s cs r = (s', cs', ok)"
  obtains reply x where "server_apply u w s r = (s', reply, x)" and "request_message u r = Some msg"
proof -
  have p: "\<not> subscribed cs" "request_message u r = Some msg" using assms(1) by (simp_all add: published_def split: if_splits)
  note name = publish_name [OF p(2)]
  obtain s1 reply x where ap: "server_apply u w s r = (s1, reply, x)" by (metis prod_cases3)
  have "\<not> IsWrite u ''PUBLISH''"
  proof -
    have "ToUpper u ''PUBLISH'' = ''PUBLISH''" by (subst ToUpper_ascii) code_simp+
    then show ?thesis by (simp add: IsWrite_def writeCommands_def)
  qed
  with assms(2) p(1) ap have "s1 = s'" by (simp add: serve_def name split: prod.splits)
  with ap p(2) that show thesis by blast
qed

text \<open>One request, on whatever connection, and one mailbox.\<close>

lemma serve_mail:
  assumes s: "server_ok s" and m: "mailboxes (broker_of s) m = Some ch" and sv: "serve u w net s cs r = (s', cs', ok)"
  shows "mailboxes (broker_of s') m = Some (ch\<lparr>buffer := buffer ch @ reached (broker_of s) m (published u cs r)\<rparr>)"
proof (cases "published u cs r")
  case (Some msg)
  with serve_publish [OF Some sv] apply_mail [OF s m] show ?thesis by metis
next
  case None
  have "mailboxes (broker_of s') m = Some ch"
    using sv
  proof (cases rule: serve_cases)
    case subscribe
    with subscribe_mail [OF s m] show ?thesis by blast
  next
    case unsubscribe
    with unsubscribe_mail m show ?thesis by metis
  next
    case replicaof
    with m show ?thesis by (auto simp: conn_replicaof_def split: prod.splits bool.splits)
  next
    case (run reply x)
    have "request_message u r = None"
    proof (rule ccontr)
      assume "request_message u r \<noteq> None"
      with None run(3) publish_name show False by (fastforce simp: published_def allowedWhileSubscribed_def split: if_splits)
    qed
    with apply_mail [OF s m run(1)] show ?thesis by simp
  qed (use m in simp_all)
  with None show ?thesis by simp
qed

lemma teardown_mail:
  "mailboxes (broker_of (teardown order s cs)) m =
     (if cs_sub cs = Some m then map_option close_chan (mailboxes (broker_of s) m) else mailboxes (broker_of s) m)"
proof -
  have f: "mailboxes (fold (\<lambda>(c, _) b. Unsubscribe b c k) xs b) = mailboxes b" for k xs b
    by (induction xs arbitrary: b) (simp_all add: case_prod_beta Unsubscribe_frame)
  have "broker_of (removeReplica s cs) = broker_of s" by (simp add: removeReplica_def split: option.split)
  then show ?thesis
    by (auto simp: f teardown_def unsubscribeAll_def Let_def CloseSub_def close_chan_def split: option.split)
qed

section \<open>What a request writes\<close>

text \<open>Whole frames, as long as its writes succeed.\<close>

definition writes_frames :: "conn \<Rightarrow> conn \<Rightarrow> bool" where
  "writes_frames cs cs' \<longleftrightarrow> cs_buf cs' = [] \<and> (\<exists>vs. cs_out cs' = cs_out cs @ concat (map wire vs))"

lemma writes_none: "cs_buf cs' = [] \<Longrightarrow> cs_out cs' = cs_out cs \<Longrightarrow> writes_frames cs cs'"
  unfolding writes_frames_def by (metis append_Nil2 concat.simps(1) list.map(1))

lemma writes_frames_trans [trans]: "writes_frames cs cs1 \<Longrightarrow> writes_frames cs1 cs2 \<Longrightarrow> writes_frames cs cs2"
  unfolding writes_frames_def by (metis append.assoc concat_append map_append)

lemma conn_write_frame:
  assumes "conn_write net cs v = (cs', True)"
  shows "cs_buf cs' = []" and "cs_out cs' = cs_out cs @ cs_buf cs @ wire v"
  using assms by (auto simp: conn_write_def writeRaw_def Let_def split: if_splits prod.splits bool.splits option.splits)

lemma write_writes: "conn_write net cs v = (cs', True) \<Longrightarrow> cs_buf cs = [] \<Longrightarrow> writes_frames cs cs'"
  unfolding writes_frames_def using conn_write_frame [of net cs v cs'] by (auto intro: exI [of _ "[v]"])

lemma subscribe_loop_writes:
  "subscribe_loop net m s cs channels = (s', cs', True) \<Longrightarrow> cs_buf cs = [] \<Longrightarrow> writes_frames cs cs'"
proof (induction channels arbitrary: s cs)
  case (Cons c channels)
  define cs1 where "cs1 = (if map_of (cs_channels cs) (bulk_str c) \<noteq> None then cs
    else cs\<lparr>cs_channels := AList.update (bulk_str c) () (cs_channels cs)\<rparr>)"
  from Cons.prems(1) obtain s1 cs2 where
    w: "conn_write net cs1 (subscribeReply ''subscribe'' (bulk_str c) (length (cs_channels cs1))) = (cs2, True)"
    and rec: "subscribe_loop net m s1 cs2 channels = (s', cs', True)"
    unfolding subscribe_loop.simps Let_def cs1_def [symmetric] by (auto split: prod.splits bool.splits)
  have "writes_frames cs cs1" using Cons.prems(2) by (simp add: cs1_def writes_none)
  moreover have "writes_frames cs1 cs2" using write_writes [OF w] Cons.prems(2) by (simp add: cs1_def)
  moreover have "writes_frames cs2 cs'" by (rule Cons.IH [OF rec]) (rule conn_write_frame [OF w])
  ultimately show ?case by (blast intro: writes_frames_trans)
qed (simp add: writes_none)

lemma unsubscribe_loop_writes:
  "unsubscribe_loop net s cs targets = (s', cs', True) \<Longrightarrow> cs_buf cs = [] \<Longrightarrow> writes_frames cs cs'"
proof (induction targets arbitrary: s cs)
  case (Cons c targets)
  define cs1 where "cs1 = (if map_of (cs_channels cs) c \<noteq> None
    then cs\<lparr>cs_channels := AList.delete c (cs_channels cs)\<rparr> else cs)"
  from Cons.prems(1) obtain s1 cs2 where
    w: "conn_write net cs1 (subscribeReply ''unsubscribe'' c (length (cs_channels cs1))) = (cs2, True)"
    and rec: "unsubscribe_loop net s1 cs2 targets = (s', cs', True)"
    unfolding unsubscribe_loop.simps Let_def cs1_def [symmetric] by (auto split: prod.splits bool.splits)
  have "writes_frames cs cs1" using Cons.prems(2) by (simp add: cs1_def writes_none)
  moreover have "writes_frames cs1 cs2" using write_writes [OF w] Cons.prems(2) by (simp add: cs1_def)
  moreover have "writes_frames cs2 cs'" by (rule Cons.IH [OF rec]) (rule conn_write_frame [OF w])
  ultimately show ?case by (blast intro: writes_frames_trans)
qed (simp add: writes_none)

lemma serve_writes:
  assumes sv: "serve u w net s cs r = (s', cs', True)" and buf: "cs_buf cs = []"
  shows "writes_frames cs cs'"
  using sv
proof (cases rule: serve_cases)
  case (reply v b)
  with write_writes [of net cs v cs'] buf show ?thesis by simp
next
  case subscribe
  show ?thesis
  proof (cases "tl (val_Array r) = []")
    case True
    with subscribe write_writes [OF _ buf] show ?thesis by (auto simp: conn_subscribe_def split: prod.splits)
  next
    case False
    then show ?thesis
      using subscribe subscribe_loop_writes [of net _ _ _ "tl (val_Array r)" s' cs'] buf
      by (fastforce simp: conn_subscribe_def writes_frames_def split: option.splits prod.splits)
  qed
next
  case unsubscribe
  with write_writes [OF _ buf] unsubscribe_loop_writes [OF _ buf] show ?thesis
    by (fastforce simp: conn_unsubscribe_def Let_def split: prod.splits if_splits)
next
  case replicaof
  then obtain cs1 rep where w: "conn_write net cs okVal = (cs1, True)" and "cs' = cs1\<lparr>cs_replica := rep\<rparr>"
    by (auto simp: conn_replicaof_def split: prod.splits bool.splits)
  with write_writes [OF w buf] show ?thesis by (simp add: writes_frames_def)
next
  case (ack rep)
  with buf show ?thesis by (simp add: writes_none)
next
  case (run reply x)
  with write_writes buf show ?thesis by blast
qed

section \<open>A subscription as a machine\<close>

text \<open>
  The server, the subscribed connection, whether its handler still runs, and the message its
  delivery goroutine has received and not yet written.
\<close>

record stream =
  st_server :: server
  st_conn :: conn
  st_live :: bool
  st_hand :: "message option"

definition in_hand :: "stream \<Rightarrow> message list" where
  "in_hand st = (case st_hand st of None \<Rightarrow> [] | Some msg \<Rightarrow> [msg])"

text \<open>
  What the client may expect of a request on connection \<open>cs\<close>: a message published on a channel the
  subscriber holds, unless its 256 places are taken.
\<close>

definition arrivals :: "unicode \<Rightarrow> nat \<Rightarrow> stream \<Rightarrow> conn \<Rightarrow> resp \<Rightarrow> message list" where
  "arrivals u m st cs r =
     (case published u cs r of
        None \<Rightarrow> []
      | Some msg \<Rightarrow>
          if st_live st \<and> msg_Channel msg \<in> held (st_conn st) \<and>
             has_room subMailboxCap (mailboxes (broker_of (st_server st))) m
          then [msg] else [])"

text \<open>
  The steps, labelled with the messages that arrive and the messages that are pushed. Requests are
  served on this connection and on others, other deliveries run, connections end, and the rest of
  the server (expiry, the log, replicas) leaves the bus alone.
\<close>

inductive stream_step :: "unicode \<Rightarrow> nat \<Rightarrow> stream \<Rightarrow> message list \<Rightarrow> message list \<Rightarrow> stream \<Rightarrow> bool" for u m st where
  own_request: "st_live st \<Longrightarrow> serve u w net (st_server st) (st_conn st) r = (s', cs', True) \<Longrightarrow>
    stream_step u m st (arrivals u m st (st_conn st) r) [] (st\<lparr>st_server := s', st_conn := cs'\<rparr>)"
| other_request: "conn_ok (st_server st) cs \<Longrightarrow> apart cs (st_conn st) \<Longrightarrow> serve u w net (st_server st) cs r = (s', cs', ok) \<Longrightarrow>
    stream_step u m st (arrivals u m st cs r) [] (st\<lparr>st_server := s'\<rparr>)"
| other_delivery: "cs_sub cs \<noteq> Some m \<Longrightarrow> deliver net (st_server st) cs = (s', cs', ok) \<Longrightarrow>
    stream_step u m st [] [] (st\<lparr>st_server := s'\<rparr>)"
| other_ends: "conn_ok (st_server st) cs \<Longrightarrow> apart cs (st_conn st) \<Longrightarrow>
    stream_step u m st [] [] (st\<lparr>st_server := teardown order (st_server st) cs\<rparr>)"
| background: "server_ok s' \<Longrightarrow> broker_of s' = broker_of (st_server st) \<Longrightarrow>
    feeds (sv_replicas s') = feeds (sv_replicas (st_server st)) \<Longrightarrow> stream_step u m st [] [] (st\<lparr>st_server := s'\<rparr>)"
| receive: "st_hand st = None \<Longrightarrow> deliver_take (st_server st) (st_conn st) = Some (s', msg) \<Longrightarrow>
    stream_step u m st [] [] (st\<lparr>st_server := s', st_hand := Some msg\<rparr>)"
| push: "st_hand st = Some msg \<Longrightarrow> deliver_push net (st_conn st) msg = (cs', True) \<Longrightarrow>
    stream_step u m st [] [msg] (st\<lparr>st_conn := cs', st_hand := None\<rparr>)"
| quit: "st_live st \<Longrightarrow> ToUpper u (commandName r) = ''QUIT'' \<Longrightarrow> conn_write net (st_conn st) okVal = (cs', True) \<Longrightarrow>
    serve u w net (st_server st) (st_conn st) r = (s', cs', ok) \<Longrightarrow>
    stream_step u m st [] [] (st\<lparr>st_server := s', st_conn := cs'\<rparr>)"
| own_ends: "st_live st \<Longrightarrow>
    stream_step u m st [] [] (st\<lparr>st_server := teardown order (st_server st) (st_conn st), st_live := False\<rparr>)"

inductive stream_run :: "unicode \<Rightarrow> nat \<Rightarrow> stream \<Rightarrow> message list \<Rightarrow> message list \<Rightarrow> stream \<Rightarrow> bool" for u m st where
  run_start: "stream_run u m st [] [] st"
| run_step: "stream_run u m st arrived pushed st1 \<Longrightarrow> stream_step u m st1 new out st2 \<Longrightarrow>
    stream_run u m st (arrived @ new) (pushed @ out) st2"

section \<open>First in, first out\<close>

text \<open>The socket's bytes: replies and pushed messages, each a whole frame.\<close>

definition frame_of :: "resp + message \<Rightarrow> string" where
  "frame_of x = (case x of Inl v \<Rightarrow> wire v | Inr msg \<Rightarrow> wire (messageReply (msg_Channel msg) (msg_Payload msg)))"

definition pushed_in :: "(resp + message) list \<Rightarrow> message list" where
  "pushed_in xs = concat (map (\<lambda>x. case x of Inl v \<Rightarrow> [] | Inr msg \<Rightarrow> [msg]) xs)"

definition framed :: "conn \<Rightarrow> message list \<Rightarrow> bool" where
  "framed cs pushed \<longleftrightarrow> cs_buf cs = [] \<and> (\<exists>xs. pushed_in xs = pushed \<and> cs_out cs = concat (map frame_of xs))"

lemma framed_replies:
  assumes "framed cs pushed" and "writes_frames cs cs'"
  shows "framed cs' pushed"
proof -
  from assms(2) obtain vs where vs: "cs_buf cs' = []" "cs_out cs' = cs_out cs @ concat (map wire vs)"
    by (auto simp: writes_frames_def)
  from assms(1) obtain xs where xs: "pushed_in xs = pushed" "cs_out cs = concat (map frame_of xs)" by (auto simp: framed_def)
  have "pushed_in (xs @ map Inl vs) = pushed" using xs(1) by (simp add: pushed_in_def comp_def)
  moreover have "cs_out cs' = concat (map frame_of (xs @ map Inl vs))"
    using vs(2) xs(2) by (simp add: comp_def frame_of_def)
  ultimately show ?thesis using vs(1) unfolding framed_def by blast
qed

lemma framed_push:
  assumes "framed cs pushed" and "deliver_push net cs msg = (cs', True)"
  shows "framed cs' (pushed @ [msg])"
proof -
  from assms(1) obtain xs where xs: "cs_buf cs = []" "pushed_in xs = pushed" "cs_out cs = concat (map frame_of xs)"
    by (auto simp: framed_def)
  note w = conn_write_frame [OF assms(2) [unfolded deliver_push_def]]
  have "pushed_in (xs @ [Inr msg]) = pushed @ [msg]" using xs(2) by (simp add: pushed_in_def)
  moreover have "cs_out cs' = concat (map frame_of (xs @ [Inr msg]))" using w(2) xs by (simp add: frame_of_def)
  ultimately show ?thesis using w(1) unfolding framed_def by blast
qed

definition registered :: "nat \<Rightarrow> stream \<Rightarrow> bool" where
  "registered m st \<longleftrightarrow> server_ok (st_server st) \<and> cs_sub (st_conn st) = Some m \<and>
     (if st_live st then conn_ok (st_server st) (st_conn st) else \<not> is_open (broker_of (st_server st)) m)"

definition queued :: "nat \<Rightarrow> stream \<Rightarrow> message list \<Rightarrow> bool" where
  "queued m st q \<longleftrightarrow> (\<exists>ch. mailboxes (broker_of (st_server st)) m = Some ch \<and> buffer ch = q)"

lemma queued_conn [simp]: "queued m (st\<lparr>st_conn := c\<rparr>) q = queued m st q"
  by (simp add: queued_def)

text \<open>The invariant: what arrived is what was pushed, then the message in hand, then the mailbox.\<close>

definition fifo :: "nat \<Rightarrow> stream \<Rightarrow> message list \<Rightarrow> message list \<Rightarrow> bool" where
  "fifo m st arrived pushed \<longleftrightarrow> registered m st \<and> framed (st_conn st) pushed \<and>
     (\<exists>q. queued m st q \<and> arrived = pushed @ in_hand st @ q)"

lemma arrivals_reached:
  assumes "registered m st"
  shows "arrivals u m st cs r = reached (broker_of (st_server st)) m (published u cs r)"
proof (cases "st_live st")
  case True
  with assms have "m \<in> listeners (broker_of (st_server st)) c \<longleftrightarrow> c \<in> held (st_conn st)" for c
    by (auto simp: registered_def conn_ok_def)
  with True show ?thesis by (simp add: arrivals_def reached_def split: option.split)
next
  case False
  with assms have "m \<notin> listeners (broker_of (st_server st)) c" for c
    using listeners_open [OF server_ok_broker, of "st_server st" m c] by (auto simp: registered_def is_open_def)
  with False show ?thesis by (simp add: arrivals_def reached_def split: option.split)
qed

lemma serve_queued:
  assumes "registered m st" and "queued m st q" and "serve u w net (st_server st) cs r = (s', cs', ok)"
  shows "queued m (st\<lparr>st_server := s'\<rparr>) (q @ arrivals u m st cs r)"
    and "is_open (broker_of s') m = is_open (broker_of (st_server st)) m"
proof -
  from assms(1) have s: "server_ok (st_server st)" by (simp add: registered_def)
  from assms(2) obtain ch where ch: "mailboxes (broker_of (st_server st)) m = Some ch" "buffer ch = q"
    by (auto simp: queued_def)
  note mail = serve_mail [OF s ch(1) assms(3), folded arrivals_reached [OF assms(1)]]
  from mail ch(2) show "queued m (st\<lparr>st_server := s'\<rparr>) (q @ arrivals u m st cs r)" by (simp add: queued_def)
  from mail ch(1) show "is_open (broker_of s') m = is_open (broker_of (st_server st)) m" by (simp add: is_open_def)
qed

lemma fifo_own:
  assumes f: "fifo m st arrived pushed" and live: "st_live st"
    and sv: "serve u w net (st_server st) (st_conn st) r = (s', cs', ok)" and out: "writes_frames (st_conn st) cs'"
  shows "fifo m (st\<lparr>st_server := s', st_conn := cs'\<rparr>) (arrived @ arrivals u m st (st_conn st) r) pushed"
proof -
  from f obtain q where r: "registered m st" "queued m st q" "arrived = pushed @ in_hand st @ q" and
    fr: "framed (st_conn st) pushed" by (auto simp: fifo_def)
  from r(1) live have ok: "server_ok (st_server st)" "conn_ok (st_server st) (st_conn st)" "cs_sub (st_conn st) = Some m"
    by (simp_all add: registered_def)
  from serve_keeps [OF ok(1,2) sv] serve_effect [OF ok(1) sv] ok(3) live
  have "registered m (st\<lparr>st_server := s', st_conn := cs'\<rparr>)"
    by (simp add: registered_def keeps_def request_effect_def own_mailbox_def)
  with framed_replies [OF fr out] serve_queued(1) [OF r(1,2) sv] r(3) show ?thesis
    unfolding fifo_def by (fastforce simp: in_hand_def)
qed

lemma fifo_server:
  assumes f: "fifo m st arrived pushed" and s': "server_ok s'"
    and live: "st_live st \<Longrightarrow> conn_ok (st_server st) (st_conn st) \<Longrightarrow> conn_ok s' (st_conn st)"
    and dead: "is_open (broker_of s') m \<Longrightarrow> is_open (broker_of (st_server st)) m"
    and q: "\<And>q. queued m st q \<Longrightarrow> queued m (st\<lparr>st_server := s'\<rparr>) (q @ new)"
  shows "fifo m (st\<lparr>st_server := s'\<rparr>) (arrived @ new) pushed"
proof -
  from f obtain q' where r: "registered m st" "queued m st q'" "arrived = pushed @ in_hand st @ q'"
    by (auto simp: fifo_def)
  with s' live dead have "registered m (st\<lparr>st_server := s'\<rparr>)" by (auto simp: registered_def)
  with f q [OF r(2)] r(3) show ?thesis unfolding fifo_def by (fastforce simp: in_hand_def)
qed

lemma deliver_elsewhere:
  assumes "cs_sub cs \<noteq> Some m" and "deliver net s cs = (s', cs', ok)"
  shows "mailboxes (broker_of s') m = mailboxes (broker_of s) m"
  using assms by (auto simp: deliver_def split: option.splits received.splits prod.splits)

lemma fifo_take:
  assumes f: "fifo m st arrived pushed" and hand: "st_hand st = None"
    and tk: "deliver_take (st_server st) (st_conn st) = Some (s', msg)"
  shows "fifo m (st\<lparr>st_server := s', st_hand := Some msg\<rparr>) arrived pushed"
proof -
  from f obtain q where r: "registered m st" "queued m st q" "arrived = pushed @ q"
    using hand by (auto simp: fifo_def in_hand_def)
  then have s: "server_ok (st_server st)" "cs_sub (st_conn st) = Some m" by (simp_all add: registered_def)
  obtain cs' ok where "deliver (\<lambda>_. None) (st_server st) (st_conn st) = (s', cs', ok)"
    using deliver_halves [OF tk, of "\<lambda>_. None"] by (cases "deliver_push (\<lambda>_. None) (st_conn st) msg") simp
  from deliver_quiet [OF s(1) this] r(1) have "registered m (st\<lparr>st_server := s', st_hand := Some msg\<rparr>)"
    by (simp add: registered_def)
  moreover have "\<exists>q'. queued m (st\<lparr>st_server := s', st_hand := Some msg\<rparr>) q' \<and> q = msg # q'"
    using tk r(2) s(2) by (auto simp: deliver_take_def queued_def recv_def split: option.splits list.splits if_splits)
  ultimately show ?thesis using f r(3) by (auto simp: fifo_def in_hand_def)
qed

lemma fifo_ends:
  assumes f: "fifo m st arrived pushed" and live: "st_live st"
  shows "fifo m (st\<lparr>st_server := teardown order (st_server st) (st_conn st), st_live := False\<rparr>) arrived pushed"
proof -
  from f obtain q where r: "registered m st" "queued m st q" "arrived = pushed @ in_hand st @ q" by (auto simp: fifo_def)
  with live have ok: "server_ok (st_server st)" "conn_ok (st_server st) (st_conn st)" "cs_sub (st_conn st) = Some m"
    by (simp_all add: registered_def)
  let ?st = "st\<lparr>st_server := teardown order (st_server st) (st_conn st), st_live := False\<rparr>"
  have "registered m ?st"
    using teardown_ok(1,2) [OF ok(1,2), where order = order, folded teardown_def] ok(3) by (simp add: registered_def)
  moreover have "queued m ?st q"
    using r(2) ok(3) by (auto simp: queued_def teardown_mail close_chan_def)
  ultimately show ?thesis using f r(3) unfolding fifo_def by (fastforce simp: in_hand_def)
qed

lemma fifo_step:
  assumes "stream_step u m st new out st'" and f: "fifo m st arrived pushed"
  shows "fifo m st' (arrived @ new) (pushed @ out)"
  using assms(1)
proof cases
  case (own_request w net r s' cs')
  from f have "cs_buf (st_conn st) = []" by (simp add: fifo_def framed_def)
  from fifo_own [OF f own_request(4,5) serve_writes [OF own_request(5) this]] own_request(1-3) show ?thesis by simp
next
  case (other_request cs w net r s' cs' ok)
  from f obtain q where r: "registered m st" "queued m st q" by (auto simp: fifo_def)
  then have s: "server_ok (st_server st)" by (simp add: registered_def)
  note k = serve_keeps [OF s other_request(4,6)]
  have "fifo m (st\<lparr>st_server := s'\<rparr>) (arrived @ new) pushed"
    by (rule fifo_server [OF f])
      (use k other_request(1,5) serve_queued [OF r(1) _ other_request(6)] r(2) in
        \<open>auto simp: keeps_def\<close>)
  with other_request(2,3) show ?thesis by simp
next
  case (other_delivery cs net s' cs' ok)
  from f have s: "server_ok (st_server st)" by (simp add: fifo_def registered_def)
  have "fifo m (st\<lparr>st_server := s'\<rparr>) (arrived @ []) pushed"
    by (rule fifo_server [OF f])
      (use deliver_quiet [OF s other_delivery(5)] deliver_elsewhere [OF other_delivery(4,5)] in \<open>auto simp: queued_def\<close>)
  with other_delivery(1-3) show ?thesis by simp
next
  case (other_ends cs order)
  from f have s: "server_ok (st_server st)" "cs_sub (st_conn st) = Some m" by (simp_all add: fifo_def registered_def)
  with other_ends(5) have "cs_sub cs \<noteq> Some m" by (auto simp: apart_def)
  note m = teardown_mail [of order "st_server st" cs m, unfolded if_not_P [OF this]]
  have "fifo m (st\<lparr>st_server := teardown order (st_server st) cs\<rparr>) (arrived @ []) pushed"
    by (rule fifo_server [OF f])
      (use teardown_ok(1,4) [OF s(1) other_ends(4), where order = order, folded teardown_def] other_ends(5) m in
        \<open>auto simp: queued_def is_open_def\<close>)
  with other_ends(1-3) show ?thesis by simp
next
  case (background s')
  have "fifo m (st\<lparr>st_server := s'\<rparr>) (arrived @ []) pushed"
    by (rule fifo_server [OF f background(4)])
      (use background(5,6) conn_ok_cong [of "st_server st" "st_conn st" "st_conn st" s'] in \<open>auto simp: queued_def\<close>)
  with background(1-3) show ?thesis by simp
next
  case (receive s' msg)
  with fifo_take [OF f] show ?thesis by simp
next
  case (push msg net cs')
  with f framed_push [of "st_conn st" pushed net msg cs'] writes_frame [of net "st_conn st" _ cs' True] show ?thesis
    by (auto simp: fifo_def registered_def queued_def in_hand_def deliver_push_def intro: conn_ok_write split: if_splits)
next
  case (quit r net cs' w s' ok)
  from f have "cs_buf (st_conn st) = []" by (simp add: fifo_def framed_def)
  note own = fifo_own [OF f quit(4,7) write_writes [OF quit(6) this]]
  have "arrivals u m st (st_conn st) r = []"
    using quit(5) publish_name [of u r] by (auto simp: arrivals_def published_def split: option.splits if_splits)
  with own quit(1-3) show ?thesis by simp
next
  case (own_ends order)
  with fifo_ends [OF f] show ?thesis by simp
qed

lemma fifo_run:
  assumes "stream_run u m st arrived pushed st'" and "fifo m st [] []"
  shows "fifo m st' arrived pushed"
  using assms by (induction) (auto intro: fifo_step)

section \<open>The first and the last step of a stream\<close>

lemma stream_starts:
  assumes s: "server_ok s" and sv: "serve u w net s (new_conn remote) r = (s0, cs0, True)" and m: "cs_sub cs0 = Some m"
  shows "fifo m \<lparr>st_server = s0, st_conn = cs0, st_live = True, st_hand = None\<rparr> [] []" (is "fifo m ?st [] []")
proof -
  have buf: "cs_buf (new_conn remote) = []" "cs_out (new_conn remote) = []" "cs_sub (new_conn remote) = None"
    by (simp_all add: new_conn_def)
  have "framed (new_conn remote) []" unfolding framed_def using buf by (auto simp: pushed_in_def intro: exI [of _ "[]"])
  from framed_replies [OF this serve_writes [OF sv buf(1)]] have fr: "framed cs0 []" .
  have reg: "registered m ?st" using serve_keeps [OF s conn_ok_new sv] m by (simp add: registered_def keeps_def)
  have "mailboxes (broker_of s0) m = Some make_chan"
    using sv
  proof (cases rule: serve_cases)
    case subscribe
    obtain b k where new: "NewSubscriber (broker_of s) = (b, k)" by fastforce
    show ?thesis
    proof (cases "tl (val_Array r) = []")
      case True
      with subscribe m writes_frame(1) [of net "new_conn remote" _ cs0] buf(3) show ?thesis
        by (fastforce simp: conn_subscribe_def split: prod.splits)
    next
      case False
      with subscribe new buf(3)
      have "subscribe_loop net k (set_broker s b) ((new_conn remote)\<lparr>cs_sub := Some k, cs_channels := []\<rparr>) (tl (val_Array r)) = (s0, cs0, True)"
        by (simp add: conn_subscribe_def)
      from subscribe_loop_effect [OF this] m new show ?thesis by (auto simp: NewSubscriber_def)
    qed
  next
    case unsubscribe
    with unsubscribe_loop_effect m writes_frame(1) [of net "new_conn remote" _ cs0] buf(3) show ?thesis
      by (fastforce simp: conn_unsubscribe_def Let_def split: prod.splits if_splits)
  next
    case replicaof
    with m writes_frame(1) [of net "new_conn remote" okVal] buf(3) show ?thesis
      by (fastforce simp: conn_replicaof_def split: prod.splits bool.splits)
  qed (use m buf(3) writes_frame(1) [of net "new_conn remote" _ cs0] in auto)
  with reg fr show ?thesis by (simp add: fifo_def queued_def in_hand_def make_chan_def)
qed

lemma stream_run_trans:
  assumes "stream_run u m st1 a' p' st2" and "stream_run u m st a p st1"
  shows "stream_run u m st (a @ a') (p @ p') st2"
  using assms
proof induction
  case (run_step a' p' st1 new out st2)
  from stream_run.run_step [OF run_step.IH [OF run_step.prems] run_step.hyps(2)] show ?case by simp
qed simp

lemma single_step: "stream_step u m st new out st' \<Longrightarrow> stream_run u m st new out st'"
  using run_step [OF run_start] by fastforce

lemma push_works:
  assumes "\<not> cs_broken cs"
  obtains cs' where "deliver_push (\<lambda>_. None) cs msg = (cs', True)" and "\<not> cs_broken cs'" and "cs_sub cs' = cs_sub cs"
  using that assms by (fastforce simp: deliver_push_def conn_write_def messageReply_def writeRaw_def Let_def)

text \<open>On a working socket the goroutine empties the mailbox, whether or not its handler still runs.\<close>

lemma stream_drains:
  assumes "cs_sub (st_conn st) = Some m" and "\<not> cs_broken (st_conn st)" and "queued m st q"
  shows "\<exists>st'. stream_run u m st [] (in_hand st @ q) st'"
  using assms
proof (induction q arbitrary: st)
  case Nil
  show ?case
  proof (cases "st_hand st")
    case None
    then show ?thesis using run_start by (fastforce simp: in_hand_def)
  next
    case (Some msg)
    obtain cs' where "deliver_push (\<lambda>_. None) (st_conn st) msg = (cs', True)" by (rule push_works [OF Nil(2)])
    from single_step [OF push [OF Some this]] Some show ?thesis by (auto simp: in_hand_def)
  qed
next
  case (Cons x q)
  have hand: "\<exists>st1. stream_run u m st [] (in_hand st) st1 \<and> st_hand st1 = None \<and> cs_sub (st_conn st1) = Some m \<and>
    \<not> cs_broken (st_conn st1) \<and> st_server st1 = st_server st"
  proof (cases "st_hand st")
    case None
    with Cons.prems show ?thesis by (intro exI [of _ st]) (simp add: in_hand_def run_start)
  next
    case (Some msg)
    obtain cs' where w: "deliver_push (\<lambda>_. None) (st_conn st) msg = (cs', True)" "\<not> cs_broken cs'" "cs_sub cs' = Some m"
      using push_works [OF Cons.prems(2)] Cons.prems(1) by metis
    from single_step [OF push [OF Some w(1)]] w Some show ?thesis by (fastforce simp: in_hand_def)
  qed
  then obtain st1 where st1: "stream_run u m st [] (in_hand st) st1" "st_hand st1 = None" "cs_sub (st_conn st1) = Some m"
    "\<not> cs_broken (st_conn st1)" "st_server st1 = st_server st" by blast
  from Cons.prems(3) obtain ch where ch: "mailboxes (broker_of (st_server st1)) m = Some ch" "buffer ch = x # q"
    by (auto simp: queued_def st1(5))
  define s' where "s' = set_broker (st_server st1) ((broker_of (st_server st1))\<lparr>mailboxes :=
      (mailboxes (broker_of (st_server st1)))(m \<mapsto> ch\<lparr>buffer := q\<rparr>)\<rparr>)"
  let ?st2 = "st1\<lparr>st_server := s', st_hand := Some x\<rparr>"
  have "deliver_take (st_server st1) (st_conn st1) = Some (s', x)" using st1(3) ch by (simp add: deliver_take_def recv_def s'_def)
  note rc = single_step [OF receive [OF st1(2) this]]
  from Cons.IH [of ?st2] st1(3,4) obtain st' where "stream_run u m ?st2 [] (x # q) st'"
    by (auto simp: queued_def s'_def in_hand_def)
  from stream_run_trans [OF stream_run_trans [OF this rc] st1(1)] show ?case by auto
qed

section \<open>A subscription left with a message on its way\<close>

lemma write_out:
  assumes "\<not> cs_broken cs" and "cs_buf cs = []" and "snd (Encode v)"
  shows "conn_write (\<lambda>_. None) cs v = (cs\<lparr>cs_out := cs_out cs @ wire v, cs_count := Suc (cs_count cs)\<rparr>, True)"
  using assms by (cases "Encode v") (simp add: conn_write_def writeRaw_def Let_def)

definition subscriber :: "string \<Rightarrow> nat \<Rightarrow> string \<Rightarrow> conn" where
  "subscriber remote m channel = (new_conn remote)\<lparr>cs_out := wire (subscribeReply ''subscribe'' channel 1),
     cs_count := 1, cs_sub := Some m, cs_channels := [(channel, ())]\<rparr>"

lemma subscribe_once:
  assumes "NewSubscriber (broker_of s) = (b, m)"
  shows "serve u w (\<lambda>_. None) s (new_conn remote) (bulkCmd ''SUBSCRIBE'' [channel]) =
    (set_broker (set_broker s b) (Subscribe b channel m), subscriber remote m channel, True)"
proof -
  have "ToUpper u ''SUBSCRIBE'' = ''SUBSCRIBE''" by (subst ToUpper_ascii) code_simp+
  with assms show ?thesis
    by (simp add: serve_def subscribed_def new_conn_def bulkCmd_def commandName_def val_defs conn_subscribe_def
        Let_def write_out subscribeReply_def subscriber_def)
qed

lemma unsubscribe_once:
  "serve u w (\<lambda>_. None) s (subscriber remote m channel) (bulkCmd ''UNSUBSCRIBE'' []) =
    (set_broker s (Unsubscribe (broker_of s) channel m),
     (subscriber remote m channel)\<lparr>cs_channels := [], cs_count := 2,
       cs_out := wire (subscribeReply ''subscribe'' channel 1) @ wire (subscribeReply ''unsubscribe'' channel 0)\<rparr>, True)"
proof -
  have "ToUpper u ''UNSUBSCRIBE'' = ''UNSUBSCRIBE''" by (subst ToUpper_ascii) code_simp+
  moreover have "mset (go_range (w_order w) [(channel, ())]) = {#(channel, ())#}" by simp
  then have "go_range (w_order w) [(channel, ())] = [(channel, ())]" by (simp only: mset_single_iff)
  ultimately show ?thesis
    by (simp add: serve_def subscribed_def new_conn_def bulkCmd_def commandName_def val_defs conn_unsubscribe_def
        Let_def write_out subscribeReply_def subscriber_def allowedWhileSubscribed_def)
qed

lemma publish_reaches:
  assumes s: "server_ok s" and new: "NewSubscriber (broker_of s) = (b, m)"
    and sv: "serve u w net (set_broker (set_broker s b) (Subscribe b channel m)) (new_conn remote) (bulkCmd ''PUBLISH'' [channel, payload]) = (s', cs', ok)"
  shows "mailboxes (broker_of s') m = Some \<lparr>buffer = [\<lparr>msg_Channel = channel, msg_Payload = payload\<rparr>], closed = False\<rparr>"
proof -
  let ?s = "set_broker (set_broker s b) (Subscribe b channel m)"
  have "serve u w (\<lambda>_. None) s (new_conn []) (bulkCmd ''SUBSCRIBE'' [channel]) = (?s, subscriber [] m channel, True)"
    by (rule subscribe_once [OF new])
  from serve_keeps [OF s conn_ok_new this] have ok: "server_ok ?s" by (simp add: keeps_def)
  have mb: "mailboxes (broker_of ?s) m = Some make_chan" using new by (auto simp: NewSubscriber_def)
  have "ToUpper u ''PUBLISH'' = ''PUBLISH''" by (subst ToUpper_ascii) code_simp+
  then have "published u (new_conn remote) (bulkCmd ''PUBLISH'' [channel, payload]) = Some \<lparr>msg_Channel = channel, msg_Payload = payload\<rparr>"
    by (simp add: published_def subscribed_def new_conn_def request_message_def well_formed_def req_name_def req_args_def
        bulkCmd_def val_defs)
  with serve_mail [OF ok mb sv] mb show ?thesis
    by (simp add: reached_def listeners_Subscribe has_room_def make_chan_def)
qed

section \<open>Properties\<close>

text \<open>
  C12: A subscriber's stream, from the publishers' requests to the bytes on its socket. Take the
  \<open>SUBSCRIBE\<close> that created the mailbox and any interleaving after it: requests on this and on other
  connections, other deliveries, connections ending, this handler itself ending while its delivery
  goroutine is between receiving a message and writing it. As long as this connection's writes
  succeed, its socket carries whole frames only, replies and pushed messages never torn into each
  other; the messages published on channels it held, while its mailbox had room, are exactly those
  pushed, followed by the one in the goroutine's hand, followed by those in the mailbox, so none is
  lost, duplicated or reordered. When the goroutine finds nothing to receive, all have been pushed,
  and a goroutine on a working socket can always bring that about.
\<close>

theorem subscriber_receives_in_order:
  assumes "server_ok s" and "serve u w net s (new_conn remote) r = (s0, cs0, True)" and "cs_sub cs0 = Some m"
    and "stream_run u m \<lparr>st_server = s0, st_conn = cs0, st_live = True, st_hand = None\<rparr> arrived pushed st"
  shows "(\<exists>xs. cs_out (st_conn st) = concat (map frame_of xs) \<and> pushed_in xs = pushed) \<and>
    (\<exists>ch. mailboxes (broker_of (st_server st)) m = Some ch \<and> length (buffer ch) \<le> subMailboxCap \<and>
      arrived = pushed @ in_hand st @ buffer ch \<and>
      (\<not> cs_broken (st_conn st) \<longrightarrow> (\<exists>st'. stream_run u m st [] (in_hand st @ buffer ch) st'))) \<and>
    (st_hand st = None \<longrightarrow> deliver_take (st_server st) (st_conn st) = None \<longrightarrow> pushed = arrived)"
proof -
  note f = fifo_run [OF assms(4) stream_starts [OF assms(1-3)]]
  from f obtain ch where ch: "mailboxes (broker_of (st_server st)) m = Some ch" "arrived = pushed @ in_hand st @ buffer ch"
    by (auto simp: fifo_def queued_def)
  from f have s: "broker_ok (broker_of (st_server st))" "cs_sub (st_conn st) = Some m" "framed (st_conn st) pushed"
    by (auto simp: fifo_def registered_def server_ok_broker)
  from s(1) ch(1) have "length (buffer ch) \<le> subMailboxCap" by (simp add: broker_ok_def heap_bounded_def)
  moreover have "pushed = arrived" if "st_hand st = None" "deliver_take (st_server st) (st_conn st) = None"
    using that ch s(2) by (auto simp: deliver_take_def in_hand_def recv_def split: list.splits if_splits)
  moreover have "\<exists>st'. stream_run u m st [] (in_hand st @ buffer ch) st'" if "\<not> cs_broken (st_conn st)"
    by (rule stream_drains [OF s(2) that]) (simp add: queued_def ch)
  ultimately show ?thesis using ch s(3) by (auto simp: framed_def)
qed

theorem subscriber_receives_in_order_witness:
  "\<exists>s0 cs0 st xs. let u = \<lparr>upper_table = id, lower_table = id\<rparr>; s = the (NewMulti empty_disk 1 []);
       w = \<lparr>w_env = at_time 0, w_os = all_well, w_order = []\<rparr>; msg = \<lparr>msg_Channel = ''news'', msg_Payload = ''hi''\<rparr> in
     serve u w (\<lambda>_. None) s (new_conn ''a'') (bulkCmd ''SUBSCRIBE'' [''news'']) = (s0, cs0, True) \<and>
     stream_run u 0 \<lparr>st_server = s0, st_conn = cs0, st_live = True, st_hand = None\<rparr> [msg] [msg] st \<and> \<not> st_live st \<and>
     cs_out (st_conn st) = concat (map frame_of xs) \<and> pushed_in xs = [msg]"
proof -
  define u :: unicode where "u = \<lparr>upper_table = id, lower_table = id\<rparr>"
  define w where "w = \<lparr>w_env = at_time 0, w_os = all_well, w_order = []\<rparr>"
  define s where "s = the (NewMulti empty_disk 1 [])"
  define msg where "msg = \<lparr>msg_Channel = ''news'', msg_Payload = ''hi''\<rparr>"
  define cs where "cs = subscriber ''a'' 0 ''news''"
  have s: "server_ok s" by (simp add: s_def server_ok_def NewMulti_def db_ok_New replicas_ok_New)
  obtain b where new: "NewSubscriber (broker_of s) = (b, 0)"
    by (simp add: s_def NewMulti_def db_New_def NewBroker_def NewSubscriber_def)
  define s0 where "s0 = set_broker (set_broker s b) (Subscribe b ''news'' 0)"
  have sub: "serve u w (\<lambda>_. None) s (new_conn ''a'') (bulkCmd ''SUBSCRIBE'' [''news'']) = (s0, cs, True)"
    unfolding s0_def cs_def by (rule subscribe_once [OF new])
  let ?st0 = "\<lparr>st_server = s0, st_conn = cs, st_live = True, st_hand = None\<rparr>" and ?p = "bulkCmd ''PUBLISH'' [''news'', ''hi'']"
  obtain s1 cs1 ok where pub: "serve u w (\<lambda>_. None) s0 (new_conn ''b'') ?p = (s1, cs1, ok)" by (metis prod_cases3)
  note mail = publish_reaches [OF s new pub [unfolded s0_def], folded msg_def]
  have m0: "cs_sub cs = Some 0" "held cs = {''news''}" "\<not> cs_broken cs" by (simp_all add: cs_def subscriber_def held_def new_conn_def)
  have "ToUpper u ''PUBLISH'' = ''PUBLISH''" by (subst ToUpper_ascii) code_simp+
  moreover have "has_room subMailboxCap (mailboxes (broker_of s0)) 0"
    using new by (auto simp: s0_def NewSubscriber_def has_room_def make_chan_def)
  ultimately have arr: "arrivals u 0 ?st0 (new_conn ''b'') ?p = [msg]"
    using m0(2) by (simp add: arrivals_def published_def subscribed_def new_conn_def request_message_def well_formed_def
        req_name_def req_args_def bulkCmd_def val_defs msg_def)
  have ap: "apart (new_conn ''b'') cs" by (simp add: apart_def new_conn_def)
  from other_request [of ?st0 "new_conn ''b''" u w "\<lambda>_. None" ?p s1 cs1 ok 0] arr pub
  have 1: "stream_step u 0 ?st0 [msg] [] (?st0\<lparr>st_server := s1\<rparr>)" by (simp add: conn_ok_new ap)
  let ?st1 = "?st0\<lparr>st_server := s1\<rparr>"
  obtain s2 where tk: "deliver_take s1 cs = Some (s2, msg)" using mail m0(1) by (simp add: deliver_take_def recv_def)
  let ?st2 = "?st1\<lparr>st_server := s2, st_hand := Some msg\<rparr>"
  have 2: "stream_step u 0 ?st1 [] [] ?st2" by (rule receive) (simp_all add: tk)
  let ?st3 = "?st2\<lparr>st_server := teardown [] s2 cs, st_live := False\<rparr>"
  have 3: "stream_step u 0 ?st2 [] [] ?st3" using own_ends [of ?st2 u 0 "[]"] by simp
  obtain cs' where "deliver_push (\<lambda>_. None) cs msg = (cs', True)" using push_works [OF m0(3)] by blast
  then have 4: "stream_step u 0 ?st3 [] [msg] (?st3\<lparr>st_conn := cs', st_hand := None\<rparr>)" by (intro push) simp_all
  have run: "stream_run u 0 ?st0 [msg] [msg] (?st3\<lparr>st_conn := cs', st_hand := None\<rparr>)"
    using run_step [OF run_step [OF run_step [OF single_step [OF 1] 2] 3] 4] by simp
  from subscriber_receives_in_order [OF s sub m0(1) run] obtain xs
    where "cs_out cs' = concat (map frame_of xs)" "pushed_in xs = [msg]" by auto
  with sub run show ?thesis unfolding Let_def u_def w_def s_def msg_def by fastforce
qed

text \<open>
  C38: Leaving a channel does not stop what is already on its way. A client subscribes, another
  publishes, the client unsubscribes from everything and is told so: it holds no channel and is out
  of subscribe mode, where each frame answers a request. The delivery goroutine then still writes
  the message, behind the final acknowledgement.
\<close>

theorem message_follows_unsubscribe:
  assumes "server_ok s"
    and "serve u w1 (\<lambda>_. None) s (new_conn remote) (bulkCmd ''SUBSCRIBE'' [channel]) = (s1, cs1, ok1)"
    and "serve u w2 net s1 (new_conn remote2) (bulkCmd ''PUBLISH'' [channel, payload]) = (s2, cs2, ok2)"
    and "serve u w3 (\<lambda>_. None) s2 cs1 (bulkCmd ''UNSUBSCRIBE'' []) = (s3, cs3, ok3)"
    and "deliver (\<lambda>_. None) s3 cs3 = (s4, cs4, ok4)"
  shows "ok3 \<and> \<not> subscribed cs3 \<and> held cs3 = {} \<and>
    cs_out cs3 = wire (subscribeReply ''subscribe'' channel 1) @ wire (subscribeReply ''unsubscribe'' channel 0) \<and>
    ok4 \<and> cs_out cs4 = cs_out cs3 @ wire (messageReply channel payload)"
proof -
  obtain b m where new: "NewSubscriber (broker_of s) = (b, m)" by fastforce
  from subscribe_once [OF new] assms(2)
  have 1: "s1 = set_broker (set_broker s b) (Subscribe b channel m)" "cs1 = subscriber remote m channel" by simp_all
  note mail = publish_reaches [OF assms(1) new assms(3) [unfolded 1(1)]]
  have 3: "s3 = set_broker s2 (Unsubscribe (broker_of s2) channel m)" ok3
    "cs3 = (subscriber remote m channel)\<lparr>cs_channels := [], cs_count := 2, cs_out :=
       wire (subscribeReply ''subscribe'' channel 1) @ wire (subscribeReply ''unsubscribe'' channel 0)\<rparr>"
    using assms(4) unfolding 1(2) unsubscribe_once by simp_all
  from 3 mail have "mailboxes (broker_of s3) m = Some \<lparr>buffer = [\<lparr>msg_Channel = channel, msg_Payload = payload\<rparr>], closed = False\<rparr>"
    by (simp add: Unsubscribe_frame)
  with assms(5) have d: "(cs4, ok4) = conn_write (\<lambda>_. None) cs3 (messageReply channel payload)"
    using 3 by (auto simp: deliver_def recv_def subscriber_def split: prod.splits)
  have "conn_write (\<lambda>_. None) cs3 (messageReply channel payload) =
      (cs3\<lparr>cs_out := cs_out cs3 @ wire (messageReply channel payload), cs_count := Suc (cs_count cs3)\<rparr>, True)"
    by (rule write_out) (use 3 in \<open>simp_all add: subscriber_def new_conn_def messageReply_def\<close>)
  with d 3 show ?thesis by (auto simp: subscribed_def held_def)
qed

theorem message_follows_unsubscribe_witness:
  "let u = \<lparr>upper_table = id, lower_table = id\<rparr>; s = the (NewMulti empty_disk 1 []);
       w = \<lparr>w_env = at_time 0, w_os = all_well, w_order = []\<rparr>;
       (s1, cs1, _) = serve u w (\<lambda>_. None) s (new_conn ''a'') (bulkCmd ''SUBSCRIBE'' [''news'']);
       (s2, _, _) = serve u w (\<lambda>_. None) s1 (new_conn ''b'') (bulkCmd ''PUBLISH'' [''news'', ''hi'']);
       (s3, cs3, ok3) = serve u w (\<lambda>_. None) s2 cs1 (bulkCmd ''UNSUBSCRIBE'' []);
       (_, cs4, ok4) = deliver (\<lambda>_. None) s3 cs3
   in server_ok s \<and> ok3 \<and> held cs3 = {} \<and> ok4 \<and> cs_out cs4 = cs_out cs3 @ wire (messageReply ''news'' ''hi'')"
proof -
  let ?u = "\<lparr>upper_table = id, lower_table = id\<rparr>" and ?w = "\<lparr>w_env = at_time 0, w_os = all_well, w_order = []\<rparr>"
  define s where "s = the (NewMulti empty_disk 1 [])"
  have s: "server_ok s" by (simp add: s_def server_ok_def NewMulti_def db_ok_New replicas_ok_New)
  obtain s1 cs1 ok1 where 1: "serve ?u ?w (\<lambda>_. None) s (new_conn ''a'') (bulkCmd ''SUBSCRIBE'' [''news'']) = (s1, cs1, ok1)"
    by (metis prod_cases3)
  obtain s2 cs2 ok2 where 2: "serve ?u ?w (\<lambda>_. None) s1 (new_conn ''b'') (bulkCmd ''PUBLISH'' [''news'', ''hi'']) = (s2, cs2, ok2)"
    by (metis prod_cases3)
  obtain s3 cs3 ok3 where 3: "serve ?u ?w (\<lambda>_. None) s2 cs1 (bulkCmd ''UNSUBSCRIBE'' []) = (s3, cs3, ok3)"
    by (metis prod_cases3)
  obtain s4 cs4 ok4 where 4: "deliver (\<lambda>_. None) s3 cs3 = (s4, cs4, ok4)" by (metis prod_cases3)
  show ?thesis
    unfolding Let_def s_def [symmetric] 1 prod.case 2 3 4 using s message_follows_unsubscribe [OF s 1 2 3 4] by blast
qed

end
