(* ===== verification/Replica_Stream.thy ===== *)
theory Replica_Stream
  imports Write_Path Sessions
begin

text \<open>
  Both ends of replication together: a primary whose connection became a feed by \<open>REPLICAOF\<close>, its
  write path and heartbeats filling the feed's queue, the delivery goroutine writing it to the
  socket, and a replica that decodes some prefix of those bytes and dispatches the commands in it.
\<close>

section \<open>The primary's side\<close>

text \<open>
  The steps of a primary that matter to the feed \<open>rep\<close> of connection \<open>cs\<close>, while the queue does not
  overflow: a full queue drops the frame, see \<open>Propagate\<close>.
\<close>

inductive feeding :: "unicode \<Rightarrow> nat \<Rightarrow> server \<times> conn \<Rightarrow> server \<times> conn \<Rightarrow> bool" for u rep where
  request: "wire_ok r \<Longrightarrow> ttl_free u r \<Longrightarrow> has_room replicaQueueCap (queues (sv_replicas s)) rep \<Longrightarrow>
     feeding u rep (s, cs) (fst (server_apply u w s r), cs)"
| heartbeat: "has_room replicaQueueCap (queues (sv_replicas s)) rep \<Longrightarrow>
     feeding u rep (s, cs) (fst (runReplicaHeartbeat order order' now s), cs)"
| ack: "serve u w net s cs replconfAck = (s', cs', True) \<Longrightarrow> feeding u rep (s, cs) (s', cs')"
| delivery: "deliverReplica net s cs = (s', cs', True) \<Longrightarrow> feeding u rep (s, cs) (s', cs')"

text \<open>
  The frames put into the queue since the feed opened are the ones on the wire followed by the
  ones still queued, and without the heartbeats they are exactly the writes that took the store
  from the keyspace \<open>K\<close> to where it is.
\<close>

definition feed_inv :: "unicode \<Rightarrow> nat \<Rightarrow> keyspace \<Rightarrow> string \<Rightarrow> server \<Rightarrow> conn \<Rightarrow> resp list \<Rightarrow> resp list \<Rightarrow> bool" where
  "feed_inv u rep K out s cs delivered pending \<longleftrightarrow>
     db_ok (sv_db s) \<and> no_ttl (keyspace (sv_db s)) \<and> replicas_ok (sv_replicas s) \<and> rep \<in> feeds (sv_replicas s) \<and>
     cs_replica cs = Some rep \<and> cs_channels cs = [] \<and> \<not> cs_broken cs \<and> cs_buf cs = [] \<and>
     cs_out cs = out @ concat (map wire delivered) \<and>
     queues (sv_replicas s) rep = Some \<lparr>buffer = map wire pending, closed = False\<rparr> \<and>
     list_all wire_ok (delivered @ pending) \<and>
     list_all (\<lambda>c. isHeartbeat c \<or> ttl_free u c) (delivered @ pending) \<and>
     fold (spec_apply u) (filter (\<lambda>c. \<not> isHeartbeat c) (delivered @ pending)) K = keyspace (sv_db s)"

lemma write_not_heartbeat:
  assumes "IsWrite u (commandName c)"
  shows "\<not> isHeartbeat c"
proof
  assume h: "isHeartbeat c"
  then have name: "map lower_char (commandName c) = map lower_char ''PING''"
    by (cases "val_Array c") (simp_all add: isHeartbeat_def commandName_def EqualFold_def)
  have ping: "list_all ascii ''PING''" "map upper_char ''PING'' = ''PING''" by code_simp+
  have "list_all ascii (map lower_char (commandName c))" unfolding name using ping(1) by (simp add: list_all_iff)
  then have "list_all ascii (commandName c)" by (simp add: list_all_iff)
  then have "ToUpper u (commandName c) = map upper_char (map lower_char (commandName c))"
    by (simp add: ToUpper_ascii)
  also have "\<dots> = map upper_char ''PING''" unfolding name by (simp only: map_map comp_def upper_lower_char)
  also note ping(2)
  finally show False using assms by (simp add: IsWrite_def writeCommands_def)
qed

lemma ping_frame: "isHeartbeat pingCommand" "wire_ok pingCommand"
  by (simp_all add: isHeartbeat_def pingCommand_def val_defs EqualFold_def maxAlloc_def)

text \<open>How the primary understands the two frames a replica sends.\<close>

lemma serve_joins:
  assumes "\<not> subscribed cs"
  shows "serve u w net s cs replicaofCommand = conn_replicaof (clock (w_env w) 0) net s cs"
proof -
  have "list_all ascii ''REPLICAOF''" "map upper_char ''REPLICAOF'' = ''REPLICAOF''" by code_simp+
  then have "ToUpper u (commandName replicaofCommand) = ''REPLICAOF''"
    by (simp add: ToUpper_ascii commandName_def replicaofCommand_def val_defs)
  with assms show ?thesis by (simp add: serve_def)
qed

lemma serve_replconfAck:
  assumes "\<not> subscribed cs" and "cs_replica cs = Some rep"
  shows "serve u w net s cs replconfAck = (s\<lparr>sv_replicas := Acked (clock (w_env w) 0) (sv_replicas s) rep\<rparr>, cs, True)"
proof -
  have "list_all ascii ''REPLCONF''" "map upper_char ''REPLCONF'' = ''REPLCONF''" by code_simp+
  then have "ToUpper u (commandName replconfAck) = ''REPLCONF''"
    by (simp add: ToUpper_ascii commandName_def replconfAck_def val_defs)
  with assms show ?thesis by (simp add: serve_def)
qed

text \<open>Propagating a frame while there is room adds it behind the queue of the feed.\<close>

lemma Propagate_feed:
  assumes "replicas_ok r" and "rep \<in> feeds r" and "queues r rep = Some \<lparr>buffer = bs, closed = False\<rparr>"
    and "has_room replicaQueueCap (queues r) rep" and "wire_ok cmd"
  shows "queues (Propagate order r cmd) rep = Some \<lparr>buffer = bs @ [wire cmd], closed = False\<rparr>"
    and "replicas_ok (Propagate order r cmd)" and "rep \<in> feeds (Propagate order r cmd)"
proof -
  obtain frame where e: "Encode cmd = (frame, True)" using Encode_ok(1) [OF assms(5)] by (metis prod.collapse)
  note spec = Propagate_spec [OF assms(1) e, of order]
  from spec(3) [of rep] assms e show "queues (Propagate order r cmd) rep = Some \<lparr>buffer = bs @ [wire cmd], closed = False\<rparr>"
    by simp
  from spec(1,2) assms(2) show "replicas_ok (Propagate order r cmd)" "rep \<in> feeds (Propagate order r cmd)"
    by (simp_all add: feeds_def)
qed

lemma feed_request:
  assumes inv: "feed_inv u rep K out s cs delivered pending" and r: "wire_ok r" "ttl_free u r"
    and room: "has_room replicaQueueCap (queues (sv_replicas s)) rep"
  shows "\<exists>pending'. feed_inv u rep K out (fst (server_apply u w s r)) cs delivered pending'"
proof -
  obtain d' reply where disp: "Dispatch u (w_env w) (sv_db s) r = (d', reply)" by fastforce
  from inv have d: "db_ok (sv_db s)" "no_ttl (keyspace (sv_db s))" by (simp_all add: feed_inv_def)
  have d': "db_ok d'" "keyspace d' = spec_apply u r (keyspace (sv_db s))" "no_ttl (keyspace d')"
    using Dispatch_db_ok [OF d(1), of u "w_env w" r] Dispatch_no_ttl [OF d r(2), of "w_env w"] spec_apply_no_ttl [OF d(2) r(2)] disp
    by simp_all
  have ks: "keyspace d' = fold (spec_apply u) (logged u r reply) (keyspace (sv_db s))"
    using spec_apply_logged [OF d r(2), of "w_env w"] disp d'(2) by simp
  let ?s = "fst (server_apply u w s r)"
  have any: "Any (sv_replicas s)" using inv by (auto simp: feed_inv_def Any_def feeds_def)
  have s': "sv_db ?s = d'" "sv_replicas ?s = (if logged u r reply = [] then sv_replicas s else Propagate (w_order w) (sv_replicas s) r)"
    using any disp
    by (auto simp: server_apply_def applyRecord_def logged_def record_write_def Let_def split: option.splits prod.splits)
  show ?thesis
  proof (cases "logged u r reply = []")
    case True
    with inv d' ks s' show ?thesis by (intro exI [of _ pending]) (simp add: feed_inv_def)
  next
    case False
    then have l: "logged u r reply = [r]" and w: "\<not> isHeartbeat r"
      by (auto simp: logged_def write_not_heartbeat split: if_splits)
    from inv Propagate_feed [of "sv_replicas s" rep "map wire pending" r "w_order w"] room r(1)
    have "queues (sv_replicas ?s) rep = Some \<lparr>buffer = map wire (pending @ [r]), closed = False\<rparr>"
      "replicas_ok (sv_replicas ?s)" "rep \<in> feeds (sv_replicas ?s)" by (simp_all add: feed_inv_def s' l)
    with inv d' ks l w r s'(1) show ?thesis by (intro exI [of _ "pending @ [r]"]) (simp add: feed_inv_def)
  qed
qed

lemma feed_heartbeat:
  assumes inv: "feed_inv u rep K out s cs delivered pending" and room: "has_room replicaQueueCap (queues (sv_replicas s)) rep"
  shows "feed_inv u rep K out (fst (runReplicaHeartbeat order order' now s)) cs delivered (pending @ [pingCommand])"
proof -
  have s': "fst (runReplicaHeartbeat order order' now s) = s\<lparr>sv_replicas := Propagate order (sv_replicas s) pingCommand\<rparr>"
    by (simp add: runReplicaHeartbeat_def Heartbeat_def Let_def)
  from inv Propagate_feed [of "sv_replicas s" rep "map wire pending" pingCommand order] room ping_frame show ?thesis
    unfolding s' by (simp add: feed_inv_def)
qed

lemma feed_ack:
  assumes inv: "feed_inv u rep K out s cs delivered pending" and ack: "serve u w net s cs replconfAck = (s', cs', True)"
  shows "feed_inv u rep K out s' cs' delivered pending"
proof -
  let ?now = "clock (w_env w) 0"
  from inv ack have "s' = s\<lparr>sv_replicas := Acked ?now (sv_replicas s) rep\<rparr>" "cs' = cs"
    using serve_replconfAck [of cs rep u w net s] by (simp_all add: feed_inv_def subscribed_def)
  moreover have "queues (Acked ?now (sv_replicas s) rep) = queues (sv_replicas s)" by (simp add: Acked_def split: option.splits)
  ultimately show ?thesis using inv replicas_ok_Acked [of "sv_replicas s" ?now rep] by (simp add: feed_inv_def)
qed

lemma feed_delivery:
  assumes inv: "feed_inv u rep K out s cs delivered pending" and d: "deliverReplica net s cs = (s', cs', True)"
  shows "\<exists>delivered' pending'. feed_inv u rep K out s' cs' delivered' pending'"
proof (cases pending)
  case Nil
  with inv d have "s' = s" "cs' = cs" by (simp_all add: feed_inv_def deliverReplica_def recv_def)
  with inv show ?thesis by blast
next
  case (Cons c rest)
  let ?ch = "\<lparr>buffer = map wire rest, closed = False\<rparr>"
  from inv have q: "queues (sv_replicas s) rep = Some \<lparr>buffer = wire c # map wire rest, closed = False\<rparr>"
    by (simp add: feed_inv_def Cons)
  have recv: "recv \<lparr>buffer = wire c # map wire rest, closed = False\<rparr> = Received (wire c) ?ch" by (simp add: recv_def)
  obtain b where w: "writeRaw net cs (wire c) = (cs', b)" "b"
    and s': "s' = s\<lparr>sv_replicas := (sv_replicas s)\<lparr>queues := (queues (sv_replicas s))(rep \<mapsto> ?ch)\<rparr>\<rparr>"
    using d inv q recv by (auto simp: feed_inv_def deliverReplica_def split: prod.splits)
  have cs': "cs_out cs' = cs_out cs @ wire c" "cs_buf cs' = []" "\<not> cs_broken cs'" "cs_replica cs' = cs_replica cs" "cs_channels cs' = cs_channels cs"
    using w inv by (auto simp: writeRaw_def feed_inv_def Let_def split: option.splits)
  from inv heap_recv [of "queues (sv_replicas s)", OF q recv] have "replicas_ok (sv_replicas s')"
    by (simp add: s' feed_inv_def replicas_ok_def feeds_def)
  moreover have "feeds (sv_replicas s') = feeds (sv_replicas s)" by (simp add: s' feeds_def)
  ultimately have "feed_inv u rep K out s' cs' (delivered @ [c]) rest"
    using inv cs' by (simp add: feed_inv_def Cons s')
  then show ?thesis by blast
qed

lemma feeding_inv:
  assumes "(feeding u rep)\<^sup>*\<^sup>* p0 p" and "feed_inv u rep K out (fst p0) (snd p0) delivered pending"
  shows "\<exists>delivered' pending'. feed_inv u rep K out (fst p) (snd p) delivered' pending'"
  using assms
proof (induction rule: rtranclp_induct)
  case (step p1 p2)
  then obtain delivered' pending' where inv: "feed_inv u rep K out (fst p1) (snd p1) delivered' pending'" by blast
  from step.hyps(2) inv show ?case
  proof cases
    case (request r s w)
    with inv feed_request show ?thesis by fastforce
  next
    case (heartbeat s order order' now)
    with inv feed_heartbeat show ?thesis by fastforce
  next
    case (ack w net s cs s' cs')
    with inv feed_ack show ?thesis by fastforce
  next
    case (delivery net s cs s' cs')
    with inv feed_delivery show ?thesis by fastforce
  qed
qed blast

lemma feed_opens:
  assumes s: "server_ok s" "no_ttl (keyspace (sv_db s))"
    and serve: "serve u' w net s (new_conn remote) replicaofCommand = (s0, cs0, True)" and rep: "cs_replica cs0 = Some rep"
  shows "feed_inv u rep (keyspace (sv_db s)) (wire okVal) s0 cs0 [] []" and "sv_db s0 = sv_db s"
proof -
  define now where "now = clock (w_env w) 0"
  have re: "conn_replicaof now net s (new_conn remote) = (s0, cs0, True)"
    using serve serve_joins [of "new_conn remote"] by (simp add: subscribed_def new_conn_def now_def)
  obtain bs where e: "Encode okVal = (bs, True)" by (simp add: okVal_def)
  obtain r i where add: "Add now (sv_replicas s) remote = (r, i)" by fastforce
  have w: "snd (conn_write net (new_conn remote) okVal)"
    using re by (cases "conn_write net (new_conn remote) okVal") (auto simp: conn_replicaof_def split: bool.splits)
  then have net: "net 0 = None" by (auto simp: conn_write_def e writeRaw_def new_conn_def split: option.splits)
  from re net e add have s0: "s0 = s\<lparr>sv_replicas := r\<rparr>" and cs0: "cs_out cs0 = bs" "cs_buf cs0 = []" "\<not> cs_broken cs0" "cs_replica cs0 = Some i"
      "cs_channels cs0 = []"
    by (auto simp: conn_replicaof_def conn_write_def writeRaw_def new_conn_def)
  from s have "replicas_ok (sv_replicas s)" by (simp add: server_ok_def)
  note a = replicas_ok_Add [OF this add]
  with s cs0 rep e show "feed_inv u rep (keyspace (sv_db s)) (wire okVal) s0 cs0 [] []"
    by (auto simp: feed_inv_def s0 server_ok_def make_chan_def)
  show "sv_db s0 = sv_db s" by (simp add: s0)
qed

section \<open>The replica's side\<close>

text \<open>A session of a replica that reads the bytes \<open>p\<close> and then the end of the stream.\<close>

definition reads :: "string \<Rightarrow> io_err \<Rightarrow> session" where
  "reads p e = \<lparr>ses_dial = True, ses_send = True, ses_input = p, ses_end = e, ses_acked = (\<lambda>_. True)\<rparr>"

lemma ok_frame: "wire_ok okVal" "okVal = SimpleString ''OK''"
  by (simp_all add: okVal_def)

lemma stream_prefix:
  assumes vs: "list_all wire_ok vs" and p: "p @ q = wire okVal @ concat (map wire vs)"
  obtains n where "n \<le> length vs" and "q = [] \<Longrightarrow> n = length vs"
    and "fst (streamOnce (reads p e) f s) = foldl f s (filter (\<lambda>v. \<not> isHeartbeat v) (take n vs))"
proof -
  from vs ok_frame(1) have "list_all wire_ok (okVal # vs)" by simp
  moreover from p have "p @ q = concat (map wire (okVal # vs))" by simp
  ultimately obtain ws xs cut rest where split: "okVal # vs = ws @ xs" "p = concat (map wire ws) @ cut"
    and cut: "cut = [] \<or> (\<exists>x ys. xs = x # ys \<and> wire x = cut @ rest \<and> rest \<noteq> [])"
    by (rule resp_wire.cut_stream)
  show thesis
  proof (cases ws)
    case Nil
    then have p': "p = cut" "xs = okVal # vs" using split by simp_all
    have torn: "cut \<noteq> [] \<Longrightarrow> Decode e cut = Fail (unexpectEOF e)"
      using cut p' resp_wire.torn [OF ok_frame(1), of cut rest e] by auto
    have "cut \<noteq> wire okVal @ concat (map wire vs)" using cut p' resp_wire.enc_nonempty [OF ok_frame(1)] by auto
    with p p' have "q \<noteq> []" by auto
    moreover have "fst (streamOnce (reads p e) f s) = s"
      using torn resp_wire.at_end [of e] by (cases "cut = []") (simp_all add: streamOnce_def reads_def p')
    ultimately show thesis by (intro that [of 0]) simp_all
  next
    case (Cons w ws')
    then have ws': "vs = ws' @ xs" "w = okVal" using split by simp_all
    define v where "v = (if cut = [] then pingCommand else hd xs)"
    define r where "r = (if cut = [] then wire pingCommand else rest)"
    have v: "wire_ok v" "wire v = cut @ r" "r \<noteq> []"
      using cut vs ws' ping_frame(2) resp_wire.enc_nonempty [OF ping_frame(2)] by (auto simp: v_def r_def)
    have "list_all wire_ok (ws' @ [v])" using vs ws' v by simp
    from streamOnce_torn [OF this v(2,3), of "''OK''" e f s]
    have st: "fst (streamOnce (reads p e) f s) = foldl f s (filter (\<lambda>v. \<not> isHeartbeat v) ws')"
      by (simp add: reads_def split Cons ws' ok_frame(2))
    have "length ws' = length vs" if "q = []"
    proof -
      from p that split ws' Cons have "cut = concat (map wire xs)" by simp
      then have "xs = []" using cut vs ws' resp_wire.enc_nonempty by (cases xs) auto
      with ws' show ?thesis by simp
    qed
    with st ws' show thesis by (intro that [of "length ws'"]) simp_all
  qed
qed

section \<open>Main result\<close>

lemma replica_follows:
  assumes s: "server_ok s" "no_ttl (keyspace (sv_db s))"
    and re: "serve u w net s (new_conn remote) replicaofCommand = (s0, cs0, True)" "cs_replica cs0 = Some rep"
    and run: "(feeding u rep)\<^sup>*\<^sup>* (s0, cs0) (s1, cs1)" and cut: "cs_out cs1 = p @ q"
    and d: "db_ok d" "keyspace d = keyspace (sv_db s)"
  obtains writes k where "keyspace (sv_db s1) = fold (spec_apply u) writes (keyspace (sv_db s))"
    and "keyspace (fst (fst (streamOnce (reads p e) (replay_step u envs) (d, 0)))) = fold (spec_apply u) (take k writes) (keyspace (sv_db s))"
    and "q = [] \<Longrightarrow> queues (sv_replicas s1) rep = Some make_chan \<Longrightarrow> k = length writes"
proof -
  from feeding_inv [OF run, of "keyspace (sv_db s)" "wire okVal" "[]" "[]"] feed_opens [OF s re]
  obtain del pen where inv: "feed_inv u rep (keyspace (sv_db s)) (wire okVal) s1 cs1 del pen" by auto
  then have del: "list_all wire_ok del" "p @ q = wire okVal @ concat (map wire del)"
    and ks: "keyspace (sv_db s1) = fold (spec_apply u) (filter (\<lambda>v. \<not> isHeartbeat v) (del @ pen)) (keyspace (sv_db s))"
    and free: "list_all (\<lambda>c. isHeartbeat c \<or> ttl_free u c) del"
    and queue: "queues (sv_replicas s1) rep = Some \<lparr>buffer = map wire pen, closed = False\<rparr>"
    using cut by (simp_all add: feed_inv_def)
  obtain n where n: "n \<le> length del" "q = [] \<Longrightarrow> n = length del"
    and st: "fst (streamOnce (reads p e) (replay_step u envs) (d, 0)) =
      foldl (replay_step u envs) (d, 0) (filter (\<lambda>v. \<not> isHeartbeat v) (take n del))"
    by (rule stream_prefix [OF del, of e "replay_step u envs" "(d, 0)"]) blast
  let ?w = "filter (\<lambda>v. \<not> isHeartbeat v)"
  define k where "k = length (?w (take n del))"
  have k: "take k (?w (del @ pen)) = ?w (take n del)"
    by (metis append_eq_conv_conj append_take_drop_id filter_append k_def append.assoc)
  have "list_all (ttl_free u) (?w (take n del))"
    using free by (auto simp: list_all_iff dest: in_set_takeD)
  with dispatching.run(2) [of d u "?w (take n del)" envs 0] d s(2)
  have "keyspace (fst (foldl (replay_step u envs) (d, 0) (?w (take n del)))) = fold (spec_apply u) (?w (take n del)) (keyspace (sv_db s))"
    by (simp add: replay_step_machine)
  then have "keyspace (fst (fst (streamOnce (reads p e) (replay_step u envs) (d, 0)))) =
      fold (spec_apply u) (take k (?w (del @ pen))) (keyspace (sv_db s))" unfolding st k .
  moreover have "k = length (?w (del @ pen))" if "q = []" "queues (sv_replicas s1) rep = Some make_chan"
    using that queue n by (simp add: k_def make_chan_def)
  ultimately show thesis using that ks by blast
qed



end
