(* ===== verification/Replies.thy ===== *)
theory Replies
  imports Command_Spec Resp_Codec
begin

text \<open>
  The type of the replies of \<open>internal/cmd\<close>: what shapes of RESP values the handlers produce, and
  when a status or error line stays one line on the wire.
\<close>

section \<open>Reply types\<close>

definition is_bulk :: "resp \<Rightarrow> bool" where
  "is_bulk v = (case v of BulkString (Some b) \<Rightarrow> True | _ \<Rightarrow> False)"

definition one_line :: "string \<Rightarrow> bool" where
  "one_line s \<longleftrightarrow> LF \<notin> set s \<and> CR \<notin> set s"

text \<open>A status, an error, an integer, a bulk string, or an array of bulk strings.\<close>

definition reply_type :: "resp \<Rightarrow> bool" where
  "reply_type v =
     (case v of
        SimpleString s \<Rightarrow> one_line s
      | ErrorV s \<Rightarrow> True
      | IntegerV n \<Rightarrow> True
      | BulkString b \<Rightarrow> True
      | ArrayV (Some vs) \<Rightarrow> list_all is_bulk vs
      | _ \<Rightarrow> False)"

definition plain_error :: "resp \<Rightarrow> bool" where
  "plain_error v = (case v of ErrorV s \<Rightarrow> one_line s | _ \<Rightarrow> True)"

definition good_reply :: "resp \<Rightarrow> bool" where
  "good_reply v \<longleftrightarrow> reply_type v \<and> plain_error v"

lemma good_reply_constructors [simp]:
  "good_reply okValue" "good_reply (integerValue n)" "good_reply (boolReply b)" "good_reply (bulkValue x)"
  "good_reply nullBulkValue" "good_reply notInteger" "good_reply (bulkArrayValue xs)" "good_reply (replyForErr err)"
  "good_reply (simpleStringValue ''PONG'')"
  by (simp_all add: good_reply_def reply_type_def plain_error_def reply_defs one_line_def is_bulk_def list_all_iff split: db_error.splits)

lemma good_reply_wrongArgs: "one_line name \<Longrightarrow> good_reply (wrongArgs name)"
  by (simp add: good_reply_def reply_type_def plain_error_def reply_defs one_line_def)

lemma encodable_bulks: "list_all is_bulk vs \<Longrightarrow> snd (encodeElems vs)"
proof (induction vs)
  case (Cons v vs)
  then obtain b where "v = BulkString (Some b)" by (auto simp: is_bulk_def split: resp.splits option.splits)
  with Cons show ?case by (simp add: case_prod_beta)
qed simp

lemma reply_type_encodes: "reply_type v \<Longrightarrow> snd (Encode v)"
proof (cases v)
  case (BulkString b)
  then show ?thesis by (cases b) simp_all
qed (auto simp: reply_type_def case_prod_beta encodable_bulks split: option.splits)

section \<open>Every handler\<close>

text \<open>What each handler answers, by the kind of its reply.\<close>

lemma connection_replies:
  "good_reply (snd (cmd_Ping env d args))"
  "good_reply (snd (cmd_Echo env d args))"
  "good_reply (snd (cmd_Set env d args))"
  "good_reply (snd (cmd_Publish env d args))"
  by (auto simp: cmd_Ping_def cmd_Echo_def cmd_Set_def cmd_Publish_def good_reply_wrongArgs one_line_def
      split: list.splits prod.splits)

lemma counting_replies:
  "good_reply (snd (cmd_Del env d args))"
  "good_reply (snd (cmd_Exists env d args))"
  "good_reply (snd (cmd_LPush env d args))"
  "good_reply (snd (cmd_RPush env d args))"
  "good_reply (snd (cmd_LLen env d args))"
  "good_reply (snd (cmd_HSet env d args))"
  "good_reply (snd (cmd_HDel env d args))"
  "good_reply (snd (cmd_HLen env d args))"
  "good_reply (snd (cmd_SAdd env d args))"
  "good_reply (snd (cmd_SRem env d args))"
  "good_reply (snd (cmd_SCard env d args))"
  by (simp_all add: cmd_Del_def cmd_Exists_def cmd_LPush_def cmd_RPush_def cmd_LLen_def cmd_HSet_def cmd_HDel_def
      cmd_HLen_def cmd_SAdd_def cmd_SRem_def cmd_SCard_def good_reply_wrongArgs one_line_def
      split: prod.split sum.split)

lemma value_replies:
  "good_reply (snd (cmd_Get env d args))"
  "good_reply (snd (cmd_LPop env d args))"
  "good_reply (snd (cmd_RPop env d args))"
  "good_reply (snd (cmd_HGet env d args))"
  by (simp_all add: cmd_Get_def cmd_LPop_def cmd_RPop_def cmd_HGet_def good_reply_wrongArgs one_line_def
      split: prod.split sum.split option.split)

lemma array_replies:
  "good_reply (snd (cmd_LRange env d args))"
  "good_reply (snd (cmd_HKeys env d args))"
  "good_reply (snd (cmd_HVals env d args))"
  "good_reply (snd (cmd_SMembers env d args))"
  by (simp_all add: cmd_LRange_def cmd_HKeys_def cmd_HVals_def cmd_SMembers_def good_reply_wrongArgs one_line_def
      split: sum.split option.split)

lemma HGetAll_reply: "good_reply (snd (cmd_HGetAll env d args))"
  by (simp add: cmd_HGetAll_def good_reply_wrongArgs one_line_def split: sum.split prod.split)
    (simp add: good_reply_def reply_type_def plain_error_def reply_defs is_bulk_def list_all_iff)

lemma flag_replies:
  "good_reply (snd (cmd_SIsMember env d args))"
  "good_reply (snd (cmd_Expire env d args))"
  "good_reply (snd (cmd_PExpire env d args))"
  "good_reply (snd (cmd_TTL env d args))"
  "good_reply (snd (cmd_PTTL env d args))"
  "good_reply (snd (cmd_Persist env d args))"
  by (simp_all add: cmd_SIsMember_def cmd_Expire_def cmd_PExpire_def cmd_TTL_def cmd_PTTL_def cmd_Persist_def
      good_reply_wrongArgs one_line_def split: prod.split sum.split option.split)

lemmas handler_replies = connection_replies counting_replies value_replies array_replies HGetAll_reply flag_replies

lemma handler_reply:
  assumes "map_of commands name = Some h"
  shows "good_reply (snd (h env d args))"
  using assms handler_replies by (auto simp: commands_def split: if_splits)

section \<open>Replies of the dispatcher\<close>

lemma Dispatch_reply_type:
  "reply_type (snd (Dispatch u env d r))"
  "well_formed r \<and> map_of commands (req_name u r) = None \<or> plain_error (snd (Dispatch u env d r))"
proof (atomize (full), cases rule: Dispatch_cases [of r u])
  case (bad err)
  then have "reply_type err" by (cases err) (simp_all add: reply_type_def is_error_def)
  moreover have "plain_error err" if "\<not> well_formed r"
    using that bad(3) [of env d]
    by (auto simp: Dispatch_def well_formed_def errorValue_def plain_error_def one_line_def)
  ultimately show "reply_type (snd (Dispatch u env d r)) \<and>
    (well_formed r \<and> map_of commands (req_name u r) = None \<or> plain_error (snd (Dispatch u env d r)))"
    using bad(1) by (auto simp: bad(3))
next
  case (run h)
  from handler_reply [OF run(2)] show "reply_type (snd (Dispatch u env d r)) \<and>
    (well_formed r \<and> map_of commands (req_name u r) = None \<or> plain_error (snd (Dispatch u env d r)))"
    by (simp add: run(3) good_reply_def)
qed

lemma Dispatch_encodes: "snd (Encode (snd (Dispatch u env d r)))"
  by (rule reply_type_encodes [OF Dispatch_reply_type(1)])

text \<open>
  C21: every reply of \<open>Dispatch\<close> is a status, an error, an integer, a bulk string or an array of bulk strings,
  and the encoder accepts it whole; for a registered command its error text is a single line, so it cannot be
  mistaken for a further reply.
\<close>

theorem replies_well_typed:
  "reply_type (snd (Dispatch u env d r)) \<and>
   snd (Encode (snd (Dispatch u env d r))) \<and>
   (well_formed r \<and> map_of commands (req_name u r) = None \<or> plain_error (snd (Dispatch u env d r)))"
  using Dispatch_reply_type(1) [of u env d r] Dispatch_reply_type(2) [of r u env d] Dispatch_encodes [of u env d r] by simp

text \<open>
  C40: the name of an unregistered command is echoed in the error line unescaped: when the upper-cased name
  contains a line break, the client reads an error ending there and then the rest of the name as the start of a
  further reply.
\<close>

theorem unknown_name_splits_reply:
  assumes "well_formed r" and "req_name u r = p @ CRLF @ q" and "map_of commands (p @ CRLF @ q) = None"
    and "LF \<notin> set p"
  shows "Decode e (wire (snd (Dispatch u env d r))) =
    Ret (ErrorV (''ERR unknown command '' @ [CHR 0x27] @ p)) (q @ [CHR 0x27] @ CRLF)"
proof -
  have "snd (Dispatch u env d r) = unknownCommand (p @ CRLF @ q)"
    using assms(1-3) by (simp add: Dispatch_def well_formed_def req_name_def)
  then show ?thesis
    using Decode_Encode(1) [of "ErrorV (''ERR unknown command '' @ [CHR 0x27] @ p)" e "q @ [CHR 0x27] @ CRLF"] assms(4)
    by (simp add: unknownCommand_def errorValue_def)
qed

theorem unknown_name_splits_reply_witness:
  "(let u = \<lparr>upper_table = id, lower_table = id\<rparr>; r = ArrayV (Some [BulkString (Some (''x'' @ CRLF @ '':1'' @ CRLF))])
    in Decode EOF (wire (snd (Dispatch u (at_time 0) db_New r))) =
         Ret (ErrorV (''ERR unknown command '' @ [CHR 0x27] @ ''X'')) ('':1'' @ CRLF @ [CHR 0x27] @ CRLF) \<and>
       Decode EOF ('':1'' @ CRLF @ [CHR 0x27] @ CRLF) = Ret (IntegerV 1) ([CHR 0x27] @ CRLF))"
proof -
  let ?u = "\<lparr>upper_table = id, lower_table = id\<rparr>" and ?r = "ArrayV (Some [BulkString (Some (''x'' @ CRLF @ '':1'' @ CRLF))])"
  have "req_name ?u ?r = ''X'' @ CRLF @ '':1'' @ CRLF" by code_simp
  moreover have "well_formed ?r" by code_simp
  moreover have "map_of commands (''X'' @ CRLF @ '':1'' @ CRLF) = None" by (simp add: commands_def)
  ultimately have "Decode EOF (wire (snd (Dispatch ?u (at_time 0) db_New ?r))) =
      Ret (ErrorV (''ERR unknown command '' @ [CHR 0x27] @ ''X'')) ('':1'' @ CRLF @ [CHR 0x27] @ CRLF)"
    using unknown_name_splits_reply [of ?r ?u "''X''" "'':1'' @ CRLF" EOF "at_time 0" db_New] by simp
  moreover have "FormatInt 1 = ''1''" by code_simp
  then have "Decode EOF ('':1'' @ CRLF @ [CHR 0x27] @ CRLF) = Ret (IntegerV 1) ([CHR 0x27] @ CRLF)"
    using Decode_Encode(1) [of "IntegerV 1" EOF "[CHR 0x27] @ CRLF"] by (simp add: in_int64_def)
  ultimately show ?thesis by (simp add: Let_def)
qed

end
