(* ===== verification/Transcript.thy ===== *)
theory Transcript
  imports Sessions Replies
begin

text \<open>
  A client's view of the server, from the bytes it sends to the bytes it receives: \<open>handle\<close> of
  \<open>internal/server/connection.go\<close> with the decoder, \<open>serve\<close>, the write path and the dispatcher below it,
  against a specification that knows only the abstract keyspace.
\<close>

section \<open>Specification\<close>

text \<open>The requests that are executed; every other one is answered with an error.\<close>

definition accepted :: "unicode \<Rightarrow> resp \<Rightarrow> bool" where
  "accepted u r \<longleftrightarrow> well_formed r \<and>
     (req_name u r \<in> set writeCommands \<and> parse_write (req_name u r) (req_args r) \<noteq> None \<or>
      req_name u r \<in> set readCommands \<and> parse_read (req_name u r) (req_args r) \<noteq> None \<or>
      req_name u r = ''PING'' \<and> length (req_args r) \<le> 1 \<or>
      req_name u r = ''ECHO'' \<and> length (req_args r) = 1 \<or>
      req_name u r = ''PUBLISH'' \<and> length (req_args r) = 2)"

inductive spec_step :: "unicode \<Rightarrow> (nat \<Rightarrow> int) \<Rightarrow> resp \<Rightarrow> keyspace \<Rightarrow> keyspace \<Rightarrow> resp \<Rightarrow> bool" for u clk r K where
  spec_write: "req_name u r \<in> set writeCommands \<Longrightarrow> parse_write (req_name u r) (req_args r) = Some w \<Longrightarrow>
    exec clk w K = (K', reply) \<Longrightarrow> spec_step u clk r K K' reply"
| spec_read: "req_name u r \<in> set readCommands \<Longrightarrow> parse_read (req_name u r) (req_args r) = Some q \<Longrightarrow>
    answer clk q K reply \<Longrightarrow> K' \<subseteq>\<^sub>m K \<Longrightarrow> (\<And>t. clk 0 \<le> t \<Longrightarrow> live t K' = live t K) \<Longrightarrow> spec_step u clk r K K' reply"
| spec_ping: "req_name u r = ''PING'' \<Longrightarrow> req_args r = [] \<Longrightarrow> spec_step u clk r K K (SimpleString ''PONG'')"
| spec_echo: "req_name u r \<in> {''PING'', ''ECHO''} \<Longrightarrow> req_args r = [a] \<Longrightarrow> spec_step u clk r K K (BulkString (val_Bulk a))"
| spec_publish: "req_name u r = ''PUBLISH'' \<Longrightarrow> length (req_args r) = 2 \<Longrightarrow> spec_step u clk r K K (IntegerV (int n))"
| spec_refused: "\<not> accepted u r \<Longrightarrow> is_error reply \<Longrightarrow> spec_step u clk r K K reply"

text \<open>A sequence of requests with the replies to them; \<open>ws i\<close> is what request \<open>i\<close> reads of the outside world.\<close>

inductive transcript :: "unicode \<Rightarrow> (nat \<Rightarrow> world) \<Rightarrow> nat \<Rightarrow> keyspace \<Rightarrow> resp list \<Rightarrow> keyspace \<Rightarrow> resp list \<Rightarrow> bool"
  for u ws where
  no_request: "transcript u ws i K [] K []"
| next_request: "spec_step u (clock (w_env (ws i))) r K K1 reply \<Longrightarrow> transcript u ws (Suc i) K1 rs K' replies \<Longrightarrow>
    transcript u ws i K (r # rs) K' (reply # replies)"

section \<open>The dispatcher implements it\<close>

lemma accepted_write: "req_name u r \<in> set writeCommands \<Longrightarrow>
    accepted u r \<longleftrightarrow> well_formed r \<and> parse_write (req_name u r) (req_args r) \<noteq> None"
  by (auto simp: accepted_def writeCommands_def readCommands_def)

lemma accepted_read: "req_name u r \<in> set readCommands \<Longrightarrow>
    accepted u r \<longleftrightarrow> well_formed r \<and> parse_read (req_name u r) (req_args r) \<noteq> None"
  by (auto simp: accepted_def writeCommands_def readCommands_def)

lemma accepted_other:
  "req_name u r = ''PING'' \<Longrightarrow> accepted u r \<longleftrightarrow> well_formed r \<and> length (req_args r) \<le> 1"
  "req_name u r = ''ECHO'' \<Longrightarrow> accepted u r \<longleftrightarrow> well_formed r \<and> length (req_args r) = 1"
  "req_name u r = ''PUBLISH'' \<Longrightarrow> accepted u r \<longleftrightarrow> well_formed r \<and> length (req_args r) = 2"
  by (auto simp: accepted_def writeCommands_def readCommands_def)

lemma ping_spec:
  assumes "req_name u r = ''PING''"
  shows "spec_step u clk r K K (snd (cmd_Ping env d (req_args r)))"
proof -
  consider "req_args r = []" | a where "req_args r = [a]" | "1 < length (req_args r)"
    by (cases "req_args r"; cases "tl (req_args r)") auto
  then show ?thesis
  proof cases
    case 1
    with spec_ping [OF assms 1] show ?thesis by (simp add: cmd_Ping_def simpleStringValue_def)
  next
    case 2
    with assms spec_echo [OF _ 2] show ?thesis by (simp add: cmd_Ping_def bulkValue_def)
  next
    case 3
    with accepted_other(1) [OF assms] show ?thesis by (auto simp: cmd_Ping_def spec_refused split: list.split)
  qed
qed

lemma echo_spec:
  assumes "req_name u r = ''ECHO''"
  shows "spec_step u clk r K K (snd (cmd_Echo env d (req_args r)))"
proof (cases "length (req_args r) = 1")
  case True
  then obtain a where a: "req_args r = [a]" by (auto simp: length_Suc_conv)
  with assms spec_echo [OF _ a] show ?thesis by (simp add: cmd_Echo_def bulkValue_def)
next
  case False
  with accepted_other(2) [OF assms] show ?thesis by (simp add: cmd_Echo_def spec_refused)
qed

lemma publish_spec:
  assumes "req_name u r = ''PUBLISH''"
  shows "spec_step u clk r K K (snd (cmd_Publish env d (req_args r)))"
proof (cases "length (req_args r) = 2")
  case True
  then have "\<exists>n. snd (cmd_Publish env d (req_args r)) = IntegerV (int n)"
    by (simp add: cmd_Publish_def integerValue_def split: prod.split)
  with spec_publish [OF assms True] show ?thesis by metis
next
  case False
  with accepted_other(3) [OF assms] show ?thesis by (simp add: cmd_Publish_def spec_refused)
qed

lemma Dispatch_spec:
  assumes ok: "db_ok d"
  shows "spec_step u (clock env) r (keyspace d) (keyspace (fst (Dispatch u env d r))) (snd (Dispatch u env d r))"
proof (cases rule: Dispatch_cases [of r u])
  case (bad err)
  then have "\<not> accepted u r" by (auto simp: accepted_def writeCommands_def readCommands_def commands_def)
  then show ?thesis using bad(2) by (simp add: bad(3) spec_refused)
next
  case (run h)
  from run(2) show ?thesis
  proof (cases rule: command_classes)
    case writes
    from Dispatch_write [OF ok run(1) writes, of env] accepted_write [OF writes] spec_write [OF writes] show ?thesis
      by (cases "parse_write (req_name u r) (req_args r)") (simp_all add: spec_refused)
  next
    case reads
    from Dispatch_read [OF ok run(1) reads, of env] accepted_read [OF reads] spec_read [OF reads] show ?thesis
      by (cases "parse_read (req_name u r) (req_args r)") (simp_all add: spec_refused)
  qed (use publish_frame [OF ok] in \<open>simp_all add: run(3) ping_echo_frame ping_spec echo_spec publish_spec\<close>)
qed

section \<open>One request\<close>

text \<open>The commands \<open>serve\<close> passes on to \<open>apply\<close> outside of subscribe mode.\<close>

definition connectionCommands :: "string list" where
  "connectionCommands = [''SUBSCRIBE'', ''UNSUBSCRIBE'', ''REPLICAOF'', ''REPLCONF'', ''QUIT'']"

definition idle :: "conn \<Rightarrow> bool" where
  "idle cs \<longleftrightarrow> \<not> cs_broken cs \<and> cs_buf cs = [] \<and> cs_channels cs = [] \<and> cs_sub cs = None \<and> cs_replica cs = None"

lemma server_apply_primary [simp]: "sv_primaryAddr (fst (server_apply u w s r)) = sv_primaryAddr s"
  by (simp add: server_apply_def applyRecord_def record_write_def Let_def split: prod.splits option.splits)

lemma serve_data:
  assumes "idle cs" and "sv_primaryAddr s = []" and "net (cs_count cs) = None"
    and "ToUpper u (commandName r) \<notin> set connectionCommands"
  shows "serve u w net s cs r = (fst (server_apply u w s r),
    cs\<lparr>cs_out := cs_out cs @ wire (snd (Dispatch u (w_env w) (sv_db s) r)), cs_count := Suc (cs_count cs)\<rparr>, True)"
proof -
  obtain s' reply m where ap: "server_apply u w s r = (s', reply, m)" by (metis prod_cases3)
  have reply: "reply = snd (Dispatch u (w_env w) (sv_db s) r)" using server_apply_reply(1) [of u w s r] ap by simp
  then obtain bs where "Encode reply = (bs, True)"
    using Dispatch_encodes [of u "w_env w" "sv_db s" r] by (cases "Encode reply") auto
  with assms ap show ?thesis
    by (simp add: serve_def idle_def subscribed_def connectionCommands_def conn_write_def writeRaw_def flip: reply)
qed

section \<open>A session\<close>

lemma session_transcript:
  assumes "db_ok (sv_db s)" and "sv_primaryAddr s = []" and "idle cs"
    and "list_all wire_ok rs" and "\<forall>r \<in> set rs. ToUpper u (commandName r) \<notin> set connectionCommands"
    and "\<forall>k < length rs. net (cs_count cs + k) = None"
  shows "\<exists>s' cs' replies. idle cs' \<and> transcript u ws i (keyspace (sv_db s)) rs (keyspace (sv_db s')) replies \<and>
    cs_out cs' = cs_out cs @ concat (map wire replies) \<and> db_ok (sv_db s') \<and>
    (\<forall>rest. handle_loop u q ws net e (concat (map wire rs) @ rest) i s cs = handle_loop u q ws net e rest (i + length rs) s' cs')"
  using assms
proof (induction rs arbitrary: i s cs)
  case Nil
  then show ?case by (intro exI [of _ s] exI [of _ cs] exI [of _ "[]"]) (simp add: no_request)
next
  case (Cons r rs)
  let ?s = "fst (server_apply u (ws i) s r)" and ?reply = "snd (Dispatch u (w_env (ws i)) (sv_db s) r)"
  let ?cs = "cs\<lparr>cs_out := cs_out cs @ wire ?reply, cs_count := Suc (cs_count cs)\<rparr>"
  have "net (cs_count cs + 0) = None" using Cons.prems(6) by blast
  with Cons.prems have sv: "serve u (ws i) net s cs r = (?s, ?cs, True)" by (simp add: serve_data)
  have db: "sv_db ?s = fst (Dispatch u (w_env (ws i)) (sv_db s) r)" by (simp add: server_apply_reply)
  have net: "\<forall>k < length rs. net (cs_count ?cs + k) = None" using Cons.prems(6) by force
  have "idle ?cs" "db_ok (sv_db ?s)" using Cons.prems(1,3) by (simp_all add: idle_def db Dispatch_db_ok)
  from Cons.IH [OF this(2) _ this(1) _ _ net, of "Suc i"] Cons.prems(2,4,5) obtain s' cs' replies where IH: "idle cs'"
    "transcript u ws (Suc i) (keyspace (sv_db ?s)) rs (keyspace (sv_db s')) replies"
    "cs_out cs' = cs_out ?cs @ concat (map wire replies)" "db_ok (sv_db s')"
    "\<And>rest. handle_loop u q ws net e (concat (map wire rs) @ rest) (Suc i) ?s ?cs = handle_loop u q ws net e rest (Suc i + length rs) s' cs'"
    by auto
  have "Decode e (wire r @ x) = Ret r x" for x using Cons.prems(4) by (simp add: Decode_Encode(1))
  then have "handle_loop u q ws net e (concat (map wire (r # rs)) @ rest) i s cs =
      handle_loop u q ws net e rest (i + length (r # rs)) s' cs'" for rest
    using IH(5) [of rest] by (subst handle_loop.simps) (simp add: sv)
  moreover have "transcript u ws i (keyspace (sv_db s)) (r # rs) (keyspace (sv_db s')) (?reply # replies)"
    using next_request [OF Dispatch_spec [OF Cons.prems(1)]] IH(2) by (simp add: db)
  ultimately show ?case using IH(1,3,4)
    by (intro exI [of _ s'] exI [of _ cs'] exI [of _ "?reply # replies"]) simp
qed

inductive_cases transcript_ConsE: "transcript u ws i K (r # rs) K' replies"
inductive_cases transcript_NilE: "transcript u ws i K [] K' replies"

lemma spec_step_write:
  assumes "spec_step u clk r K K' reply" and "well_formed r" and "req_name u r \<in> set writeCommands"
    and "parse_write (req_name u r) (req_args r) = Some w"
  shows "(K', reply) = exec clk w K"
  using assms(1)
proof cases
  case spec_refused
  with assms accepted_write [OF assms(3)] show ?thesis by simp
qed (use assms in \<open>auto simp: writeCommands_def readCommands_def\<close>)

lemma spec_step_read:
  assumes "spec_step u clk r K K' reply" and "well_formed r" and "req_name u r \<in> set readCommands"
    and "parse_read (req_name u r) (req_args r) = Some q"
  shows "answer clk q K reply \<and> K' \<subseteq>\<^sub>m K \<and> (\<forall>t \<ge> clk 0. live t K' = live t K)"
  using assms(1)
proof cases
  case spec_refused
  with assms accepted_read [OF assms(3)] show ?thesis by simp
qed (use assms in \<open>auto simp: writeCommands_def readCommands_def\<close>)

text \<open>
  C6: What a client gets for what it sends. On a primary, let a client pipeline any number of requests, possibly cut
  off inside the last one, with no connection-level command among them and no failing write. Then the handler
  returns, and the bytes sent back are exactly the encodings of one reply per whole request, in order: for a write
  the reply and the keyspace of the abstract executor, for a read an answer about the keyspace at that
  point, for everything malformed or unknown an error without effect.
\<close>

theorem pipelined_session:
  assumes "db_ok (sv_db s)" and "sv_primaryAddr s = []"
    and "list_all wire_ok (rs @ [r])" and "fst (Encode r) = p @ p'" and "p' \<noteq> []"
    and "\<forall>r \<in> set rs. ToUpper u (commandName r) \<notin> set connectionCommands"
    and "\<forall>k < length rs. net k = None"
  shows "\<exists>s' cs replies.
    handle u q ws net EOF order remote (concat (map (\<lambda>r. fst (Encode r)) rs) @ p) s = Some (s', cs) \<and>
    transcript u ws 0 (keyspace (sv_db s)) rs (keyspace (sv_db s')) replies \<and>
    cs_out cs = concat (map (\<lambda>r. fst (Encode r)) replies) \<and> db_ok (sv_db s')"
proof -
  have "idle (new_conn remote)" by (simp add: idle_def new_conn_def)
  moreover have "\<forall>k < length rs. net (cs_count (new_conn remote) + k) = None" using assms(7) by (simp add: new_conn_def)
  ultimately obtain s' cs replies where run: "idle cs"
    "transcript u ws 0 (keyspace (sv_db s)) rs (keyspace (sv_db s')) replies" "db_ok (sv_db s')"
    "cs_out cs = cs_out (new_conn remote) @ concat (map (\<lambda>r. fst (Encode r)) replies)"
    "\<And>rest. handle_loop u q ws net EOF (concat (map wire rs) @ rest) 0 s (new_conn remote) =
       handle_loop u q ws net EOF rest (0 + length rs) s' cs"
    using session_transcript [OF assms(1,2), of "new_conn remote" rs u net ws 0 q EOF] assms(3,6) by auto
  have "Decode EOF p = Fail (if p = [] then EOF else UnexpectedEOF)"
    using resp_wire.torn [OF _ assms(4) _ assms(5)] assms(3) by (auto simp: resp_wire.at_end unexpectEOF_def)
  then have "handle_loop u q ws net EOF p (0 + length rs) s' cs = Some (s', cs)"
    by (subst handle_loop.simps) simp
  with run show ?thesis
    by (intro exI [of _ s'] exI [of _ cs] exI [of _ replies])
      (simp add: handle_def idle_def removeReplica_def unsubscribeAll_def new_conn_def)
qed

theorem pipelined_session_witness:
  "(let u = \<lparr>upper_table = id, lower_table = id\<rparr>; s = the (NewMulti empty_disk 1 []);
        w = \<lparr>w_env = at_time 0, w_os = all_well, w_order = []\<rparr>;
        q = \<lparr>quote_byte = (\<lambda>c. [c]), quote_string = id\<rparr>
    in \<exists>s' cs. handle u q (\<lambda>_. w) (\<lambda>_. None) EOF [] ''client''
           (concat (map (\<lambda>r. fst (Encode r)) [bulkCmd ''set'' [''k'', ''v''], bulkCmd ''get'' [''k'']]) @ ''*'') s = Some (s', cs) \<and>
         cs_out cs = fst (Encode okValue) @ fst (Encode (BulkString (Some ''v''))) \<and>
         keyspace (sv_db s') ''k'' = Some (RString ''v'', None))"
proof -
  let ?u = "\<lparr>upper_table = id, lower_table = id\<rparr>" and ?s = "the (NewMulti empty_disk 1 [])"
  let ?w = "\<lparr>w_env = at_time 0, w_os = all_well, w_order = []\<rparr>"
  let ?q = "\<lparr>quote_byte = (\<lambda>c. [c]), quote_string = id\<rparr>"
  let ?set = "bulkCmd ''set'' [''k'', ''v'']" and ?get = "bulkCmd ''get'' [''k'']"
  have n: "ToUpper ?u (commandName ?set) = ''SET''" "ToUpper ?u (commandName ?get) = ''GET''"
    "req_name ?u ?set = ''SET''" "req_name ?u ?get = ''GET''" by code_simp+
  have s: "db_ok (sv_db ?s)" "sv_primaryAddr ?s = []" "keyspace (sv_db ?s) = Map.empty"
    using db_ok_New by (simp_all add: NewMulti_def keyspace_New)
  have w: "list_all wire_ok ([?set, ?get] @ [?get])" by (simp add: bulkCmd_def maxAlloc_def)
  have c: "fst (Encode ?get) = ''*'' @ tl (fst (Encode ?get))" by (simp add: bulkCmd_def)
  have "tl (fst (Encode ?get)) \<noteq> []" by (simp add: bulkCmd_def)
  from pipelined_session [OF s(1,2) w c this, of ?u "\<lambda>_. None" ?q "\<lambda>_. ?w" "[]" "''client''"] n s(3)
  obtain s' cs replies where h: "handle ?u ?q (\<lambda>_. ?w) (\<lambda>_. None) EOF [] ''client''
      (concat (map (\<lambda>r. fst (Encode r)) [?set, ?get]) @ ''*'') ?s = Some (s', cs)"
    and t: "transcript ?u (\<lambda>_. ?w) 0 Map.empty [?set, ?get] (keyspace (sv_db s')) replies"
    and out: "cs_out cs = concat (map (\<lambda>r. fst (Encode r)) replies)"
    by (auto simp: connectionCommands_def)
  from t obtain K a b where st: "spec_step ?u (clock (at_time 0)) ?set Map.empty K a"
    "spec_step ?u (clock (at_time 0)) ?get K (keyspace (sv_db s')) b" "replies = [a, b]"
    by (elim transcript_ConsE transcript_NilE) auto
  have "parse_write ''SET'' (req_args ?set) = Some (WSet ''k'' ''v'')" "parse_read ''GET'' (req_args ?get) = Some (RGet ''k'')"
    by (simp_all add: bulkCmd_def req_args_def val_defs parse_write_def parse_read_def)
  then have "(K, a) = ([''k'' \<mapsto> (RString ''v'', None)], okValue)"
    using spec_step_write [OF st(1)] n by (simp add: writeCommands_def well_formed_def bulkCmd_def val_defs)
  moreover from this \<open>parse_read ''GET'' (req_args ?get) = Some (RGet ''k'')\<close>
  have "answer (clock (at_time 0)) (RGet ''k'') K b \<and> live 0 (keyspace (sv_db s')) = live 0 K"
    using spec_step_read [OF st(2)] n by (simp add: readCommands_def well_formed_def bulkCmd_def val_defs)
  ultimately have b: "b = BulkString (Some ''v'')" and l: "live 0 (keyspace (sv_db s')) ''k'' = Some (RString ''v'', None)"
    and "a = okValue"
    by (simp_all add: spec_get_def reply_is_def live_def dead_def)
  moreover from l have "keyspace (sv_db s') ''k'' = Some (RString ''v'', None)"
    by (simp add: live_def split: option.splits if_splits)
  ultimately show ?thesis using h out st(3) by (auto simp: Let_def)
qed

end
