(* ===== verification/Slices.thy ===== *)
theory Slices
  imports Command_Spec
begin

text \<open>
  Why bytes may be values in the rest of the development. The store of \<open>internal/db/db.go\<close> keeps Go
  slices: headers into backing arrays that several headers may share. It copies what it is given
  (\<open>cloneBytes\<close>), but hands out headers into its own arrays, which are read after the shard lock has been
  released, and it grows and shrinks lists in place. Here the arrays are explicit, for strings and lists,
  and the operations are proved to behave as the value-level ones whatever callers do to their own buffers,
  and the slices handed out to keep their bytes.
\<close>

section \<open>Memory\<close>

record slice =
  sl_arr :: nat
  sl_off :: nat
  sl_len :: nat

text \<open>Byte arrays and arrays of slices, by allocation number; array 0 is never allocated, its slice is nil.\<close>

record mem =
  m_bytes :: "nat \<Rightarrow> string"
  m_cells :: "nat \<Rightarrow> slice list"
  m_next :: nat

definition nil_slice :: slice where
  "nil_slice = \<lparr>sl_arr = 0, sl_off = 0, sl_len = 0\<rparr>"

definition bytes_of :: "mem \<Rightarrow> slice \<Rightarrow> string" where
  "bytes_of m s = take (sl_len s) (drop (sl_off s) (m_bytes m (sl_arr s)))"

definition cells_of :: "mem \<Rightarrow> slice \<Rightarrow> slice list" where
  "cells_of m s = take (sl_len s) (drop (sl_off s) (m_cells m (sl_arr s)))"

definition strings_of :: "mem \<Rightarrow> slice \<Rightarrow> string list" where
  "strings_of m s = map (bytes_of m) (cells_of m s)"

text \<open>\<open>make([]byte, len(b))\<close> and \<open>copy\<close>.\<close>

definition cloneBytes :: "mem \<Rightarrow> slice \<Rightarrow> mem \<times> slice" where
  "cloneBytes m b =
     (m\<lparr>m_bytes := (m_bytes m)(m_next m := bytes_of m b), m_next := Suc (m_next m)\<rparr>,
      \<lparr>sl_arr = m_next m, sl_off = 0, sl_len = length (bytes_of m b)\<rparr>)"

text \<open>\<open>make([][]byte, n, c)\<close>.\<close>

definition make_cells :: "mem \<Rightarrow> nat \<Rightarrow> nat \<Rightarrow> mem \<times> slice" where
  "make_cells m n c =
     (m\<lparr>m_cells := (m_cells m)(m_next m := replicate (max n c) nil_slice), m_next := Suc (m_next m)\<rparr>,
      \<lparr>sl_arr = m_next m, sl_off = 0, sl_len = n\<rparr>)"

text \<open>
  \<open>append\<close> writes behind the slice when its array has room there and otherwise moves to a new array, whose
  spare room \<open>grow\<close> is the runtime's choice.
\<close>

definition append_cells :: "(nat \<Rightarrow> nat) \<Rightarrow> mem \<Rightarrow> slice \<Rightarrow> slice list \<Rightarrow> mem \<times> slice" where
  "append_cells grow m s xs =
     (let cs = m_cells m (sl_arr s); top = sl_off s + sl_len s
      in if top + length xs \<le> length cs
         then (m\<lparr>m_cells := (m_cells m)(sl_arr s := take top cs @ xs @ drop (top + length xs) cs)\<rparr>,
               s\<lparr>sl_len := sl_len s + length xs\<rparr>)
         else (m\<lparr>m_cells := (m_cells m)(m_next m := cells_of m s @ xs @ replicate (grow (m_next m)) nil_slice),
                 m_next := Suc (m_next m)\<rparr>,
               \<lparr>sl_arr = m_next m, sl_off = 0, sl_len = sl_len s + length xs\<rparr>))"

section \<open>List operations\<close>

text \<open>The loops of \<open>RPush\<close> and \<open>LPush\<close>: append a copy of each value.\<close>

fun push_clones :: "(nat \<Rightarrow> nat) \<Rightarrow> mem \<Rightarrow> slice \<Rightarrow> slice list \<Rightarrow> mem \<times> slice" where
  "push_clones grow m s [] = (m, s)"
| "push_clones grow m s (v # vs) =
     (let (m1, c) = cloneBytes m v; (m2, s2) = append_cells grow m1 s [c] in push_clones grow m2 s2 vs)"

definition slice_RPush :: "(nat \<Rightarrow> nat) \<Rightarrow> mem \<Rightarrow> slice \<Rightarrow> slice list \<Rightarrow> mem \<times> slice" where
  "slice_RPush grow m list values = push_clones grow m list values"

definition slice_LPush :: "(nat \<Rightarrow> nat) \<Rightarrow> mem \<Rightarrow> slice \<Rightarrow> slice list \<Rightarrow> mem \<times> slice" where
  "slice_LPush grow m list values =
     (let (m1, prefix) = make_cells m 0 (length values);
          (m2, prefix2) = push_clones grow m1 prefix (rev values)
      in append_cells grow m2 prefix2 (cells_of m2 list))"

definition slice_LPop :: "mem \<Rightarrow> slice \<Rightarrow> slice \<times> slice" where
  "slice_LPop m list = (hd (cells_of m list), list\<lparr>sl_off := Suc (sl_off list), sl_len := sl_len list - 1\<rparr>)"

definition slice_RPop :: "mem \<Rightarrow> slice \<Rightarrow> slice \<times> slice" where
  "slice_RPop m list = (cells_of m list ! (sl_len list - 1), list\<lparr>sl_len := sl_len list - 1\<rparr>)"

fun append_each :: "(nat \<Rightarrow> nat) \<Rightarrow> mem \<Rightarrow> slice \<Rightarrow> slice list \<Rightarrow> mem \<times> slice" where
  "append_each grow m s [] = (m, s)"
| "append_each grow m s (x # xs) = (let (m1, s1) = append_cells grow m s [x] in append_each grow m1 s1 xs)"

definition slice_LRange :: "(nat \<Rightarrow> nat) \<Rightarrow> mem \<Rightarrow> slice \<Rightarrow> int \<Rightarrow> int \<Rightarrow> mem \<times> slice" where
  "slice_LRange grow m list start stop =
     (case normalizeRange start stop (int (sl_len list)) of
        None \<Rightarrow> make_cells m 0 0
      | Some (lo, hi) \<Rightarrow>
          (let (m1, out) = make_cells m 0 (nat (hi - lo + 1))
           in append_each grow m1 out (map (\<lambda>i. cells_of m1 list ! nat i) [lo..hi])))"

text \<open>\<open>cloneByteSlices\<close> of \<open>internal/db/snapshot.go\<close>: the result's cells are set one by one.\<close>

fun clone_into :: "mem \<Rightarrow> slice \<Rightarrow> nat \<Rightarrow> slice list \<Rightarrow> mem" where
  "clone_into m out i [] = m"
| "clone_into m out i (b # bs) =
     (let (m1, c) = cloneBytes m b
      in clone_into (m1\<lparr>m_cells := (m_cells m1)(sl_arr out := (m_cells m1 (sl_arr out))[sl_off out + i := c])\<rparr>)
           out (Suc i) bs)"

definition cloneByteSlices :: "mem \<Rightarrow> slice \<Rightarrow> mem \<times> slice" where
  "cloneByteSlices m inp =
     (let (m1, out) = make_cells m (sl_len inp) (sl_len inp) in (clone_into m1 out 0 (cells_of m1 inp), out))"

section \<open>The store over slices\<close>

text \<open>
  The string and list entries of the store (without deadlines, which do not touch bytes) and the arrays its
  callers allocated: the decoder's buffers above all.
\<close>

datatype sentry = SStr slice | SList slice

record sstore =
  ss_mem :: mem
  ss_data :: "string \<rightharpoonup> sentry"
  ss_own :: "nat set"

definition ss_New :: sstore where
  "ss_New = \<lparr>ss_mem = \<lparr>m_bytes = (\<lambda>_. []), m_cells = (\<lambda>_. []), m_next = 1\<rparr>, ss_data = Map.empty, ss_own = {}\<rparr>"

text \<open>What an operation hands back: slices, not bytes.\<close>

datatype slice_reply = SOk | SErr db_error | SCount nat | SBulk "slice option" | SArray "slice list"

definition ss_Set :: "sstore \<Rightarrow> string \<Rightarrow> slice \<Rightarrow> sstore \<times> slice_reply" where
  "ss_Set st key value =
     (let (m, stored) = cloneBytes (ss_mem st) value
      in (st\<lparr>ss_mem := m, ss_data := (ss_data st)(key \<mapsto> SStr stored)\<rparr>, SOk))"

definition ss_Get :: "sstore \<Rightarrow> string \<Rightarrow> slice_reply" where
  "ss_Get st key =
     (case ss_data st key of
        None \<Rightarrow> SBulk None
      | Some (SList _) \<Rightarrow> SErr ErrWrongType
      | Some (SStr s) \<Rightarrow> SBulk (Some s))"

text \<open>The header of the list under a key, nil for a new one, or the error of \<open>listEntry\<close>.\<close>

definition list_header :: "sstore \<Rightarrow> string \<Rightarrow> slice option" where
  "list_header st key =
     (case ss_data st key of None \<Rightarrow> Some nil_slice | Some (SList s) \<Rightarrow> Some s | Some (SStr _) \<Rightarrow> None)"

definition ss_Push :: "(nat \<Rightarrow> nat) \<Rightarrow> bool \<Rightarrow> sstore \<Rightarrow> string \<Rightarrow> slice list \<Rightarrow> sstore \<times> slice_reply" where
  "ss_Push grow front st key values =
     (case list_header st key of
        None \<Rightarrow> (st, SErr ErrWrongType)
      | Some s \<Rightarrow>
          (let (m, s') = (if front then slice_LPush else slice_RPush) grow (ss_mem st) s values
           in (st\<lparr>ss_mem := m, ss_data := (ss_data st)(key \<mapsto> SList s')\<rparr>, SCount (sl_len s'))))"

definition ss_Pop :: "bool \<Rightarrow> sstore \<Rightarrow> string \<Rightarrow> sstore \<times> slice_reply" where
  "ss_Pop front st key =
     (case list_header st key of
        None \<Rightarrow> (st, SErr ErrWrongType)
      | Some s \<Rightarrow>
          if sl_len s = 0 then (st, SBulk None)
          else let (v, s') = (if front then slice_LPop else slice_RPop) (ss_mem st) s
               in (st\<lparr>ss_data := (ss_data st)(key := if sl_len s' = 0 then None else Some (SList s'))\<rparr>, SBulk (Some v)))"

definition ss_LRange :: "(nat \<Rightarrow> nat) \<Rightarrow> sstore \<Rightarrow> string \<Rightarrow> int \<Rightarrow> int \<Rightarrow> sstore \<times> slice_reply" where
  "ss_LRange grow st key start stop =
     (case list_header st key of
        None \<Rightarrow> (st, SErr ErrWrongType)
      | Some s \<Rightarrow>
          (let (m, out) = slice_LRange grow (ss_mem st) s start stop in (st\<lparr>ss_mem := m\<rparr>, SArray (cells_of m out))))"

text \<open>The copy \<open>Snapshot\<close> takes of one entry.\<close>

definition ss_Snapshot :: "sstore \<Rightarrow> string \<Rightarrow> sstore \<times> slice_reply" where
  "ss_Snapshot st key =
     (case ss_data st key of
        None \<Rightarrow> (st, SArray [])
      | Some (SStr s) \<Rightarrow> (let (m, c) = cloneBytes (ss_mem st) s in (st\<lparr>ss_mem := m\<rparr>, SArray [c]))
      | Some (SList s) \<Rightarrow> (let (m, out) = cloneByteSlices (ss_mem st) s in (st\<lparr>ss_mem := m\<rparr>, SArray (cells_of m out))))"

section \<open>Runs\<close>

text \<open>
  Calls of the store, and what callers do with memory of their own: allocating a buffer and overwriting one.
\<close>

datatype slice_event =
    CallSet string slice
  | CallGet string
  | CallPush bool string "slice list"
  | CallPop bool string
  | CallLRange string int int
  | CallSnapshot string
  | BufAlloc string
  | BufWrite nat string

definition slice_step :: "(nat \<Rightarrow> nat) \<Rightarrow> slice_event \<Rightarrow> sstore \<Rightarrow> sstore \<times> slice_reply" where
  "slice_step grow ev st =
     (case ev of
        CallSet key value \<Rightarrow> ss_Set st key value
      | CallGet key \<Rightarrow> (st, ss_Get st key)
      | CallPush front key values \<Rightarrow> ss_Push grow front st key values
      | CallPop front key \<Rightarrow> ss_Pop front st key
      | CallLRange key start stop \<Rightarrow> ss_LRange grow st key start stop
      | CallSnapshot key \<Rightarrow> ss_Snapshot st key
      | BufAlloc bs \<Rightarrow>
          (let m = ss_mem st
           in (st\<lparr>ss_mem := m\<lparr>m_bytes := (m_bytes m)(m_next m := bs), m_next := Suc (m_next m)\<rparr>,
                  ss_own := insert (m_next m) (ss_own st)\<rparr>, SOk))
      | BufWrite a bs \<Rightarrow> (st\<lparr>ss_mem := (ss_mem st)\<lparr>m_bytes := (m_bytes (ss_mem st))(a := bs)\<rparr>\<rparr>, SOk))"

text \<open>Arguments are slices of allocated arrays; callers write only to their own buffers.\<close>

definition legal :: "slice_event \<Rightarrow> sstore \<Rightarrow> bool" where
  "legal ev st =
     (case ev of
        CallSet key value \<Rightarrow> sl_arr value < m_next (ss_mem st)
      | CallPush front key values \<Rightarrow> values \<noteq> [] \<and> (\<forall>v \<in> set values. sl_arr v < m_next (ss_mem st))
      | BufWrite a bs \<Rightarrow> a \<in> ss_own st
      | _ \<Rightarrow> True)"

section \<open>Memory facts\<close>

definition in_bounds :: "mem \<Rightarrow> slice \<Rightarrow> bool" where
  "in_bounds m s \<longleftrightarrow> sl_arr s < m_next m \<and> sl_off s + sl_len s \<le> length (m_cells m (sl_arr s))"

text \<open>What a step of the store leaves alone: all byte arrays, and all cell arrays but \<open>A\<close>.\<close>

definition mem_frame :: "nat set \<Rightarrow> mem \<Rightarrow> mem \<Rightarrow> bool" where
  "mem_frame A m m' \<longleftrightarrow> m_next m \<le> m_next m' \<and>
     (\<forall>a < m_next m. m_bytes m' a = m_bytes m a \<and> (a \<notin> A \<longrightarrow> m_cells m' a = m_cells m a))"

lemma mem_frame_refl [simp]: "mem_frame A m m"
  by (simp add: mem_frame_def)

lemma mem_frame_trans:
  "mem_frame A m m1 \<Longrightarrow> mem_frame B m1 m2 \<Longrightarrow> B \<subseteq> A \<union> {m_next m..} \<Longrightarrow> mem_frame A m m2"
  unfolding mem_frame_def
proof (intro conjI allI impI; elim conjE)
  fix a assume "m_next m \<le> m_next m1" "m_next m1 \<le> m_next m2" "a < m_next m" "B \<subseteq> A \<union> {m_next m..}"
    and 1: "\<forall>a < m_next m. m_bytes m1 a = m_bytes m a \<and> (a \<notin> A \<longrightarrow> m_cells m1 a = m_cells m a)"
    and 2: "\<forall>a < m_next m1. m_bytes m2 a = m_bytes m1 a \<and> (a \<notin> B \<longrightarrow> m_cells m2 a = m_cells m1 a)"
  then have "a < m_next m1" "a \<notin> A \<Longrightarrow> a \<notin> B" by auto
  with 1 2 \<open>a < m_next m\<close> show "m_bytes m2 a = m_bytes m a" "a \<notin> A \<Longrightarrow> m_cells m2 a = m_cells m a" by auto
qed auto

lemma frame_bytes: "mem_frame A m m' \<Longrightarrow> sl_arr c < m_next m \<Longrightarrow> bytes_of m' c = bytes_of m c"
  by (simp add: mem_frame_def bytes_of_def)

lemma frame_cells: "mem_frame A m m' \<Longrightarrow> sl_arr s < m_next m \<Longrightarrow> sl_arr s \<notin> A \<Longrightarrow> cells_of m' s = cells_of m s"
  by (simp add: mem_frame_def cells_of_def)

lemma length_cells_of: "in_bounds m s \<Longrightarrow> length (cells_of m s) = sl_len s"
  by (auto simp: in_bounds_def cells_of_def)

lemma cloneBytes_spec:
  assumes "cloneBytes m b = (m', c)"
  shows "mem_frame A m m'" and "bytes_of m' c = bytes_of m b" and "sl_arr c = m_next m" and "m_next m' = Suc (m_next m)"
    and "m_cells m' = m_cells m"
proof -
  have m': "m' = m\<lparr>m_bytes := (m_bytes m)(m_next m := bytes_of m b), m_next := Suc (m_next m)\<rparr>"
    and c: "c = \<lparr>sl_arr = m_next m, sl_off = 0, sl_len = length (bytes_of m b)\<rparr>"
    using assms by (auto simp: cloneBytes_def)
  show "bytes_of m' c = bytes_of m b" unfolding bytes_of_def [of m'] by (simp add: m' c)
qed (use assms in \<open>auto simp: cloneBytes_def mem_frame_def\<close>)

lemma make_cells_spec:
  assumes "make_cells m n c = (m', s)"
  shows "mem_frame A m m'" and "in_bounds m' s" and "sl_arr s = m_next m" and "sl_len s = n" and "m_bytes m' = m_bytes m"
    and "m_next m' = Suc (m_next m)"
  using assms by (auto simp: make_cells_def mem_frame_def in_bounds_def)

lemma append_cells_spec:
  assumes "append_cells grow m s xs = (m', s')" and "in_bounds m s"
  shows "mem_frame {sl_arr s} m m'" and "in_bounds m' s'" and "cells_of m' s' = cells_of m s @ xs"
    and "sl_arr s' = sl_arr s \<or> sl_arr s' = m_next m"
    and "m_cells m 0 = [] \<Longrightarrow> 0 < m_next m \<Longrightarrow> m_cells m' 0 = []"
  using assms
  by (auto simp: append_cells_def in_bounds_def mem_frame_def cells_of_def Let_def drop_take split: if_splits)

definition mem_ok :: "mem \<Rightarrow> bool" where
  "mem_ok m \<longleftrightarrow> 0 < m_next m \<and> m_cells m 0 = []"

lemma mem_ok_frame: "mem_ok m \<Longrightarrow> mem_frame A m m' \<Longrightarrow> 0 \<notin> A \<Longrightarrow> mem_ok m'"
  by (auto simp: mem_ok_def mem_frame_def)

lemma mem_ok_append: "mem_ok m \<Longrightarrow> append_cells grow m s xs = (m', s') \<Longrightarrow> in_bounds m s \<Longrightarrow> mem_ok m'"
  using append_cells_spec(1,5) [of grow m s xs m' s'] by (auto simp: mem_ok_def mem_frame_def)

lemma in_bounds_frame: "in_bounds m s \<Longrightarrow> mem_frame A m m' \<Longrightarrow> sl_arr s \<notin> A \<Longrightarrow> in_bounds m' s"
  by (auto simp: in_bounds_def mem_frame_def)

text \<open>
  What every list operation that extends \<open>s\<close> to \<open>s'\<close> guarantees: it writes at most the array of \<open>s\<close>, and
  the new slice is in that array or in a new one.
\<close>

definition extends :: "mem \<Rightarrow> slice \<Rightarrow> mem \<Rightarrow> slice \<Rightarrow> bool" where
  "extends m s m' s' \<longleftrightarrow> mem_frame {sl_arr s} m m' \<and> in_bounds m' s' \<and> mem_ok m' \<and>
     (sl_arr s' = sl_arr s \<or> m_next m \<le> sl_arr s')"

text \<open>Slices of new arrays that hold copies of the bytes of \<open>vs\<close>.\<close>

definition copies :: "mem \<Rightarrow> slice list \<Rightarrow> mem \<Rightarrow> slice list \<Rightarrow> bool" where
  "copies m vs m' cs \<longleftrightarrow> map (bytes_of m') cs = map (bytes_of m) vs \<and>
     (\<forall>c \<in> set cs. m_next m \<le> sl_arr c \<and> sl_arr c < m_next m')"

lemma extends_trans: "extends m s m1 s1 \<Longrightarrow> extends m1 s1 m2 s2 \<Longrightarrow> extends m s m2 s2"
  unfolding extends_def using mem_frame_trans [of "{sl_arr s}" m m1 "{sl_arr s1}" m2]
  by (auto simp: mem_frame_def)

lemma copies_frame:
  assumes "copies m1 vs m2 cs" and "mem_frame A m2 m'" and "m_next m \<le> m_next m1" and "\<And>v. v \<in> set vs \<Longrightarrow> bytes_of m1 v = bytes_of m v"
  shows "copies m vs m' cs"
proof -
  have "bytes_of m' c = bytes_of m2 c" if "c \<in> set cs" for c
    using that assms(1) frame_bytes [OF assms(2)] by (simp add: copies_def)
  then have "map (bytes_of m') cs = map (bytes_of m2) cs" by simp
  moreover have "map (bytes_of m1) vs = map (bytes_of m) vs" using assms(4) by simp
  moreover have "map (bytes_of m2) cs = map (bytes_of m1) vs" using assms(1) unfolding copies_def by blast
  ultimately have "map (bytes_of m') cs = map (bytes_of m) vs" by (simp only:)
  moreover have "m_next m \<le> sl_arr c \<and> sl_arr c < m_next m'" if "c \<in> set cs" for c
    using that assms(1-3) unfolding copies_def mem_frame_def by fastforce
  ultimately show ?thesis unfolding copies_def by blast
qed

lemma push_clones_spec:
  assumes "push_clones grow m s vs = (m', s')" and "in_bounds m s" and "mem_ok m" and "\<forall>v \<in> set vs. sl_arr v < m_next m"
  shows "extends m s m' s' \<and> (\<exists>cs. cells_of m' s' = cells_of m s @ cs \<and> copies m vs m' cs)"
  using assms
proof (induction grow m s vs rule: push_clones.induct)
  case (1 grow m s)
  then show ?case by (simp add: extends_def copies_def)
next
  case (2 grow m s v vs)
  obtain m1 c m2 s2 where c: "cloneBytes m v = (m1, c)" and a: "append_cells grow m1 s [c] = (m2, s2)" by fastforce
  note cl = cloneBytes_spec [OF c]
  have b1: "in_bounds m1 s" using "2.prems"(2) in_bounds_frame [OF _ cl(1) [of "{}"]] by simp
  note ap = append_cells_spec [OF a b1]
  have ok2: "mem_ok m2" by (rule mem_ok_append [OF _ a b1]) (rule mem_ok_frame [OF "2.prems"(3) cl(1) [of "{}"]], simp)
  have fr: "mem_frame {sl_arr s} m m2" by (rule mem_frame_trans [OF cl(1) ap(1)]) simp
  then have ex: "extends m s m2 s2" using ok2 ap(2,4) cl(4) by (auto simp: extends_def)
  have "push_clones grow m2 s2 vs = (m', s')" using "2.prems"(1) c a by simp
  moreover have "\<forall>v \<in> set vs. sl_arr v < m_next m2" using "2.prems"(4) fr by (auto simp: mem_frame_def)
  ultimately obtain cs where IH: "extends m2 s2 m' s'" "cells_of m' s' = cells_of m2 s2 @ cs" "copies m2 vs m' cs"
    using "2.IH" [OF c [symmetric] refl a [symmetric] refl] ap(2) ok2 by metis
  have nx: "m_next m1 \<le> m_next m2" "m_next m2 \<le> m_next m'" using ap(1) IH(1) by (auto simp: extends_def mem_frame_def)
  have "bytes_of m' c = bytes_of m v"
    using frame_bytes [OF _ , of _ m2 m' c] IH(1) frame_bytes [OF ap(1), of c] cl(2-4) nx by (auto simp: extends_def)
  moreover have "bytes_of m2 w = bytes_of m w" if "w \<in> set vs" for w using frame_bytes [OF fr] "2.prems"(4) that by simp
  ultimately have "copies m (v # vs) m' (c # cs)" using IH(3) cl(3,4) nx by (fastforce simp: copies_def)
  moreover have "cells_of m1 s = cells_of m s" using "2.prems"(2) frame_cells [OF cl(1) [of "{}"]] by (simp add: in_bounds_def)
  ultimately show ?case using extends_trans [OF ex IH(1)] IH(2) ap(3) by auto
qed

lemma slice_LPush_spec:
  assumes "slice_LPush grow m list values = (m', s')" and "in_bounds m list" and "mem_ok m"
    and "\<forall>v \<in> set values. sl_arr v < m_next m"
  shows "extends m list m' s' \<and> (\<exists>cs. cells_of m' s' = cs @ cells_of m list \<and> copies m (rev values) m' cs)"
proof -
  obtain m1 p1 m2 p2 where mk: "make_cells m 0 (length values) = (m1, p1)" and pc: "push_clones grow m1 p1 (rev values) = (m2, p2)"
    by fastforce
  note k = make_cells_spec [OF mk]
  have ok1: "mem_ok m1" by (rule mem_ok_frame [OF assms(3) k(1) [of "{}"]]) simp
  have v1: "\<forall>v \<in> set (rev values). sl_arr v < m_next m1" using assms(4) k(6) by auto
  from push_clones_spec [OF pc k(2) ok1 v1] obtain cs where
    ex: "extends m1 p1 m2 p2" and cs: "cells_of m2 p2 = cells_of m1 p1 @ cs" "copies m1 (rev values) m2 cs" by blast
  have ap: "append_cells grow m2 p2 (cells_of m2 list) = (m', s')" using assms(1) mk pc by (simp add: slice_LPush_def)
  have p2: "in_bounds m2 p2" "mem_ok m2" "m_next m \<le> sl_arr p2" using ex k(3,6) by (auto simp: extends_def)
  note a = append_cells_spec [OF ap p2(1)]
  have l: "sl_arr list < m_next m" using assms(2) by (simp add: in_bounds_def)
  have fr2: "mem_frame {} m m2" using mem_frame_trans [OF k(1) [of "{}"], of "{sl_arr p1}" m2] ex k(3) by (simp add: extends_def)
  have fr: "mem_frame {} m m'" using mem_frame_trans [OF fr2 a(1)] p2(3) by simp
  have nx: "m_next m1 \<le> m_next m2" "m_next m2 \<le> m_next m'" "m_next m \<le> m_next m2" using ex a(1) fr2 by (auto simp: extends_def mem_frame_def)
  have "mem_frame {sl_arr list} m m'" using fr by (auto simp: mem_frame_def)
  then have "extends m list m' s'"
    using a(2,4) mem_ok_append [OF p2(2) ap p2(1)] p2(3) nx by (auto simp: extends_def)
  moreover have "cells_of m2 list = cells_of m list" using frame_cells [OF fr2 l] by simp
  moreover have "cells_of m1 p1 = []" using k(4) by (simp add: cells_of_def)
  moreover have "bytes_of m1 v = bytes_of m v" for v using k(5) by (simp add: bytes_of_def)
  then have "copies m (rev values) m' cs" by (intro copies_frame [OF cs(2) a(1)]) (simp_all add: k(6))
  ultimately show ?thesis using a(3) cs(1) by auto
qed

lemma append_each_spec:
  assumes "append_each grow m s xs = (m', s')" and "in_bounds m s" and "mem_ok m"
  shows "extends m s m' s' \<and> cells_of m' s' = cells_of m s @ xs"
  using assms
proof (induction grow m s xs rule: append_each.induct)
  case (2 grow m s x xs)
  obtain m1 s1 where a: "append_cells grow m s [x] = (m1, s1)" by fastforce
  note ap = append_cells_spec [OF a "2.prems"(2)]
  have ok: "mem_ok m1" by (rule mem_ok_append [OF "2.prems"(3) a "2.prems"(2)])
  with ap have "extends m s m1 s1" by (auto simp: extends_def)
  with "2.IH" [OF a [symmetric] refl _ ap(2) ok] "2.prems"(1) a ap(3) show ?case by (auto intro: extends_trans)
qed (simp add: extends_def)

definition selected :: "int \<Rightarrow> int \<Rightarrow> 'a list \<Rightarrow> 'a list" where
  "selected start stop l = (case normalizeRange start stop (int (length l)) of
     None \<Rightarrow> [] | Some (lo, hi) \<Rightarrow> map (\<lambda>i. l ! nat i) [lo..hi])"

lemma selected_map: "selected start stop (map f l) = map f (selected start stop l)"
proof (cases "normalizeRange start stop (int (length l))")
  case (Some b)
  then obtain lo hi where "normalizeRange start stop (int (length l)) = Some (lo, hi)" by (cases b) simp
  moreover from this have "0 \<le> lo" "hi < int (length l)"
    by (auto simp: normalizeRange_def Let_def split: if_splits)
  ultimately show ?thesis by (auto simp: selected_def nat_less_iff)
qed (simp add: selected_def)

lemma selected_lrange: "selected start stop l = lrange start stop l"
  unfolding selected_def by (rule normalizeRange_select)

lemma slice_LRange_spec:
  assumes "slice_LRange grow m list start stop = (m', out)" and "in_bounds m list" and "mem_ok m"
  shows "mem_frame {} m m' \<and> mem_ok m' \<and> cells_of m' out = selected start stop (cells_of m list)"
proof (cases "normalizeRange start stop (int (sl_len list))")
  case None
  with assms(1) have mk: "make_cells m 0 0 = (m', out)" by (simp add: slice_LRange_def)
  note k = make_cells_spec [OF mk]
  with None mem_ok_frame [OF assms(3) k(1) [of "{}"]] length_cells_of [OF assms(2)] show ?thesis
    by (simp add: selected_def cells_of_def)
next
  case (Some b)
  then obtain lo hi where n: "normalizeRange start stop (int (sl_len list)) = Some (lo, hi)" by (cases b) simp
  obtain m1 o1 where mk: "make_cells m 0 (nat (hi - lo + 1)) = (m1, o1)" by fastforce
  note k = make_cells_spec [OF mk]
  have ok1: "mem_ok m1" by (rule mem_ok_frame [OF assms(3) k(1) [of "{}"]]) simp
  have ae: "append_each grow m1 o1 (map (\<lambda>i. cells_of m1 list ! nat i) [lo..hi]) = (m', out)"
    using assms(1) n mk by (simp add: slice_LRange_def)
  from append_each_spec [OF ae k(2) ok1] have ex: "extends m1 o1 m' out"
    and c: "cells_of m' out = cells_of m1 o1 @ map (\<lambda>i. cells_of m1 list ! nat i) [lo..hi]" by blast+
  have "mem_frame {} m m'" using mem_frame_trans [OF k(1) [of "{}"], of "{sl_arr o1}" m'] ex k(3) by (simp add: extends_def)
  moreover have "cells_of m1 o1 = []" using k(4) by (simp add: cells_of_def)
  moreover have "cells_of m1 list = cells_of m list"
    using frame_cells [OF k(1) [of "{}"], of list] assms(2) by (simp add: in_bounds_def)
  ultimately show ?thesis using ex c n length_cells_of [OF assms(2)] by (simp add: extends_def selected_def)
qed

lemma clone_into_spec:
  assumes "in_bounds m out" and "mem_ok m" and "i + length bs \<le> sl_len out" and "\<forall>b \<in> set bs. sl_arr b < m_next m"
    and "sl_arr out \<noteq> 0"
  shows "\<exists>cs. mem_frame {sl_arr out} m (clone_into m out i bs) \<and> mem_ok (clone_into m out i bs) \<and>
    cells_of (clone_into m out i bs) out = take i (cells_of m out) @ cs @ drop (i + length bs) (cells_of m out) \<and>
    copies m bs (clone_into m out i bs) cs"
  using assms
proof (induction bs arbitrary: m i)
  case Nil
  then show ?case by (simp add: copies_def)
next
  case (Cons b bs)
  obtain m1 c where c: "cloneBytes m b = (m1, c)" by fastforce
  note cl = cloneBytes_spec [OF c]
  let ?m2 = "m1\<lparr>m_cells := (m_cells m1)(sl_arr out := (m_cells m1 (sl_arr out))[sl_off out + i := c])\<rparr>"
  have fr: "mem_frame {sl_arr out} m ?m2" using cl(1) [of "{}"] by (simp add: mem_frame_def)
  have out: "cells_of ?m2 out = (cells_of m out)[i := c]"
    using Cons.prems(3) by (simp add: cells_of_def cl(5) drop_update_swap take_update_swap)
  have pre: "in_bounds ?m2 out" "mem_ok ?m2" "Suc i + length bs \<le> sl_len out" "\<forall>b \<in> set bs. sl_arr b < m_next ?m2"
    using Cons.prems cl(4,5) by (auto simp: in_bounds_def mem_ok_def)
  let ?m' = "clone_into ?m2 out (Suc i) bs"
  from Cons.IH [OF pre Cons.prems(5)] obtain cs where IH: "mem_frame {sl_arr out} ?m2 ?m'" "mem_ok ?m'"
    "cells_of ?m' out = take (Suc i) (cells_of ?m2 out) @ cs @ drop (Suc i + length bs) (cells_of ?m2 out)"
    "copies ?m2 bs ?m' cs" by blast
  have nx: "m_next ?m2 \<le> m_next ?m'" using IH(1) by (simp add: mem_frame_def)
  have "bytes_of ?m' c = bytes_of m b"
    using frame_bytes [OF IH(1), of c] cl(2-4) by (simp add: bytes_of_def)
  moreover have "bytes_of ?m2 w = bytes_of m w" if "w \<in> set bs" for w using frame_bytes [OF fr] Cons.prems(4) that by simp
  ultimately have "copies m (b # bs) ?m' (c # cs)" using IH(4) cl(3,4) nx by (fastforce simp: copies_def)
  moreover have "i < length (cells_of m out)" using Cons.prems(1,3) by (simp add: length_cells_of)
  then have "cells_of ?m' out = take i (cells_of m out) @ (c # cs) @ drop (i + length (b # bs)) (cells_of m out)"
    by (simp add: IH(3) out take_Suc_conv_app_nth)
  moreover have "mem_frame {sl_arr out} m ?m'" by (rule mem_frame_trans [OF fr IH(1)]) simp
  ultimately show ?case using IH(2) by (auto simp: c)
qed

lemma cloneByteSlices_spec:
  assumes "cloneByteSlices m s = (m', out)" and "in_bounds m s" and "mem_ok m" and "\<forall>c \<in> set (cells_of m s). sl_arr c < m_next m"
  shows "mem_frame {} m m' \<and> mem_ok m' \<and> copies m (cells_of m s) m' (cells_of m' out)"
proof -
  obtain m1 o1 where mk: "make_cells m (sl_len s) (sl_len s) = (m1, o1)" by fastforce
  note k = make_cells_spec [OF mk]
  have ok1: "mem_ok m1" by (rule mem_ok_frame [OF assms(3) k(1) [of "{}"]]) simp
  have c1: "cells_of m1 s = cells_of m s" using frame_cells [OF k(1) [of "{}"], of s] assms(2) by (simp add: in_bounds_def)
  have len: "length (cells_of m s) = sl_len s" by (rule length_cells_of [OF assms(2)])
  have m': "m' = clone_into m1 o1 0 (cells_of m s)" "out = o1" using assms(1) mk c1 by (auto simp: cloneByteSlices_def)
  have "0 < m_next m" using assms(3) by (simp add: mem_ok_def)
  with clone_into_spec [OF k(2) ok1, of 0 "cells_of m s"] len k(3,4,6) assms(4) obtain cs where
    cs: "mem_frame {sl_arr o1} m1 m'" "mem_ok m'" "cells_of m' o1 = cs @ drop (sl_len s) (cells_of m1 o1)" "copies m1 (cells_of m s) m' cs"
    unfolding m'(1) by fastforce
  have "bytes_of m1 v = bytes_of m v" for v using k(5) by (simp add: bytes_of_def)
  then have "copies m (cells_of m s) m' cs" by (intro copies_frame [OF cs(4) mem_frame_refl]) (simp_all add: k(6))
  moreover have "mem_frame {} m m'" using mem_frame_trans [OF k(1) [of "{}"] cs(1)] k(3) by simp
  moreover have "drop (sl_len s) (cells_of m1 o1) = []" using k(4) by (simp add: cells_of_def)
  ultimately show ?thesis using cs(2,3) m'(2) by simp
qed

section \<open>Ownership\<close>

text \<open>Bytes nobody writes: those of an allocated array that is not a caller's buffer.\<close>

definition frozen :: "sstore \<Rightarrow> slice \<Rightarrow> bool" where
  "frozen st c \<longleftrightarrow> sl_arr c < m_next (ss_mem st) \<and> sl_arr c \<notin> ss_own st"

text \<open>
  Every byte slice the store holds is frozen, every list header is within its array and not empty, and no two
  lists share an array of cells.
\<close>

definition ss_ok :: "sstore \<Rightarrow> bool" where
  "ss_ok st \<longleftrightarrow> mem_ok (ss_mem st) \<and> (\<forall>a \<in> ss_own st. a < m_next (ss_mem st)) \<and>
     (\<forall>k s. ss_data st k = Some (SStr s) \<longrightarrow> frozen st s) \<and>
     (\<forall>k s. ss_data st k = Some (SList s) \<longrightarrow>
        0 < sl_len s \<and> in_bounds (ss_mem st) s \<and> (\<forall>c \<in> set (cells_of (ss_mem st) s). frozen st c)) \<and>
     (\<forall>k k' s s'. ss_data st k = Some (SList s) \<longrightarrow> ss_data st k' = Some (SList s') \<longrightarrow> k \<noteq> k' \<longrightarrow> sl_arr s \<noteq> sl_arr s')"

text \<open>The keyspace the slices stand for.\<close>

definition abs_sentry :: "mem \<Rightarrow> sentry \<Rightarrow> obj" where
  "abs_sentry m e = (case e of SStr s \<Rightarrow> RString (bytes_of m s) | SList s \<Rightarrow> RList (strings_of m s))"

definition ss_abs :: "sstore \<Rightarrow> keyspace" where
  "ss_abs st k = map_option (\<lambda>e. (abs_sentry (ss_mem st) e, None)) (ss_data st k)"

text \<open>The reply the bytes behind a handed-out reply are encoded to.\<close>

definition reply_of :: "mem \<Rightarrow> slice_reply \<Rightarrow> resp" where
  "reply_of m r =
     (case r of
        SOk \<Rightarrow> okValue
      | SErr err \<Rightarrow> replyForErr err
      | SCount n \<Rightarrow> IntegerV (int n)
      | SBulk v \<Rightarrow> BulkString (map_option (bytes_of m) v)
      | SArray cs \<Rightarrow> bulkArrayValue (map (bytes_of m) cs))"

definition frozen_reply :: "sstore \<Rightarrow> slice_reply \<Rightarrow> bool" where
  "frozen_reply st r =
     (case r of SBulk (Some c) \<Rightarrow> frozen st c | SArray cs \<Rightarrow> (\<forall>c \<in> set cs. frozen st c) | _ \<Rightarrow> True)"

text \<open>What an event means on values, the arguments read when the call is made.\<close>

definition value_step :: "mem \<Rightarrow> slice_event \<Rightarrow> keyspace \<Rightarrow> keyspace \<times> resp" where
  "value_step m ev K =
     (case ev of
        CallSet key value \<Rightarrow> exec (\<lambda>_. 0) (WSet key (bytes_of m value)) K
      | CallGet key \<Rightarrow> (K, bulk_reply (spec_get 0 key K))
      | CallPush front key values \<Rightarrow> exec (\<lambda>_. 0) (WPush front key (map (bytes_of m) values)) K
      | CallPop front key \<Rightarrow> exec (\<lambda>_. 0) (WPop front key) K
      | CallLRange key start stop \<Rightarrow>
          (K, case spec_list_read (lrange start stop) 0 key K of Inl err \<Rightarrow> replyForErr err | Inr l \<Rightarrow> bulkArrayValue l)
      | CallSnapshot key \<Rightarrow>
          (K, bulkArrayValue (case K key of Some (RString s, _) \<Rightarrow> [s] | Some (RList l, _) \<Rightarrow> l | _ \<Rightarrow> []))
      | _ \<Rightarrow> (K, okValue))"

definition simulates :: "slice_event \<Rightarrow> sstore \<Rightarrow> sstore \<Rightarrow> slice_reply \<Rightarrow> bool" where
  "simulates ev st st' r \<longleftrightarrow> ss_ok st' \<and> frozen_reply st' r \<and>
     value_step (ss_mem st) ev (ss_abs st) = (ss_abs st', reply_of (ss_mem st') r) \<and>
     (\<forall>c. frozen st c \<longrightarrow> frozen st' c \<and> bytes_of (ss_mem st') c = bytes_of (ss_mem st) c)"

section \<open>Simulation\<close>

lemma live_ss_abs [simp]: "live t (ss_abs st) = ss_abs st"
  by (rule live_no_ttl) (auto simp: no_ttl_def ss_abs_def)

lemma frozen_frame:
  assumes "mem_frame A (ss_mem st) (ss_mem st')" and "ss_own st' = ss_own st" and "frozen st c"
  shows "frozen st' c" and "bytes_of (ss_mem st') c = bytes_of (ss_mem st) c"
  using assms frame_bytes [OF assms(1), of c] by (auto simp: frozen_def mem_frame_def)

text \<open>Frame of an operation on one key.\<close>

definition entry_ok :: "sstore \<Rightarrow> sentry \<Rightarrow> bool" where
  "entry_ok st e =
     (case e of
        SStr s \<Rightarrow> frozen st s
      | SList s \<Rightarrow> 0 < sl_len s \<and> in_bounds (ss_mem st) s \<and> (\<forall>c \<in> set (cells_of (ss_mem st) s). frozen st c))"

lemma ss_ok_entries: "ss_ok st \<longleftrightarrow> mem_ok (ss_mem st) \<and> (\<forall>a \<in> ss_own st. a < m_next (ss_mem st)) \<and>
    (\<forall>k e. ss_data st k = Some e \<longrightarrow> entry_ok st e) \<and>
    (\<forall>k k' s s'. ss_data st k = Some (SList s) \<longrightarrow> ss_data st k' = Some (SList s') \<longrightarrow> k \<noteq> k' \<longrightarrow> sl_arr s \<noteq> sl_arr s')"
  unfolding ss_ok_def entry_ok_def by (auto split: sentry.splits)

lemma entry_frame:
  assumes "entry_ok st e" and "mem_frame A (ss_mem st) (ss_mem st')" and "ss_own st' = ss_own st"
    and "\<And>s. e = SList s \<Longrightarrow> sl_arr s \<notin> A"
  shows "entry_ok st' e" and "abs_sentry (ss_mem st') e = abs_sentry (ss_mem st) e"
proof (atomize (full), cases e)
  case (SStr s)
  with assms(1) frozen_frame [OF assms(2,3), of s] show "entry_ok st' e \<and> abs_sentry (ss_mem st') e = abs_sentry (ss_mem st) e"
    by (simp add: entry_ok_def abs_sentry_def)
next
  case (SList s)
  with assms(1) have b: "in_bounds (ss_mem st) s" "0 < sl_len s" and c: "\<And>c. c \<in> set (cells_of (ss_mem st) s) \<Longrightarrow> frozen st c"
    by (auto simp: entry_ok_def)
  have "cells_of (ss_mem st') s = cells_of (ss_mem st) s"
    using frame_cells [OF assms(2)] b assms(4) [OF SList] by (simp add: in_bounds_def)
  moreover have "in_bounds (ss_mem st') s" by (rule in_bounds_frame [OF b(1) assms(2) assms(4) [OF SList]])
  ultimately show "entry_ok st' e \<and> abs_sentry (ss_mem st') e = abs_sentry (ss_mem st) e"
    using SList b c frozen_frame [OF assms(2,3)] by (simp add: entry_ok_def abs_sentry_def strings_of_def)
qed

lemma ss_update:
  assumes ok: "ss_ok st" and st': "st' = st\<lparr>ss_mem := m', ss_data := (ss_data st)(key := e)\<rparr>"
    and fr: "mem_frame A (ss_mem st) m'" and mok: "mem_ok m'"
    and sep: "\<And>k s. k \<noteq> key \<Longrightarrow> ss_data st k = Some (SList s) \<Longrightarrow> sl_arr s \<notin> A"
    and new: "\<And>x. e = Some x \<Longrightarrow> entry_ok st' x"
    and fresh: "\<And>s k s1. e = Some (SList s) \<Longrightarrow> k \<noteq> key \<Longrightarrow> ss_data st k = Some (SList s1) \<Longrightarrow> sl_arr s1 \<noteq> sl_arr s"
  shows "ss_ok st'" and "ss_abs st' = (ss_abs st)(key := map_option (\<lambda>x. (abs_sentry m' x, None)) e)"
    and "\<forall>c. frozen st c \<longrightarrow> frozen st' c \<and> bytes_of (ss_mem st') c = bytes_of (ss_mem st) c"
proof -
  have fr': "mem_frame A (ss_mem st) (ss_mem st')" and own: "ss_own st' = ss_own st" and m': "ss_mem st' = m'"
    using fr st' by simp_all
  have old: "entry_ok st' x \<and> abs_sentry m' x = abs_sentry (ss_mem st) x" if "k \<noteq> key" "ss_data st k = Some x" for k x
    using entry_frame [OF _ fr' own, of x] ok that sep [OF that(1)] by (auto simp: ss_ok_entries m')
  show "\<forall>c. frozen st c \<longrightarrow> frozen st' c \<and> bytes_of (ss_mem st') c = bytes_of (ss_mem st) c"
    using frozen_frame [OF fr' own] by blast
  show "ss_abs st' = (ss_abs st)(key := map_option (\<lambda>x. (abs_sentry m' x, None)) e)"
  proof
    fix k show "ss_abs st' k = ((ss_abs st)(key := map_option (\<lambda>x. (abs_sentry m' x, None)) e)) k"
      using old [of k] by (cases "ss_data st k") (auto simp: ss_abs_def st')
  qed
  have "entry_ok st' x" if "ss_data st' k = Some x" for k x
    using that new old [of k x] by (cases "k = key") (auto simp: st')
  moreover have "sl_arr s \<noteq> sl_arr s'" if "ss_data st' k = Some (SList s)" "ss_data st' k' = Some (SList s')" "k \<noteq> k'" for k k' s s'
    using that ok fresh [of s k' s'] fresh [of s' k s] by (cases "k = key"; cases "k' = key") (auto simp: st' ss_ok_def)
  moreover have "a < m_next m'" if "a \<in> ss_own st" for a using that ok fr by (fastforce simp: ss_ok_def mem_frame_def)
  ultimately show "ss_ok st'" using mok by (auto simp: ss_ok_entries m' own)
qed

lemma sim_Set:
  assumes ok: "ss_ok st" and "ss_Set st key value = (st', r)"
  shows "simulates (CallSet key value) st st' r"
proof -
  obtain m' c where cl: "cloneBytes (ss_mem st) value = (m', c)" by fastforce
  note k = cloneBytes_spec [OF cl]
  have st': "st' = st\<lparr>ss_mem := m', ss_data := (ss_data st)(key := Some (SStr c))\<rparr>" and r: "r = SOk"
    using assms(2) cl by (auto simp: ss_Set_def)
  have mok: "mem_ok m'" using ok by (auto intro: mem_ok_frame [OF _ k(1) [of "{}"]] simp: ss_ok_def)
  have "m_next (ss_mem st) \<notin> ss_own st" using ok by (auto simp: ss_ok_def)
  then have new: "entry_ok st' x" if "Some (SStr c) = Some x" for x using that k(3,4) by (auto simp: st' entry_ok_def frozen_def)
  note up = ss_update [OF ok st' k(1) [of "{}"] mok _ new]
  show ?thesis using up by (simp add: simulates_def frozen_reply_def value_step_def reply_of_def r abs_sentry_def k(2) del: fun_upd_apply)
qed

text \<open>A header to push to belongs to its key alone.\<close>

lemma list_header_sep:
  assumes ok: "ss_ok st" and h: "list_header st key = Some s"
  shows "in_bounds (ss_mem st) s" and "\<And>c. c \<in> set (cells_of (ss_mem st) s) \<Longrightarrow> frozen st c"
    and "\<And>k s1. k \<noteq> key \<Longrightarrow> ss_data st k = Some (SList s1) \<Longrightarrow> sl_arr s1 \<noteq> sl_arr s"
    and "ss_data st key = (if sl_len s = 0 then None else Some (SList s))"
    and "sl_arr s < m_next (ss_mem st)"
proof -
  have zero: "sl_arr s1 \<noteq> 0" if "ss_data st k = Some (SList s1)" for k s1
  proof
    assume "sl_arr s1 = 0"
    with ok that show False by (fastforce simp: ss_ok_def in_bounds_def mem_ok_def)
  qed
  show "sl_arr s1 \<noteq> sl_arr s" if "k \<noteq> key" "ss_data st k = Some (SList s1)" for k s1
    using h ok that zero [OF that(2)] by (auto simp: list_header_def ss_ok_def nil_slice_def split: option.splits sentry.splits)
  have "in_bounds (ss_mem st) s \<and> (\<forall>c \<in> set (cells_of (ss_mem st) s). frozen st c) \<and>
      ss_data st key = (if sl_len s = 0 then None else Some (SList s))"
  proof (cases "ss_data st key")
    case None
    with h ok show ?thesis by (auto simp: list_header_def ss_ok_def nil_slice_def in_bounds_def mem_ok_def cells_of_def)
  next
    case (Some e)
    with h have "e = SList s" by (simp add: list_header_def split: sentry.splits)
    with Some ok show ?thesis unfolding ss_ok_def by force
  qed
  then show "in_bounds (ss_mem st) s" "\<And>c. c \<in> set (cells_of (ss_mem st) s) \<Longrightarrow> frozen st c"
    "ss_data st key = (if sl_len s = 0 then None else Some (SList s))" "sl_arr s < m_next (ss_mem st)"
    by (auto simp: in_bounds_def)
qed

lemma list_header_None: "list_header st key = None \<longleftrightarrow> (\<exists>s. ss_data st key = Some (SStr s))"
  by (auto simp: list_header_def split: option.splits sentry.splits)

lemma ss_abs_header:
  assumes "ss_ok st" and "list_header st key = Some s"
  shows "ss_abs st key = (if strings_of (ss_mem st) s = [] then None else Some (RList (strings_of (ss_mem st) s), None))"
    and "length (strings_of (ss_mem st) s) = sl_len s"
proof -
  show len: "length (strings_of (ss_mem st) s) = sl_len s"
    using length_cells_of [OF list_header_sep(1) [OF assms]] by (simp add: strings_of_def)
  show "ss_abs st key = (if strings_of (ss_mem st) s = [] then None else Some (RList (strings_of (ss_mem st) s), None))"
    using list_header_sep(4) [OF assms] len by (auto simp: ss_abs_def abs_sentry_def)
qed

lemma spec_push_header:
  assumes "ss_ok st" and "list_header st key = Some s"
  shows "spec_push f t key (ss_abs st) =
    ((ss_abs st)(key \<mapsto> (RList (f (strings_of (ss_mem st) s)), None)), Inr (length (f (strings_of (ss_mem st) s))))"
  using ss_abs_header(1) [OF assms] by (simp add: spec_push_def)

text \<open>A list extended by copies of the arguments.\<close>

lemma push_entry:
  assumes ok: "ss_ok st" and h: "list_header st key = Some s" and ex: "extends (ss_mem st) s m' s'"
    and st': "st' = st\<lparr>ss_mem := m', ss_data := (ss_data st)(key := Some (SList s'))\<rparr>"
    and cs: "set (cells_of m' s') = set cs \<union> set (cells_of (ss_mem st) s)" and cp: "copies (ss_mem st) vs m' cs" and "vs \<noteq> []"
  shows "ss_ok st'" and "ss_abs st' = (ss_abs st)(key \<mapsto> (RList (strings_of m' s'), None))"
    and "\<forall>c. frozen st c \<longrightarrow> frozen st' c \<and> bytes_of (ss_mem st') c = bytes_of (ss_mem st) c"
    and "length (strings_of m' s') = sl_len s'"
proof -
  note sep = list_header_sep [OF ok h]
  have x: "mem_frame {sl_arr s} (ss_mem st) m'" "in_bounds m' s'" "mem_ok m'" "sl_arr s' = sl_arr s \<or> m_next (ss_mem st) \<le> sl_arr s'"
    using ex by (auto simp: extends_def)
  have "length vs = length cs" using cp unfolding copies_def by (metis length_map)
  with \<open>vs \<noteq> []\<close> cs have "cells_of m' s' \<noteq> []" by auto
  then have len: "0 < sl_len s'" using length_cells_of [OF x(2)] by (metis length_greater_0_conv)
  have "m_next (ss_mem st) \<le> m_next m'" using x(1) by (simp add: mem_frame_def)
  then have "frozen st' c" if "c \<in> set cs \<union> set (cells_of (ss_mem st) s)" for c
    using that sep(2) cp ok unfolding st' frozen_def copies_def ss_ok_def by fastforce
  then have new: "entry_ok st' e" if "Some (SList s') = Some e" for e using that x(2) len cs by (auto simp: entry_ok_def st')
  have fresh: "sl_arr s1 \<noteq> sl_arr s''" if "Some (SList s') = Some (SList s'')" "k \<noteq> key" "ss_data st k = Some (SList s1)" for s'' k s1
  proof -
    have "sl_arr s1 < m_next (ss_mem st)" using ok that(3) unfolding ss_ok_def in_bounds_def by blast
    with that sep(3) [OF that(2,3)] x(4) show ?thesis by auto
  qed
  have "sl_arr s1 \<notin> {sl_arr s}" if "k \<noteq> key" "ss_data st k = Some (SList s1)" for k s1 using sep(3) [OF that] by simp
  note up = ss_update [OF ok st' x(1,3) this new fresh]
  show "ss_ok st'" by (rule up(1))
  show "ss_abs st' = (ss_abs st)(key \<mapsto> (RList (strings_of m' s'), None))" using up(2) by (simp add: abs_sentry_def)
  show "\<forall>c. frozen st c \<longrightarrow> frozen st' c \<and> bytes_of (ss_mem st') c = bytes_of (ss_mem st) c" by (rule up(3))
  show "length (strings_of m' s') = sl_len s'" using length_cells_of [OF x(2)] by (simp add: strings_of_def)
qed

lemma copies_strings: "copies m vs m' cs \<Longrightarrow> map (bytes_of m') cs = map (bytes_of m) vs"
  unfolding copies_def by blast

lemma sim_Push:
  assumes ok: "ss_ok st" and step: "ss_Push grow front st key vals = (st', r)" and leg: "legal (CallPush front key vals) st"
  shows "simulates (CallPush front key vals) st st' r"
proof (cases "list_header st key")
  case None
  with step have "st' = st" "r = SErr ErrWrongType" by (auto simp: ss_Push_def)
  with None ok show ?thesis
    by (auto simp: list_header_None simulates_def frozen_reply_def value_step_def reply_of_def spec_push_def ss_abs_def [of st]
        abs_sentry_def count_reply_def)
next
  case (Some s)
  note sep = list_header_sep [OF ok Some]
  have mok: "mem_ok (ss_mem st)" using ok by (simp add: ss_ok_def)
  have args: "vals \<noteq> []" "\<forall>v \<in> set vals. sl_arr v < m_next (ss_mem st)" using leg by (auto simp: legal_def)
  obtain m' s' where p: "(if front then slice_LPush else slice_RPush) grow (ss_mem st) s vals = (m', s')" by fastforce
  with Some step have st': "st' = st\<lparr>ss_mem := m', ss_data := (ss_data st)(key := Some (SList s'))\<rparr>" and r: "r = SCount (sl_len s')"
    by (auto simp: ss_Push_def)
  let ?vs = "if front then rev vals else vals"
  obtain cs where ex: "extends (ss_mem st) s m' s'" and cp: "copies (ss_mem st) ?vs m' cs"
    and cells: "cells_of m' s' = (if front then cs @ cells_of (ss_mem st) s else cells_of (ss_mem st) s @ cs)"
  proof (cases front)
    case True
    with p slice_LPush_spec [of grow "ss_mem st" s vals m' s'] sep(1) mok args that show thesis by auto
  next
    case False
    with p push_clones_spec [of grow "ss_mem st" s vals m' s'] sep(1) mok args that show thesis by (auto simp: slice_RPush_def)
  qed
  have "set (cells_of m' s') = set cs \<union> set (cells_of (ss_mem st) s)" using cells by auto
  note pe = push_entry [OF ok Some ex st' this cp]
  have "bytes_of m' c = bytes_of (ss_mem st) c" if "c \<in> set (cells_of (ss_mem st) s)" for c
    using sep(2) [OF that] pe(3) args(1) by (auto simp: st' split: if_splits)
  then have "strings_of m' s' = (if front then rev (map (bytes_of (ss_mem st)) vals) @ strings_of (ss_mem st) s
      else strings_of (ss_mem st) s @ map (bytes_of (ss_mem st)) vals)"
    using copies_strings [OF cp] by (simp add: strings_of_def cells rev_map)
  moreover have "?vs \<noteq> []" using args(1) by simp
  note pe = pe [OF this]
  ultimately have "spec_push (\<lambda>l. if front then rev (map (bytes_of (ss_mem st)) vals) @ l else l @ map (bytes_of (ss_mem st)) vals)
      0 key (ss_abs st) = (ss_abs st', Inr (sl_len s'))"
    using pe(2,4) by (simp only: spec_push_header [OF ok Some])
  then show ?thesis using pe(1,3) r
    by (simp add: simulates_def frozen_reply_def value_step_def reply_of_def count_reply_def)
qed

lemma pop_cells:
  assumes b: "in_bounds m s" "0 < sl_len s" and pop: "(if front then slice_LPop else slice_RPop) m s = (v, s')"
  shows "cells_of m s' = (if front then tl else butlast) (cells_of m s)" and "v = (if front then hd else last) (cells_of m s)"
    and "in_bounds m s'" and "sl_arr s' = sl_arr s" and "sl_len s' = sl_len s - 1"
proof -
  have len: "length (cells_of m s) = sl_len s" by (rule length_cells_of [OF b(1)])
  show "cells_of m s' = (if front then tl else butlast) (cells_of m s)"
    using pop b by (auto simp: slice_LPop_def slice_RPop_def cells_of_def in_bounds_def tl_take tl_drop drop_Suc butlast_take split: if_splits)
  have "cells_of m s \<noteq> []" using b(2) len by auto
  then show "v = (if front then hd else last) (cells_of m s)"
    using pop last_conv_nth [of "cells_of m s", unfolded len] by (auto simp: slice_LPop_def slice_RPop_def split: if_splits)
  show "in_bounds m s'" "sl_arr s' = sl_arr s" "sl_len s' = sl_len s - 1"
    using pop b by (auto simp: slice_LPop_def slice_RPop_def in_bounds_def split: if_splits)
qed

lemma sim_Pop_list:
  assumes ok: "ss_ok st" and step: "ss_Pop front st key = (st', r)" and Some: "list_header st key = Some s" and False: "sl_len s \<noteq> 0"
  shows "simulates (CallPop front key) st st' r"
proof -
  note sep = list_header_sep [OF ok Some] and hd = ss_abs_header [OF ok Some]
  obtain v s' where pop: "(if front then slice_LPop else slice_RPop) (ss_mem st) s = (v, s')" by fastforce
  note c = pop_cells [OF sep(1) _ pop]
  let ?e = "if sl_len s' = 0 then None else Some (SList s')" and ?l = "strings_of (ss_mem st) s"
  have st': "st' = st\<lparr>ss_mem := ss_mem st, ss_data := (ss_data st)(key := ?e)\<rparr>" and r: "r = SBulk (Some v)"
    using Some step False pop by (auto simp: ss_Pop_def)
  have l: "?l \<noteq> []" using hd(2) False by auto
  have sub: "set (cells_of (ss_mem st) s') \<subseteq> set (cells_of (ss_mem st) s)" using c(1) False by (cases "cells_of (ss_mem st) s") (auto dest: in_set_butlastD)
  then have kept: "\<forall>c \<in> set (cells_of (ss_mem st) s'). frozen st c" using sep(2) by blast
  have new: "entry_ok st' x" if "?e = Some x" for x
    using that c(3) False kept by (auto simp: entry_ok_def st' frozen_def split: if_splits)
  have fresh: "sl_arr s1 \<noteq> sl_arr s''" if "?e = Some (SList s'')" "k \<noteq> key" "ss_data st k = Some (SList s1)" for s'' k s1
    using that sep(3) [OF that(2,3)] c(4) False by (simp split: if_splits)
  have mok: "mem_ok (ss_mem st)" using ok by (simp add: ss_ok_def)
  note up = ss_update [OF ok st' mem_frame_refl [of "{}"] mok _ new fresh]
  have str: "strings_of (ss_mem st) s' = (if front then tl else butlast) ?l" "bytes_of (ss_mem st) v = (if front then hd else last) ?l"
    using c(1,2) False l by (auto simp: strings_of_def map_tl map_butlast hd_map last_map)
  have "v \<in> set (cells_of (ss_mem st) s)" using c(2) False l by (auto simp: strings_of_def)
  then have fz: "frozen st' v" using sep(2) up(3) by simp
  have "(sl_len s' = 0) = ((if front then tl else butlast) ?l = [])"
    using str(1) length_cells_of [OF c(3)] False by (auto simp: strings_of_def)
  then have "spec_pop (if front then hd else last) (if front then tl else butlast) 0 key (ss_abs st) =
      (ss_abs st', Inr (Some (bytes_of (ss_mem st) v)))"
    using up(2) hd(1) l str by (auto simp: spec_pop_def abs_sentry_def)
  then show ?thesis using up(1,3) fz r
    by (simp add: simulates_def frozen_reply_def value_step_def reply_of_def bulk_reply_def st')
qed

lemma sim_Pop:
  assumes ok: "ss_ok st" and step: "ss_Pop front st key = (st', r)"
  shows "simulates (CallPop front key) st st' r"
proof (cases "list_header st key")
  case None
  with step have "st' = st" "r = SErr ErrWrongType" by (auto simp: ss_Pop_def)
  with None ok show ?thesis
    by (auto simp: list_header_None simulates_def frozen_reply_def value_step_def reply_of_def spec_pop_def ss_abs_def [of st]
        abs_sentry_def bulk_reply_def)
next
  case (Some s)
  show ?thesis
  proof (cases "sl_len s = 0")
    case True
    with Some step have "st' = st" "r = SBulk None" by (auto simp: ss_Pop_def)
    moreover have "ss_abs st key = None" using ss_abs_header [OF ok Some] True by simp
    ultimately show ?thesis using ok
      by (simp add: simulates_def frozen_reply_def value_step_def reply_of_def spec_pop_def bulk_reply_def fun_upd_idem)
  qed (rule sim_Pop_list [OF ok step Some])
qed

lemma sim_Get:
  assumes "ss_ok st"
  shows "simulates (CallGet key) st st (ss_Get st key)"
proof -
  have "bulk_reply (spec_get 0 key (ss_abs st)) = reply_of (ss_mem st) (ss_Get st key)"
    by (auto simp: spec_get_def ss_Get_def ss_abs_def [of st] abs_sentry_def bulk_reply_def reply_of_def split: option.splits sentry.splits)
  moreover have "frozen_reply st (ss_Get st key)"
    using assms by (auto simp: ss_Get_def frozen_reply_def ss_ok_def split: option.splits sentry.splits)
  ultimately show ?thesis using assms by (simp add: simulates_def value_step_def)
qed

text \<open>An operation that only allocates changes no value.\<close>

lemma ss_alloc:
  assumes ok: "ss_ok st" and fr: "mem_frame {} (ss_mem st) m'" and mok: "mem_ok m'"
  shows "ss_ok (st\<lparr>ss_mem := m'\<rparr>)" and "ss_abs (st\<lparr>ss_mem := m'\<rparr>) = ss_abs st"
    and "\<forall>c. frozen st c \<longrightarrow> frozen (st\<lparr>ss_mem := m'\<rparr>) c \<and> bytes_of m' c = bytes_of (ss_mem st) c"
proof -
  let ?st = "st\<lparr>ss_mem := m'\<rparr>"
  have fr': "mem_frame {} (ss_mem st) (ss_mem ?st)" and own: "ss_own ?st = ss_own st" using fr by simp_all
  have e: "entry_ok ?st x \<and> abs_sentry m' x = abs_sentry (ss_mem st) x" if "ss_data st k = Some x" for k x
    using entry_frame [OF _ fr' own, of x] ok that by (auto simp: ss_ok_entries)
  show "\<forall>c. frozen st c \<longrightarrow> frozen ?st c \<and> bytes_of m' c = bytes_of (ss_mem st) c"
    using frozen_frame [OF fr' own] by simp
  show "ss_abs ?st = ss_abs st"
  proof
    fix k show "ss_abs ?st k = ss_abs st k" using e [of k] by (cases "ss_data st k") (simp_all add: ss_abs_def)
  qed
  have "a < m_next m'" if "a \<in> ss_own st" for a using that ok fr by (fastforce simp: ss_ok_def mem_frame_def)
  then show "ss_ok ?st" using ok mok e by (simp add: ss_ok_entries)
qed

lemma sim_LRange:
  assumes ok: "ss_ok st" and step: "ss_LRange grow st key start stop = (st', r)"
  shows "simulates (CallLRange key start stop) st st' r"
proof (cases "list_header st key")
  case None
  with step have "st' = st" "r = SErr ErrWrongType" by (auto simp: ss_LRange_def)
  with None ok show ?thesis
    by (auto simp: list_header_None simulates_def frozen_reply_def value_step_def reply_of_def spec_list_read_def ss_abs_def [of st]
        abs_sentry_def)
next
  case (Some s)
  note sep = list_header_sep [OF ok Some] and hd = ss_abs_header [OF ok Some]
  obtain m' out where lr: "slice_LRange grow (ss_mem st) s start stop = (m', out)" by fastforce
  with Some step have st': "st' = st\<lparr>ss_mem := m'\<rparr>" and r: "r = SArray (cells_of m' out)" by (auto simp: ss_LRange_def)
  have mok: "mem_ok (ss_mem st)" using ok by (simp add: ss_ok_def)
  from slice_LRange_spec [OF lr sep(1) mok] have lr': "mem_frame {} (ss_mem st) m'" "mem_ok m'"
    and cells: "cells_of m' out = selected start stop (cells_of (ss_mem st) s)" by blast+
  note al = ss_alloc [OF ok lr']
  have fz: "frozen st c" if "c \<in> set (cells_of m' out)" for c
  proof -
    have "set (selected start stop (cells_of (ss_mem st) s)) \<subseteq> set (cells_of (ss_mem st) s)"
      by (auto simp: selected_def normalizeRange_def Let_def split: option.splits if_splits intro!: nth_mem)
    with that sep(2) show ?thesis by (auto simp: cells)
  qed
  have "map (bytes_of m') (cells_of m' out) = map (bytes_of (ss_mem st)) (cells_of m' out)" using al(3) fz by simp
  also have "\<dots> = lrange start stop (strings_of (ss_mem st) s)"
    by (simp add: cells strings_of_def selected_map flip: selected_lrange)
  finally have "spec_list_read (lrange start stop) 0 key (ss_abs st) = Inr (map (bytes_of m') (cells_of m' out))"
    using hd(1) by (auto simp: spec_list_read_def)
  then show ?thesis using al fz
    by (simp add: simulates_def st' r frozen_reply_def value_step_def reply_of_def)
qed

lemma sim_Snapshot:
  assumes ok: "ss_ok st" and step: "ss_Snapshot st key = (st', r)"
  shows "simulates (CallSnapshot key) st st' r"
proof -
  have mok: "mem_ok (ss_mem st)" and own: "\<And>a. m_next (ss_mem st) \<le> a \<Longrightarrow> a \<notin> ss_own st"
    using ok by (auto simp: ss_ok_def)
  consider (none) "ss_data st key = None" | (str) s where "ss_data st key = Some (SStr s)" | (list) s where "ss_data st key = Some (SList s)"
    by (cases "ss_data st key") (auto intro: sentry.exhaust)
  then show ?thesis
  proof cases
    case none
    with step ok show ?thesis
      by (auto simp: ss_Snapshot_def simulates_def frozen_reply_def value_step_def reply_of_def ss_abs_def)
  next
    case (str s)
    obtain m' c where cl: "cloneBytes (ss_mem st) s = (m', c)" by fastforce
    note k = cloneBytes_spec [OF cl]
    have r: "st' = st\<lparr>ss_mem := m'\<rparr>" "r = SArray [c]" using step str cl by (auto simp: ss_Snapshot_def)
    note al = ss_alloc [OF ok k(1) mem_ok_frame [OF mok k(1)], of "{}", simplified]
    have "ss_abs st key = Some (RString (bytes_of (ss_mem st) s), None)" using str by (simp add: ss_abs_def abs_sentry_def)
    with al k own show ?thesis
      by (simp add: simulates_def r frozen_reply_def frozen_def value_step_def reply_of_def)
  next
    case (list s)
    with ok have s: "in_bounds (ss_mem st) s" "\<forall>c \<in> set (cells_of (ss_mem st) s). sl_arr c < m_next (ss_mem st)"
      by (auto simp: ss_ok_def frozen_def)
    obtain m' out where cl: "cloneByteSlices (ss_mem st) s = (m', out)" by fastforce
    from cloneByteSlices_spec [OF cl s(1) mok s(2)] have k: "mem_frame {} (ss_mem st) m'" "mem_ok m'"
      and cp: "copies (ss_mem st) (cells_of (ss_mem st) s) m' (cells_of m' out)" by blast+
    have r: "st' = st\<lparr>ss_mem := m'\<rparr>" "r = SArray (cells_of m' out)" using step list cl by (auto simp: ss_Snapshot_def)
    have "ss_abs st key = Some (RList (map (bytes_of m') (cells_of m' out)), None)"
      using list by (simp add: ss_abs_def abs_sentry_def strings_of_def copies_strings [OF cp])
    moreover have "\<forall>c \<in> set (cells_of m' out). frozen st' c" using cp own by (auto simp: copies_def frozen_def r)
    ultimately show ?thesis using ss_alloc [OF ok k]
      by (simp add: simulates_def r frozen_reply_def value_step_def reply_of_def)
  qed
qed

text \<open>What callers do to their buffers changes nothing the store or a reply refers to.\<close>

lemma sim_buffer:
  assumes ok: "ss_ok st" and st': "ss_data st' = ss_data st" "m_cells (ss_mem st') = m_cells (ss_mem st)"
      "m_next (ss_mem st) \<le> m_next (ss_mem st')" "\<forall>a \<in> ss_own st'. a < m_next (ss_mem st')"
    and fz: "\<And>c. frozen st c \<Longrightarrow> frozen st' c \<and> bytes_of (ss_mem st') c = bytes_of (ss_mem st) c"
    and ev: "value_step (ss_mem st) ev (ss_abs st) = (ss_abs st, okValue)"
  shows "simulates ev st st' SOk"
proof -
  have cells: "cells_of (ss_mem st') s = cells_of (ss_mem st) s" for s by (simp add: cells_of_def st'(2))
  have bounds: "in_bounds (ss_mem st) s \<Longrightarrow> in_bounds (ss_mem st') s" for s using st'(2,3) by (auto simp: in_bounds_def)
  have "mem_ok (ss_mem st')" using ok st'(2,3) by (auto simp: ss_ok_def mem_ok_def)
  moreover have e: "entry_ok st' e \<and> abs_sentry (ss_mem st') e = abs_sentry (ss_mem st) e" if "ss_data st k = Some e" for k e
  proof -
    from ok that have "entry_ok st e" unfolding ss_ok_entries by blast
    with fz bounds show ?thesis by (cases e) (auto simp: entry_ok_def abs_sentry_def strings_of_def cells)
  qed
  ultimately have "ss_ok st'" using ok st'(1,4) by (simp add: ss_ok_entries)
  moreover have "ss_abs st' = ss_abs st"
  proof
    fix k show "ss_abs st' k = ss_abs st k" using e [of k] by (cases "ss_data st k") (simp_all add: ss_abs_def st'(1))
  qed
  ultimately show ?thesis using fz ev by (simp add: simulates_def frozen_reply_def reply_of_def)
qed

lemma slice_step_simulates:
  assumes ok: "ss_ok st" and leg: "legal ev st" and step: "slice_step grow ev st = (st', r)"
  shows "simulates ev st st' r"
proof (cases ev)
  case (BufAlloc bs)
  have "m_next (ss_mem st) \<notin> ss_own st" using ok by (auto simp: ss_ok_def)
  with BufAlloc step ok show ?thesis
    by (auto simp: slice_step_def Let_def frozen_def bytes_of_def value_step_def ss_ok_def less_Suc_eq intro!: sim_buffer [OF ok])
next
  case (BufWrite a bs)
  with leg step ok show ?thesis
    by (auto simp: slice_step_def legal_def frozen_def bytes_of_def value_step_def ss_ok_def intro!: sim_buffer [OF ok])
qed (use assms sim_Set [OF ok] sim_Get [OF ok] sim_Push [OF ok] sim_Pop [OF ok] sim_LRange [OF ok] sim_Snapshot [OF ok] in
    \<open>auto simp: slice_step_def\<close>)

section \<open>Properties\<close>

text \<open>A run with the replies handed out, and the same run on values.\<close>

fun slice_run :: "(nat \<Rightarrow> nat) \<Rightarrow> slice_event list \<Rightarrow> sstore \<Rightarrow> (sstore \<times> slice_reply list) option" where
  "slice_run grow [] st = Some (st, [])"
| "slice_run grow (ev # evs) st =
     (if legal ev st
      then (case slice_step grow ev st of
              (st1, r) \<Rightarrow> map_option (\<lambda>(st', rs). (st', r # rs)) (slice_run grow evs st1))
      else None)"

fun value_run :: "(nat \<Rightarrow> nat) \<Rightarrow> slice_event list \<Rightarrow> sstore \<Rightarrow> keyspace \<Rightarrow> keyspace \<times> resp list" where
  "value_run grow [] st K = (K, [])"
| "value_run grow (ev # evs) st K =
     (case value_step (ss_mem st) ev K of
        (K1, reply) \<Rightarrow> apsnd (\<lambda>rs. reply # rs) (value_run grow evs (fst (slice_step grow ev st)) K1))"

lemma frozen_reply_stable:
  assumes "frozen_reply st r" and "\<And>c. frozen st c \<Longrightarrow> frozen st' c \<and> bytes_of (ss_mem st') c = bytes_of (ss_mem st) c"
  shows "frozen_reply st' r" and "reply_of (ss_mem st') r = reply_of (ss_mem st) r"
proof -
  have "map (bytes_of (ss_mem st')) cs = map (bytes_of (ss_mem st)) cs" if "r = SArray cs" for cs
    using that assms by (simp add: frozen_reply_def)
  then show "frozen_reply st' r" "reply_of (ss_mem st') r = reply_of (ss_mem st) r"
    using assms by (auto simp: frozen_reply_def reply_of_def simp del: map_eq_conv split: slice_reply.splits option.splits)
qed

lemma slice_run_values:
  assumes "slice_run grow evs st = Some (st', rs)" and "ss_ok st"
  shows "ss_ok st' \<and> value_run grow evs st (ss_abs st) = (ss_abs st', map (reply_of (ss_mem st')) rs) \<and>
    (\<forall>c. frozen st c \<longrightarrow> frozen st' c \<and> bytes_of (ss_mem st') c = bytes_of (ss_mem st) c)"
  using assms
proof (induction evs arbitrary: st rs)
  case (Cons ev evs)
  obtain st1 r where step: "slice_step grow ev st = (st1, r)" by fastforce
  with Cons.prems obtain rs' where leg: "legal ev st" and run: "slice_run grow evs st1 = Some (st', rs')" and rs: "rs = r # rs'"
    by (auto split: if_splits)
  from slice_step_simulates [OF Cons.prems(2) leg step] have sim: "ss_ok st1" "frozen_reply st1 r"
    "value_step (ss_mem st) ev (ss_abs st) = (ss_abs st1, reply_of (ss_mem st1) r)"
    "\<And>c. frozen st c \<Longrightarrow> frozen st1 c \<and> bytes_of (ss_mem st1) c = bytes_of (ss_mem st) c" by (auto simp: simulates_def)
  from Cons.IH [OF run sim(1)] have IH: "ss_ok st'" "value_run grow evs st1 (ss_abs st1) = (ss_abs st', map (reply_of (ss_mem st')) rs')"
    "\<And>c. frozen st1 c \<Longrightarrow> frozen st' c \<and> bytes_of (ss_mem st') c = bytes_of (ss_mem st1) c" by blast+
  have "reply_of (ss_mem st') r = reply_of (ss_mem st1) r" by (rule frozen_reply_stable(2) [OF sim(2) IH(3)])
  then show ?case using IH sim(3,4) step rs by simp
qed simp

text \<open>
  C26: Slices behave as values. In every run of store calls, mixed with callers allocating buffers and overwriting
  the ones they own, the strings and lists behind the store's slices are those of the abstract keyspace, although
  lists grow in place and readers receive slices of the store's own arrays. The replies may be encoded as late as
  the end of the run, long after the locks were released: their bytes are still those of the moment of the call.
\<close>

theorem slices_behave_as_values:
  assumes "slice_run grow evs ss_New = Some (st, rs)"
  shows "value_run grow evs ss_New Map.empty = (ss_abs st, map (reply_of (ss_mem st)) rs)"
proof -
  have "ss_ok ss_New" by (simp add: ss_ok_def ss_New_def mem_ok_def)
  moreover have "ss_abs ss_New = Map.empty" by (simp add: ss_abs_def ss_New_def fun_eq_iff)
  ultimately show ?thesis using slice_run_values [OF assms] by simp
qed

theorem slices_behave_as_values_witness:
  "(let b = \<lparr>sl_arr = 1, sl_off = 0, sl_len = 1\<rparr>;
        evs = [BufAlloc ''a'', CallPush False ''l'' [b], CallLRange ''l'' 0 (-1), BufWrite 1 ''z'', CallPush True ''l'' [b],
               CallPop False ''l'', CallPush False ''l'' [b], CallLRange ''l'' 0 (-1)]
    in \<exists>st rs. slice_run (\<lambda>_. 3) evs ss_New = Some (st, rs) \<and>
         value_run (\<lambda>_. 3) evs ss_New Map.empty = (ss_abs st, map (reply_of (ss_mem st)) rs) \<and>
         map (reply_of (ss_mem st)) rs =
           [okValue, IntegerV 1, bulkArrayValue [''a''], okValue, IntegerV 2, BulkString (Some ''a''), IntegerV 2,
            bulkArrayValue [''z'', ''z'']])"
proof -
  let ?b = "\<lparr>sl_arr = 1, sl_off = 0, sl_len = 1\<rparr>"
  let ?evs = "[BufAlloc ''a'', CallPush False ''l'' [?b], CallLRange ''l'' 0 (-1), BufWrite 1 ''z'', CallPush True ''l'' [?b],
    CallPop False ''l'', CallPush False ''l'' [?b], CallLRange ''l'' 0 (-1)]"
  have "map_option (\<lambda>(st, rs). map (reply_of (ss_mem st)) rs) (slice_run (\<lambda>_. 3) ?evs ss_New) =
      Some [okValue, IntegerV 1, bulkArrayValue [''a''], okValue, IntegerV 2, BulkString (Some ''a''), IntegerV 2,
            bulkArrayValue [''z'', ''z'']]"
    by code_simp
  then obtain st rs where run: "slice_run (\<lambda>_. 3) ?evs ss_New = Some (st, rs)"
    and rs: "map (reply_of (ss_mem st)) rs = [okValue, IntegerV 1, bulkArrayValue [''a''], okValue, IntegerV 2,
      BulkString (Some ''a''), IntegerV 2, bulkArrayValue [''z'', ''z'']]"
    by (auto simp del: slice_run.simps)
  from slices_behave_as_values [OF run] run rs show ?thesis by (auto simp: Let_def simp del: slice_run.simps value_run.simps)
qed

end
