(* ===== verification/Shard_Locks.thy ===== *)
theory Shard_Locks
  imports Snapshot_Store Active_Expiry
begin

text \<open>
  Operations of \<open>internal/db\<close> that take a shard lock more than once. Elsewhere such an operation is one step; here
  it is a sequence of critical sections, and other goroutines may change the store between them. \<open>Get\<close> looks
  up under the read lock and evicts under the write lock; \<open>Del\<close> and \<open>Exists\<close> lock key by key; \<open>Snapshot\<close> and the
  reaper lock shard by shard. Run without interference, the sections are the operations of the other theories.
\<close>

section \<open>Critical sections\<close>

text \<open>A section works on the store and on the local variables of its operation.\<close>

type_synonym 'l crit = "db \<times> 'l \<Rightarrow> db \<times> 'l"

text \<open>
  The sections run in order; before each and after the last one, others change the store by \<open>I\<close>. The trace has
  the store right before and right after each section.
\<close>

inductive interleaved :: "(db \<Rightarrow> db \<Rightarrow> bool) \<Rightarrow> 'l crit list \<Rightarrow> db \<times> 'l \<Rightarrow> (db \<times> db) list \<Rightarrow> db \<times> 'l \<Rightarrow> bool" for I where
  leave: "I d d' \<Longrightarrow> interleaved I [] (d, x) [] (d', x)"
| enter: "I d a \<Longrightarrow> f (a, x) = (b, y) \<Longrightarrow> interleaved I fs (b, y) tr p \<Longrightarrow> interleaved I (f # fs) (d, x) ((a, b) # tr) p"

inductive_cases leaveE: "interleaved I [] (d, x) tr p"
inductive_cases enterE: "interleaved I (f # fs) (d, x) tr p"

definition keeps_ok :: "(db \<Rightarrow> db \<Rightarrow> bool) \<Rightarrow> bool" where
  "keeps_ok I \<longleftrightarrow> (\<forall>d d'. I d d' \<longrightarrow> db_ok d \<longrightarrow> db_ok d')"

lemma keeps_okD: "keeps_ok I \<Longrightarrow> I d d' \<Longrightarrow> db_ok d \<Longrightarrow> db_ok d'"
  by (simp add: keeps_ok_def)

lemma keeps_ok_Set: "keeps_ok (\<lambda>x y. y = x \<or> y = db_Set x key v)"
  using db_Set_refines by (auto simp: keeps_ok_def)

definition sections :: "'l crit list \<Rightarrow> 'l crit" where
  "sections fs p = foldl (\<lambda>p f. f p) p fs"

lemma sections_simps [simp]: "sections [] p = p" "sections (f # fs) p = sections fs (f p)"
  by (simp_all add: sections_def)

lemma enter_section:
  "I d a \<Longrightarrow> interleaved I fs (f (a, x)) tr p \<Longrightarrow> interleaved I (f # fs) (d, x) ((a, fst (f (a, x))) # tr) p"
  by (cases "f (a, x)") (auto intro: interleaved.enter)

lemma two_sections:
  "I d a \<Longrightarrow> f (a, x) = (a', y) \<Longrightarrow> I a' b \<Longrightarrow> g (b, y) = (c, z) \<Longrightarrow> I c d' \<Longrightarrow>
     interleaved I [f, g] (d, x) [(a, a'), (b, c)] (d', z)"
  by (blast intro: interleaved.intros)

lemma undisturbed: "(\<And>d. I d d) \<Longrightarrow> \<exists>tr. interleaved I fs (d, x) tr (sections fs (d, x))"
proof (induction fs arbitrary: d x)
  case (Cons f fs)
  then obtain tr where "interleaved I fs (f (d, x)) tr (sections fs (f (d, x)))" by (metis surj_pair)
  with Cons.prems show ?case using enter_section [of I d d] by fastforce
qed (auto intro: interleaved.leave)

lemma uninterrupted: "interleaved (=) fs p tr p' \<Longrightarrow> p' = sections fs p"
  by (induction fs p tr p' rule: interleaved.induct) auto

subsection \<open>GET\<close>

datatype get_result = GetMiss | GetDead | GetWrong | GetFound string

definition get_lookup :: "env \<Rightarrow> string \<Rightarrow> get_result crit" where
  "get_lookup env key = (\<lambda>(d, _).
     (d, case map_of (shardFor d key) key of
           None \<Rightarrow> GetMiss
         | Some e \<Rightarrow>
             if expired (clock env 0) e then GetDead
             else if e_kind e \<noteq> kindString then GetWrong
             else GetFound (e_str e)))"

definition get_evict :: "env \<Rightarrow> string \<Rightarrow> get_result crit" where
  "get_evict env key = (\<lambda>(d, r). (if r = GetDead then fst (expireIfNeeded (later env 1) d key) else d, r))"

definition get_reply :: "get_result \<Rightarrow> db_error + string option" where
  "get_reply r =
     (case r of GetMiss \<Rightarrow> Inr None | GetDead \<Rightarrow> Inr None | GetWrong \<Rightarrow> Inl ErrWrongType | GetFound s \<Rightarrow> Inr (Some s))"

lemma Get_sections:
  "db_Get env d key = apsnd get_reply (sections [get_lookup env key, get_evict env key] (d, GetMiss))"
  by (auto simp: db_Get_def get_lookup_def get_evict_def get_reply_def split: option.splits)

subsection \<open>DEL and EXISTS\<close>

definition del_section :: "env \<Rightarrow> nat \<times> string \<Rightarrow> nat crit" where
  "del_section env = (\<lambda>(i, key) (d, removed).
     case liveEntry (clock env i) (shardFor d key) key of
       (sh, Some _) \<Rightarrow> (put_shard d key (AList.delete key sh), Suc removed)
     | (sh, None) \<Rightarrow> (put_shard d key sh, removed))"

definition exists_section :: "env \<Rightarrow> nat \<times> string \<Rightarrow> nat crit" where
  "exists_section env = (\<lambda>(i, key) (d, count).
     (d, case peek (clock env i) (shardFor d key) key of Some _ \<Rightarrow> Suc count | None \<Rightarrow> count))"

definition del_sections :: "env \<Rightarrow> string list \<Rightarrow> nat crit list" where
  "del_sections env keys = map (del_section env) (enumerate 0 keys)"

definition exists_sections :: "env \<Rightarrow> string list \<Rightarrow> nat crit list" where
  "exists_sections env keys = map (exists_section env) (enumerate 0 keys)"

lemma del_sections_later:
  "sections (map (del_section env) (enumerate (Suc i) keys)) p = sections (map (del_section (later env 1)) (enumerate i keys)) p"
  by (induction keys arbitrary: i p) (auto simp: del_section_def)

lemma del_sections_count:
  "sections (map (del_section env) (enumerate i keys)) (d, n + m) =
     apsnd (\<lambda>c. n + c) (sections (map (del_section env) (enumerate i keys)) (d, m))"
proof (induction keys arbitrary: i d m)
  case (Cons key keys)
  show ?case
    using Cons.IH [of "Suc i" _ m] Cons.IH [of "Suc i" _ "Suc m"]
    by (auto simp: del_section_def split: prod.splits option.splits)
qed simp

lemma Del_sections: "db_Del env d keys = sections (map (del_section env) (enumerate 0 keys)) (d, 0)"
proof (induction keys arbitrary: env d)
  case (Cons key keys)
  let ?fs = "map (del_section (later env 1)) (enumerate 0 keys)"
  obtain sh x where le: "liveEntry (clock env 0) (shardFor d key) key = (sh, x)" by fastforce
  have one: "sections ?fs (d', Suc 0) = apsnd Suc (sections ?fs (d', 0))" for d'
    using del_sections_count [of "later env 1" 0 keys d' 1 0] by simp
  have "sections (map (del_section env) (enumerate 0 (key # keys))) (d, 0) = sections ?fs (del_section env (0, key) (d, 0))"
    by (simp add: del_sections_later)
  also have "\<dots> = (case x of
      Some _ \<Rightarrow> apsnd Suc (sections ?fs (put_shard d key (AList.delete key sh), 0)) | None \<Rightarrow> sections ?fs (put_shard d key sh, 0))"
    by (simp add: del_section_def [of env] le one [simplified] split: option.split)
  finally show ?case using le
    by (simp add: Cons.IH apsnd_def map_prod_def split: option.split prod.split)
qed simp

lemma exists_sections_later:
  "sections (map (exists_section env) (enumerate (Suc i) keys)) p = sections (map (exists_section (later env 1)) (enumerate i keys)) p"
  by (induction keys arbitrary: i p) (auto simp: exists_section_def)

lemma Exists_sections:
  "sections (map (exists_section env) (enumerate 0 keys)) (d, n) = (d, n + db_Exists env d keys)"
proof (induction keys arbitrary: env n)
  case (Cons key keys)
  have "sections (map (exists_section env) (enumerate 0 (key # keys))) (d, n) =
      sections (map (exists_section (later env 1)) (enumerate 0 keys)) (exists_section env (0, key) (d, n))"
    by (simp add: exists_sections_later)
  then show ?case by (simp add: exists_section_def [of env] Cons.IH split: option.split)
qed simp

subsection \<open>Snapshot and the reaper\<close>

definition snapshot_section :: "env \<Rightarrow> int \<Rightarrow> nat \<Rightarrow> snapshot_entry list crit" where
  "snapshot_section env now i = (\<lambda>(d, out).
     (d, out @ snapshot_shard env now i 0 (go_range (iter env [i]) (shards d ! i))))"

definition snapshot_sections :: "env \<Rightarrow> snapshot_entry list crit list" where
  "snapshot_sections env = map (snapshot_section env (clock env 0)) [0..<shardCount]"

definition reap_section :: "env \<Rightarrow> int \<Rightarrow> nat \<Rightarrow> nat \<Rightarrow> (nat \<times> nat) crit" where
  "reap_section env now start i = (\<lambda>(d, sampled, exp).
     if sampled < activeExpirySample
     then let j = (start + i) mod shardCount
          in case sample_shard now (go_range (iter env [i]) (shards d ! j)) (shards d ! j) sampled exp of
               (sh, sampled', exp') \<Rightarrow> (d\<lparr>shards := (shards d)[j := sh]\<rparr>, sampled', exp')
     else (d, sampled, exp))"

lemma snapshot_sections_run:
  "sections (map (snapshot_section env now) is) (d, out) =
     (d, out @ concat (map (\<lambda>i. snapshot_shard env now i 0 (go_range (iter env [i]) (shards d ! i))) is))"
  by (induction "is" arbitrary: out) (simp_all add: snapshot_section_def)

lemma Snapshot_sections:
  "length (shards d) = shardCount \<Longrightarrow> sections (snapshot_sections env) (d, []) = (d, Snapshot env d)"
  by (simp add: snapshot_sections_def snapshot_sections_run Snapshot_def)

lemma reap_sections:
  "sections (map (reap_section env now start) is) (d, sampled, exp) = sample_shards env now start is d sampled exp"
proof (induction "is" arbitrary: d sampled exp)
  case (Cons i "is")
  have "sections (map (reap_section env now start) is) (d, s, x) = (d, s, x)" if "\<not> s < activeExpirySample" for s x
    using Cons.IH [of d s x] that by (cases "is") simp_all
  then show ?case using Cons.IH by (simp add: reap_section_def [of env now start i] Let_def split: prod.splits)
qed simp

section \<open>What expiry does to the store\<close>

text \<open>Removing keys that are dead at time \<open>t\<close>, and nothing else.\<close>

definition expires :: "int \<Rightarrow> db \<Rightarrow> db \<Rightarrow> bool" where
  "expires t d d' \<longleftrightarrow> (db_ok d \<longrightarrow> db_ok d' \<and> (\<exists>D \<subseteq> dead_in t (keyspace d). keyspace d' = keyspace d |` (- D)))"

lemma dead_mono: "now \<le> t \<Longrightarrow> dead_in now K \<subseteq> dead_in t K"
  unfolding dead_in_def dead_def by (auto split: option.splits intro: order_trans)

lemma expires_refl: "expires t d d"
  unfolding expires_def by (intro impI conjI exI [of _ "{}"]) auto

lemma expires_trans: "expires t d d1 \<Longrightarrow> expires t d1 d2 \<Longrightarrow> expires t d d2"
proof (unfold expires_def, intro impI)
  assume 1: "db_ok d \<longrightarrow> db_ok d1 \<and> (\<exists>D\<subseteq>dead_in t (keyspace d). keyspace d1 = keyspace d |` (- D))"
    and 2: "db_ok d1 \<longrightarrow> db_ok d2 \<and> (\<exists>D\<subseteq>dead_in t (keyspace d1). keyspace d2 = keyspace d1 |` (- D))" and "db_ok d"
  then obtain D E where D: "D \<subseteq> dead_in t (keyspace d)" "keyspace d1 = keyspace d |` (- D)"
    and E: "E \<subseteq> dead_in t (keyspace d1)" "keyspace d2 = keyspace d1 |` (- E)" "db_ok d2" by blast
  then have "D \<union> E \<subseteq> dead_in t (keyspace d)" "keyspace d2 = keyspace d |` (- (D \<union> E))"
    by (auto simp: dead_in_restrict)
  with E(3) show "db_ok d2 \<and> (\<exists>D \<subseteq> dead_in t (keyspace d). keyspace d2 = keyspace d |` (- D))" by blast
qed

text \<open>The sections that run without the write mutex: the reaper's and the eviction of \<open>Get\<close>.\<close>

inductive expiry_work :: "int \<Rightarrow> db \<Rightarrow> db \<Rightarrow> bool" for t where
  reap: "now \<le> t \<Longrightarrow> expiry_work t d (fst (reap_section env now start i (d, sampled, exp)))"
| evict: "clock env 0 \<le> t \<Longrightarrow> expiry_work t d (fst (expireIfNeeded env d key))"

lemma reap_expires:
  assumes "now \<le> t"
  shows "expires t d (fst (reap_section env now start i (d, sampled, exp)))"
proof (cases "sampled < 20")
  case False
  then show ?thesis by (simp add: reap_section_def expires_refl)
next
  case True
  let ?j = "(start + i) mod 32"
  obtain sh s x where ss: "sample_shard now (go_range (iter env [i]) (shards d ! ?j)) (shards d ! ?j) sampled exp = (sh, s, x)"
    by (metis prod_cases3)
  have out: "fst (reap_section env now start i (d, sampled, exp)) = d\<lparr>shards := (shards d)[?j := sh]\<rparr>"
    using True ss by (simp add: reap_section_def Let_def)
  show ?thesis unfolding expires_def out
  proof (intro impI)
    assume ok: "db_ok d"
    then have g: "gomap_ok (shards d ! ?j)" by (simp add: db_ok_def shard_ok_def)
    obtain D where D: "D \<subseteq> dead_keys now (shards d ! ?j)" "gomap_ok sh" "map_of sh = map_of (shards d ! ?j) |` (- D)"
      using sample_shard_spec [OF ss True g] g by (metis dead_keys_go_range distinct_map_go_range order_refl set_go_range)
    note dk = dead_keys_dead_in [OF ok, of ?j now]
    from remove_from_shard [OF ok _ D(2,3)] D(1) dk dead_mono [OF assms, of "keyspace d"]
    show "db_ok (d\<lparr>shards := (shards d)[?j := sh]\<rparr>) \<and>
        (\<exists>D\<subseteq>dead_in t (keyspace d). keyspace (d\<lparr>shards := (shards d)[?j := sh]\<rparr>) = keyspace d |` (- D))"
      by (intro conjI exI [of _ D]) auto
  qed
qed

lemma evict_keyspace:
  assumes "db_ok d"
  shows "db_ok (fst (expireIfNeeded env d key))"
    and "keyspace (fst (expireIfNeeded env d key)) = purge (clock env 0) key (keyspace d)"
  using assms
  by (cases "map_of (shardFor d key) key"; cases "expired (clock env 0) (the (map_of (shardFor d key) key))";
      simp add: expireIfNeeded_def purge_def live_keyspace peek_def keyspace_entry_ok put_delete keyspace_def fun_eq_iff)+

lemma evict_expires:
  assumes "clock env 0 \<le> t"
  shows "expires t d (fst (expireIfNeeded env d key))"
proof -
  let ?D = "if key \<in> dead_in (clock env 0) (keyspace d) then {key} else {}"
  have "purge (clock env 0) key (keyspace d) = keyspace d |` (- ?D)"
    by (auto simp: purge_def live_def dead_in_def fun_eq_iff restrict_map_def split: option.splits)
  moreover have "?D \<subseteq> dead_in t (keyspace d)" using dead_mono [OF assms, of "keyspace d"] by auto
  ultimately show ?thesis using evict_keyspace [of d env key] unfolding expires_def by (intro impI conjI exI [of _ ?D]) simp_all
qed

lemma expiry_work_expires: "(expiry_work t)\<^sup>*\<^sup>* d d' \<Longrightarrow> expires t d d'"
proof (induction rule: rtranclp_induct)
  case (step d1 d2)
  from step.hyps(2) have "expires t d1 d2" by cases (simp_all add: reap_expires evict_expires)
  with step.IH show ?case by (rule expires_trans)
qed (rule expires_refl)

section \<open>Snapshot while keys expire\<close>

text \<open>
  Each shard is copied from the store as it is then. Put together, the copies are a snapshot of one store that lies
  between the first and the last.
\<close>

lemma snapshot_section_apply:
  "snapshot_section env now i (d, out) = (d, out @ snapshot_shard env now i 0 (go_range (iter env [i]) (shards d ! i)))"
  by (simp add: snapshot_section_def)

lemma snapshot_trace:
  assumes "interleaved I (map (snapshot_section env now) is) (d, out) tr (d', out')"
    and "\<And>d. I d d" and "\<And>a b c. I a b \<Longrightarrow> I b c \<Longrightarrow> I a c" and "distinct is"
  shows "I d d' \<and> (\<exists>dd. (\<forall>i \<in> set is. I d (dd i)) \<and>
    out' = out @ concat (map (\<lambda>i. snapshot_shard env now i 0 (go_range (iter env [i]) (shards (dd i) ! i))) is))"
  using assms(1,4)
proof (induction "is" arbitrary: d out tr)
  case Nil
  from Nil(1) show ?case by (auto simp: elim: leaveE)
next
  case (Cons i "is")
  from Cons.prems(1) obtain a tr' where a: "I d a" and rest: "interleaved I (map (snapshot_section env now) is)
      (a, out @ snapshot_shard env now i 0 (go_range (iter env [i]) (shards a ! i))) tr' (d', out')"
    by (auto simp: snapshot_section_apply elim: enterE)
  from Cons.IH [OF rest] Cons.prems(2) obtain dd where dd: "I a d'" "\<forall>i \<in> set is. I a (dd i)"
    "out' = (out @ snapshot_shard env now i 0 (go_range (iter env [i]) (shards a ! i))) @
      concat (map (\<lambda>i. snapshot_shard env now i 0 (go_range (iter env [i]) (shards (dd i) ! i))) is)" by auto
  define ee where "ee = dd(i := a)"
  have ee: "ee i = a" "\<forall>j \<in> set is. ee j = dd j" using Cons.prems(2) by (auto simp: ee_def)
  then have same: "map (\<lambda>j. snapshot_shard env now j 0 (go_range (iter env [j]) (shards (ee j) ! j))) is =
      map (\<lambda>j. snapshot_shard env now j 0 (go_range (iter env [j]) (shards (dd j) ! j))) is"
    by (intro map_cong) simp_all
  have "I d d'" "\<forall>j \<in> set (i # is). I d (ee j)" using a dd(1,2) assms(3) ee by auto
  with dd(3) ee(1) same show ?case by (intro conjI exI [of _ ee]) (simp_all only: list.map concat.simps append_assoc)
qed

lemma patchwork:
  assumes "db_ok d" and "\<forall>i < 32. expires t d (dd i)" and "d1 = d\<lparr>shards := map (\<lambda>i. shards (dd i) ! i) [0..<32]\<rparr>"
  shows "expires t d d1" and "db_ok d1"
proof -
  have ok: "db_ok (dd i)" if "i < 32" for i using assms(1,2) that by (simp add: expires_def)
  then have "shard_ok i (shards (dd i) ! i)" if "i < 32" for i using that by (simp add: db_ok_def)
  then show d1: "db_ok d1" using assms(1) by (simp add: assms(3) db_ok_def)
  have ks: "keyspace d1 k = keyspace (dd (shardIndex k)) k" for k
    using ok [OF shardIndex_less] by (simp add: assms(3) keyspace_def shardFor_def)
  define D where "D = {k \<in> dom (keyspace d). keyspace d1 k = None}"
  have "keyspace d1 k = (if k \<in> D then None else keyspace d k) \<and> (k \<in> D \<longrightarrow> k \<in> dead_in t (keyspace d))" for k
  proof -
    obtain E where E: "E \<subseteq> dead_in t (keyspace d)" "keyspace (dd (shardIndex k)) = keyspace d |` (- E)"
      using assms(1,2) shardIndex_less [of k] unfolding expires_def by blast
    then show ?thesis by (cases "k \<in> E"; cases "keyspace d k") (auto simp: ks D_def)
  qed
  then have "keyspace d1 = keyspace d |` (- D)" "D \<subseteq> dead_in t (keyspace d)" by (auto simp: fun_eq_iff restrict_map_def)
  with d1 show "expires t d d1" unfolding expires_def by blast
qed

lemma Snapshot_interleaved:
  assumes ok: "db_ok d" and run: "interleaved (expiry_work t)\<^sup>*\<^sup>* (snapshot_sections env) (d, []) tr (d', out)"
  obtains d1 where "expires t d d1" and "db_ok d1" and "out = Snapshot env d1" and "expires t d d'"
proof -
  from snapshot_trace [OF run [unfolded snapshot_sections_def]] obtain dd where
    "(expiry_work t)\<^sup>*\<^sup>* d d'" "\<forall>i \<in> set [0..<32]. (expiry_work t)\<^sup>*\<^sup>* d (dd i)"
    and out: "out = concat (map (\<lambda>i. snapshot_shard env (clock env 0) i 0 (go_range (iter env [i]) (shards (dd i) ! i))) [0..<32])"
    by (auto intro: rtranclp_trans)
  then have ex: "\<forall>i < 32. expires t d (dd i)" "expires t d d'" by (simp_all add: expiry_work_expires)
  let ?d1 = "d\<lparr>shards := map (\<lambda>i. shards (dd i) ! i) [0..<32]\<rparr>"
  have "out = Snapshot env ?d1" unfolding out Snapshot_def by (intro arg_cong [of _ _ concat]) simp
  with patchwork [OF ok ex(1) refl] ex(2) show thesis by (intro that [of ?d1])
qed

section \<open>Counting under interference\<close>

lemma del_section_refines:
  assumes "db_ok d" and "del_section env (i, key) (d, n) = (d', n')"
  shows "db_ok d' \<and> keyspace d' = (keyspace d)(key := None) \<and>
    n' = n + (if live (clock env i) (keyspace d) key \<noteq> None then 1 else 0)"
  using db_ok_gomap [OF assms(1), of key]
  by (cases rule: liveEntry_cases [where t = "clock env i" and key = key])
    (use assms in \<open>auto simp: del_section_def live_keyspace put_delete put_absent\<close>)

lemma exists_section_refines:
  "exists_section env (i, key) (d, n) = (d, n + (if live (clock env i) (keyspace d) key \<noteq> None then 1 else 0))"
  by (simp add: exists_section_def live_keyspace split: option.split)

text \<open>The sections that found their key live, each at the time and in the store it ran in.\<close>

definition hits :: "env \<Rightarrow> nat \<Rightarrow> string list \<Rightarrow> (db \<times> db) list \<Rightarrow> nat set" where
  "hits env i keys tr = {j. j < length keys \<and> live (clock env (i + j)) (keyspace (fst (tr ! j))) (keys ! j) \<noteq> None}"

lemma hits_Nil [simp]: "hits env i [] tr = {}"
  by (simp add: hits_def)

lemma card_hits:
  "card (hits env i (key # keys) ((a, b) # tr)) =
     (if live (clock env i) (keyspace a) key \<noteq> None then 1 else 0) + card (hits env (Suc i) keys tr)"
  by (simp add: hits_def card_Suc_index)

lemma del_trace:
  assumes "interleaved I (map (del_section env) (enumerate i keys)) (d, n) tr (d', n')"
    and "keeps_ok I" and "db_ok d"
  shows "length tr = length keys \<and> n' = n + card (hits env i keys tr) \<and> db_ok d' \<and>
    (\<forall>j < length keys. keyspace (snd (tr ! j)) = (keyspace (fst (tr ! j)))(keys ! j := None))"
  using assms(1,3)
proof (induction keys arbitrary: i d n tr)
  case Nil
  from Nil(1) show ?case using Nil(2) keeps_okD [OF assms(2)] by (auto simp: hits_def elim: leaveE)
next
  case (Cons key keys)
  from Cons.prems(1) obtain a b m tr' where tr: "tr = (a, b) # tr'" and a: "I d a"
    and f: "del_section env (i, key) (a, n) = (b, m)"
    and rest: "interleaved I (map (del_section env) (enumerate (Suc i) keys)) (b, m) tr' (d', n')"
    by (auto elim: enterE)
  note b = del_section_refines [OF keeps_okD [OF assms(2) a Cons.prems(2)] f]
  with Cons.IH [OF rest] show ?case by (auto simp: tr card_hits nth_Cons split: nat.split)
qed

lemma exists_trace:
  assumes "interleaved I (map (exists_section env) (enumerate i keys)) (d, n) tr (d', n')"
  shows "length tr = length keys \<and> n' = n + card (hits env i keys tr) \<and> (\<forall>j < length keys. snd (tr ! j) = fst (tr ! j))"
  using assms
proof (induction keys arbitrary: i d n tr)
  case Nil
  from Nil(1) show ?case by (auto simp: hits_def elim: leaveE)
next
  case (Cons key keys)
  from Cons.prems(1) obtain a m tr' where tr: "tr = (a, a) # tr'"
    and m: "m = n + (if live (clock env i) (keyspace a) key \<noteq> None then 1 else 0)"
    and rest: "interleaved I (map (exists_section env) (enumerate (Suc i) keys)) (a, m) tr' (d', n')"
    by (auto simp: exists_section_refines elim: enterE)
  from Cons.IH [OF rest] show ?case by (auto simp: tr m card_hits nth_Cons split: nat.split)
qed

section \<open>Properties\<close>

lemma live_purge_same [simp]: "live t (purge t k K) = live t K"
  by (rule live_later_purge) simp

lemma get_lookup_reply: "db_ok d \<Longrightarrow> get_lookup env key (d, x) = (b, y) \<Longrightarrow> b = d \<and> get_reply y = spec_get (clock env 0) key (keyspace d)"
  using db_Get_refines [of d env key] by (auto simp: Get_sections get_evict_def get_lookup_def)

lemma get_evict_purges:
  assumes "db_ok d" and "get_evict env key (d, x) = (b, y)"
  shows "y = x \<and> db_ok b \<and> keyspace b = (if x = GetDead then purge (clock env 1) key (keyspace d) else keyspace d)"
  using assms evict_keyspace [OF assms(1), of "later env 1" key] by (auto simp: get_evict_def)

text \<open>
  C29: \<open>GET\<close> may lose the processor between its lookup under the read lock and the eviction under the
  write lock, and anything may happen to the key meanwhile. With nothing in between the two
  sections are \<open>Get\<close>. The answer is that of one store, the one the lookup saw.
  The eviction looks again: what is live when it runs stays, so a key that was set again or
  given a new deadline in between survives.
\<close>

theorem Get_race:
  assumes "interleaved I [get_lookup env key, get_evict env key] (d, GetMiss) tr (d', r)"
    and "keeps_ok I" and "db_ok d"
  shows "db_Get env d key = apsnd get_reply (sections [get_lookup env key, get_evict env key] (d, GetMiss)) \<and>
   (\<exists>a b c. tr = [(a, a), (b, c)] \<and> I d a \<and> I a b \<and> I c d' \<and> db_ok d' \<and>
    get_reply r = spec_get (clock env 0) key (keyspace a) \<and>
    keyspace c = (if r = GetDead then purge (clock env 1) key (keyspace b) else keyspace b) \<and>
    live (clock env 1) (keyspace c) = live (clock env 1) (keyspace b))"
proof -
  from assms(1) obtain a a' x b c where steps: "tr = [(a, a'), (b, c)]" "I d a" "get_lookup env key (a, GetMiss) = (a', x)"
    "I a' b" "get_evict env key (b, x) = (c, r)" "I c d'"
    by (auto elim!: enterE leaveE)
  note a = get_lookup_reply [OF keeps_okD [OF assms(2) steps(2) assms(3)] steps(3)]
  then have "db_ok b" using steps(2,4) keeps_okD [OF assms(2)] assms(3) by blast
  from get_evict_purges [OF this steps(5)] a steps keeps_okD [OF assms(2)] show ?thesis by (auto simp: Get_sections)
qed

theorem Get_race_witness:
  "\<exists>tr d' r. interleaved (\<lambda>x y. y = x \<or> y = db_Set x ''k'' ''w'') [get_lookup (at_time 5) ''k'', get_evict (at_time 5) ''k'']
     (fst (db_Expire (at_time 0) (db_Set db_New ''k'' ''v'') ''k'' 5), GetMiss) tr (d', r) \<and>
   get_reply r = Inr None \<and> keyspace d' ''k'' = Some (RString ''w'', None)"
proof -
  let ?I = "\<lambda>x y. y = x \<or> y = db_Set x ''k'' ''w''" and ?d = "fst (db_Expire (at_time 0) (db_Set db_New ''k'' ''v'') ''k'' 5)"
  let ?b = "db_Set ?d ''k'' ''w''" and ?fs = "[get_lookup (at_time 5) ''k'', get_evict (at_time 5) ''k'']"
  note ok = expiring_key [of "''k''" "''v''"]
  obtain x where x: "get_lookup (at_time 5) ''k'' (?d, GetMiss) = (?d, x)" by (simp add: get_lookup_def)
  obtain c r where c: "get_evict (at_time 5) ''k'' (?b, x) = (c, r)" by fastforce
  have run: "interleaved ?I ?fs (?d, GetMiss) [(?d, ?d), (?b, c)] (c, r)"
    by (rule two_sections, simp, rule x, simp, rule c, simp)
  have b: "keyspace ?b = [''k'' \<mapsto> (RString ''w'', None)]" using db_Set_refines [OF ok(1)] ok(2) by simp
  note race = Get_race [OF run keeps_ok_Set ok(1), THEN conjunct2]
  have "get_reply r = spec_get 5 ''k'' (keyspace ?d)" "live 5 (keyspace c) = live 5 (keyspace ?b)" using race by auto
  then have "get_reply r = Inr None" "live 5 (keyspace c) ''k'' = Some (RString ''w'', None)"
    unfolding b ok(2) by (simp_all add: spec_get_def live_def dead_def)
  with run show ?thesis by (auto simp: live_def split: option.splits if_splits)
qed

text \<open>
  C28: \<open>DEL\<close> and \<open>EXISTS\<close> lock key by key, so other clients may write between two keys. With nothing
  in between the sections are \<open>Del\<close> and \<open>Exists\<close>; with writes in between the count is still exact: it is the number of keys that were live in their own section. Each section of \<open>DEL\<close> takes
  its key out and nothing else, and \<open>EXISTS\<close> changes nothing.
\<close>

theorem Del_Exists_exact:
  assumes "keeps_ok I" and "db_ok d"
    and "interleaved I (del_sections env keys) (d, 0) tr (d', removed)"
    and "interleaved I (exists_sections env' keys') (d', 0) tr' (d'', present)"
  shows "db_Del env d keys = sections (del_sections env keys) (d, 0) \<and>
    (d, db_Exists env d keys) = sections (exists_sections env keys) (d, 0) \<and>
    length tr = length keys \<and> removed = card (hits env 0 keys tr) \<and>
    (\<forall>j < length keys. keyspace (snd (tr ! j)) = (keyspace (fst (tr ! j)))(keys ! j := None)) \<and>
    length tr' = length keys' \<and> present = card (hits env' 0 keys' tr') \<and>
    (\<forall>j < length keys'. snd (tr' ! j) = fst (tr' ! j))"
  using del_trace [OF assms(3) [unfolded del_sections_def] assms(1,2)]
    exists_trace [OF assms(4) [unfolded exists_sections_def]]
  by (simp add: Del_sections Exists_sections del_sections_def exists_sections_def)

theorem Del_Exists_exact_witness:
  "\<exists>tr d' tr' d''.
     interleaved (\<lambda>x y. y = x \<or> y = db_Set x ''y'' ''w'') (del_sections (at_time 0) [''x'', ''y'']) (db_Set db_New ''x'' ''v'', 0) tr (d', 2) \<and>
     interleaved (\<lambda>x y. y = x \<or> y = db_Set x ''y'' ''w'') (exists_sections (at_time 0) [''x'', ''y'']) (d', 0) tr' (d'', 1)"
proof -
  let ?I = "\<lambda>x y. y = x \<or> y = db_Set x ''y'' ''w''" and ?E = "at_time 0"
  let ?d = "db_Set db_New ''x'' ''v''"
  obtain b n where b: "del_section ?E (0, ''x'') (?d, 0) = (b, n)" by fastforce
  let ?a = "db_Set b ''y'' ''w''"
  obtain c m where c: "del_section ?E (1, ''y'') (?a, n) = (c, m)" by fastforce
  let ?e = "db_Set c ''y'' ''w''"
  obtain i j where i: "exists_section ?E (0, ''x'') (c, 0) = (c, i)" and j: "exists_section ?E (1, ''y'') (?e, i) = (?e, j)"
    by (simp add: exists_section_refines)
  have run: "interleaved ?I (del_sections ?E [''x'', ''y'']) (?d, 0) [(?d, b), (?a, c)] (c, m)"
    unfolding del_sections_def enumerate_simps list.map One_nat_def [symmetric] by (rule two_sections, simp, rule b, simp, rule c, simp)
  have run': "interleaved ?I (exists_sections ?E [''x'', ''y'']) (c, 0) [(c, c), (?e, ?e)] (?e, j)"
    unfolding exists_sections_def enumerate_simps list.map One_nat_def [symmetric] by (rule two_sections, simp, rule i, simp, rule j, simp)
  have d: "db_ok ?d" "keyspace ?d = [''x'' \<mapsto> (RString ''v'', None)]"
    using db_Set_refines [OF db_ok_New] by (simp_all add: keyspace_New)
  note exact = Del_Exists_exact [OF keeps_ok_Set d(1) run run', THEN conjunct2, THEN conjunct2]
  then have kb: "keyspace b = Map.empty" and kc: "keyspace c = (keyspace ?a)(''y'' := None)"
    by (simp_all add: d(2) All_less_Suc)
  have "db_ok b" using del_section_refines [OF d(1) b] by simp
  then have a: "db_ok ?a" "keyspace ?a = [''y'' \<mapsto> (RString ''w'', None)]" using db_Set_refines [of b] by (simp_all add: kb)
  then have "db_ok c" using del_section_refines [OF _ c] by simp
  then have e: "keyspace ?e = [''y'' \<mapsto> (RString ''w'', None)]" using db_Set_refines [of c] by (simp add: kc a(2))
  have "m = card (hits ?E 0 [''x'', ''y''] [(?d, b), (?a, c)])" "j = card (hits ?E 0 [''x'', ''y''] [(c, c), (?e, ?e)])"
    using exact by (simp_all only: list.size)
  then have "m = 2" "j = 1" by (simp_all add: card_hits d(2) a(2) kc e live_def dead_def)
  with run run' show ?thesis by blast
qed

text \<open>
  C19: \<open>Snapshot\<close> copies shard by shard while the reaper and the lazy evictions of other clients go on. With nothing
  in between the sections are \<open>Snapshot\<close>. If no time later
  than \<open>t\<close> is read meanwhile, the snapshot lists each key once, has only keys that were live
  when it started, with their values and deadlines, and misses no key that is still live at \<open>t\<close>; nor does the store.
\<close>

theorem Snapshot_under_expiry:
  assumes "db_ok d" and "interleaved (expiry_work t)\<^sup>*\<^sup>* (snapshot_sections env) (d, []) tr (d', out)"
    and "clock env 0 \<le> t"
  shows "sections (snapshot_sections env) (d, []) = (d, Snapshot env d) \<and>
    distinct (map sn_Key out) \<and> (\<forall>se \<in> set out. snap_ok se) \<and>
    map_of (map abs_snap out) \<subseteq>\<^sub>m live (clock env 0) (keyspace d) \<and>
    live t (map_of (map abs_snap out)) = live t (keyspace d) \<and> live t (keyspace d') = live t (keyspace d)"
proof -
  obtain d1 where d1: "expires t d d1" "db_ok d1" "out = Snapshot env d1" "expires t d d'"
    using Snapshot_interleaved [OF assms(1,2)] .
  then obtain D D' where D: "D \<subseteq> dead_in t (keyspace d)" "keyspace d1 = keyspace d |` (- D)"
    "D' \<subseteq> dead_in t (keyspace d)" "keyspace d' = keyspace d |` (- D')"
    using assms(1) unfolding expires_def by blast
  have "live (clock env 0) (keyspace d1) \<subseteq>\<^sub>m live (clock env 0) (keyspace d)"
    by (auto simp: D(2) map_le_def live_def restrict_map_def split: option.splits if_splits)
  moreover have "live t (live (clock env 0) (keyspace d1)) = live t (keyspace d1)"
    using assms(3) by (auto simp: live_def dead_def fun_eq_iff split: option.splits)
  ultimately show ?thesis
    using Snapshot_live [OF d1(2), of env] Snapshot_abs(2) [OF d1(2), of env] live_restrict_dead D Snapshot_sections [of d env] assms(1)
    unfolding d1(3) by (simp add: db_ok_def)
qed

theorem Snapshot_under_expiry_witness:
  "\<exists>tr d' out. interleaved (expiry_work 9)\<^sup>*\<^sup>* (snapshot_sections (at_time 4)) (db_Set db_New ''k'' ''v'', []) tr (d', out) \<and>
     map_of (map abs_snap out) = [''k'' \<mapsto> (RString ''v'', None)]"
proof -
  let ?d = "db_Set db_New ''k'' ''v''" and ?fs = "snapshot_sections (at_time 4)"
  have ok: "db_ok ?d" "keyspace ?d = [''k'' \<mapsto> (RString ''v'', None)]" using db_Set_refines [OF db_ok_New] by (simp_all add: keyspace_New)
  obtain tr d' out where run: "interleaved (expiry_work 9)\<^sup>*\<^sup>* ?fs (?d, []) tr (d', out)"
    using undisturbed [of "(expiry_work 9)\<^sup>*\<^sup>*" ?fs ?d "[]"] by (cases "sections ?fs (?d, [])") auto
  note out = Snapshot_under_expiry [OF ok(1) run, simplified ok(2)]
  let ?K = "[''k'' \<mapsto> (RString ''v'', None)]" and ?M = "map_of (map abs_snap out)"
  have K: "live t ?K = ?K" for t by (auto simp: live_def dead_def fun_eq_iff)
  have "?M \<subseteq>\<^sub>m ?K" "live 9 ?M = ?K" using out by (simp_all add: K)
  then have "?M = ?K" using live_le [of 9 ?M] by (simp add: map_le_antisym)
  with run show ?thesis by blast
qed

end
