(* ===== verification/Spec2Isabelle.thy ===== *)
theory Spec2Isabelle
  imports Deadlines Write_Path Metrics Subscriber_Stream Replica_Stream Transcript Slices Shard_Locks
begin

text \<open>
  A verification of mini-redis-go, a Redis-compatible in-memory store in Go: \<open>cmd/server\<close> starts a process,
  \<open>internal/server\<close> accepts connections and runs requests, \<open>internal/protocol\<close> is the RESP wire format,
  \<open>internal/cmd\<close> the commands, \<open>internal/db\<close> the sharded store with expiry and pub/sub,
  \<open>internal/persistence\<close> the append-only log with replay and compaction, \<open>internal/replication\<close> the stream
  from a primary to its replicas, \<open>internal/metrics\<close> the instrumentation. A request's bytes are decoded by the
  protocol, routed by the connection, executed by a command on the store and, when it is a successful write,
  appended to the log and queued for the replicas; the reply is encoded back.

  \<^bold>\<open>Conventions.\<close> A Go string or byte slice is a \<open>string\<close>. An \<open>int\<close> or \<open>int64\<close> is an \<open>int\<close> with the wrap-around
  (\<open>wrap64\<close>) or saturation (\<open>sat64\<close>) written out where the code computes; the shard hash is a \<open>32 word\<close>. A Go
  map is an association list (\<open>gomap\<close>), and the order of an iteration is an argument (\<open>choices\<close>). What an operation
  reads of the outside world is an argument: the clock and random numbers (\<open>env\<close>), the outcome of system
  calls (\<open>os_outcome\<close>, \<open>rewrite_outcome\<close>, \<open>listen_outcome\<close>), the outcome of socket writes (\<open>net\<close>). So a theorem
  that says nothing about them holds for all of them. Errors and panics are values. Store operations are
  \<open>db_X\<close>, handlers \<open>cmd_X\<close>; other names are those of the code.

  \<^bold>\<open>Theories and sources.\<close>
  \<^item> \<open>Prelude\<close>, \<open>GoLib\<close>, \<open>Disk\<close>, \<open>Mailbox\<close>: 64-bit integers, Go maps, \<open>strconv\<close> and \<open>strings\<close>, files with a page
    cache and a durable content, buffered channels.
  \<^item> \<open>Resp\<close>, \<open>Frame_Stream\<close>, \<open>Resp_Codec\<close>: \<open>protocol/{value,encoder,decoder}.go\<close>. The locale \<open>frame_codec\<close> is what
    the codec promises, \<open>stream_loop\<close> a client that consumes frames; log replay and the replica's stream are
    its instances. Round trip, framing, torn input, panics on oversized headers.
  \<^item> \<open>Shard\<close>, \<open>Typed_Entry\<close>, \<open>Store_Keys\<close>, \<open>Store_List\<close>, \<open>Store_Hash\<close>, \<open>Store_Set\<close>: \<open>db/{db,shard,entry}.go\<close> and the
    client side of \<open>db/expiry.go\<close>. \<open>keyspace\<close> abstracts the 32 shards to a map from keys to values with
    deadlines, \<open>live\<close> is what a client sees of it at a time; every operation refines a function of it. The
    locale \<open>typed_entry\<close> is the contract of \<open>listEntry\<close>, \<open>hashEntry\<close> and \<open>setEntry\<close>.
  \<^item> \<open>Slices\<close>: \<open>cloneBytes\<close>, \<open>cloneByteSlices\<close> and the string and list operations of \<open>db.go\<close> once more, on explicit
    backing arrays. It justifies that the rest of the development treats bytes as values.
  \<^item> \<open>Active_Expiry\<close>, \<open>Snapshot_Store\<close>, \<open>Broker\<close>: the reaper of \<open>db/expiry.go\<close>, \<open>db/snapshot.go\<close>, \<open>db/pubsub.go\<close>.
  \<^item> \<open>Shard_Locks\<close>: \<open>Get\<close>, \<open>Del\<close>, \<open>Exists\<close>, \<open>Snapshot\<close> and the reaper as sequences of critical sections under the
    shard locks, with other goroutines at work in between.
  \<^item> \<open>Commands\<close>, \<open>Command_Spec\<close>, \<open>Replies\<close>, \<open>State_Machine\<close>: \<open>internal/cmd\<close>, with an abstract executor for writes
    (\<open>exec\<close>) and answers for reads (\<open>answer\<close>), the types of replies, and the locale \<open>deterministic_machine\<close>
    that explains why replaying commands rebuilds a state.
  \<^item> \<open>Aof\<close>, \<open>Replay_Log\<close>, \<open>Rewrite_Log\<close>: \<open>internal/persistence\<close>, with a failure possible at every system call.
  \<^item> \<open>Replication\<close>, \<open>Replica_Stream\<close>: \<open>internal/replication\<close>, each end alone and both together.
  \<^item> \<open>Server\<close>, \<open>Durability\<close>, \<open>Write_Path\<close>: options, recovery, \<open>apply\<close> and compaction of \<open>server/server.go\<close>; the
    invariant that the log replays to the store; the interleavings of the write path under \<open>writeMu\<close>.
  \<^item> \<open>Power_Loss\<close>, \<open>Deadlines\<close>: the same server when the power is cut, when its disk fails for a while, and when its
    keys have deadlines.
  \<^item> \<open>Connection\<close>, \<open>Sessions\<close>, \<open>Transcript\<close>: \<open>server/{connection,pubsub,replication}.go\<close>; registrations of
    connections with the bus and the replicas; what a client receives for the bytes it sends.
  \<^item> \<open>Lifecycle\<close>: \<open>Serve\<close> as a state machine whose events are the moves of its goroutines.
  \<^item> \<open>Subscriber_Stream\<close>: \<open>deliver\<close> of \<open>server/pubsub.go\<close> split between receiving a message and writing it, and the
    stream of one subscriber from the publishers' requests to its socket.
  \<^item> \<open>Startup\<close>, \<open>Metrics\<close>: \<open>cmd/server/main.go\<close> and \<open>metrics/metrics.go\<close>.
  \<^item> This theory: the properties of the whole server.

  \<^bold>\<open>What is shown.\<close> Functional correctness of the commands against the abstract keyspace, from bytes in to bytes
  out; durability (restart, crash in the middle of an append, power loss under each fsync policy and after a clean shutdown,
  compaction and its failures); order (the log follows the store in every interleaving, a subscriber gets its messages
  in the order they were published); convergence of a replica; safety of
  shutdown and of the teardown of connections, and that a shutdown completes once the clients have left;
  termination of the reaper; the operations on several keys or shards while others interfere; and where the code does not do what it means to, theorems that
  exhibit it: a torn tail that swallows the next append, a failed reopening that loses appends, a failed append after which
  nothing is logged and everything acknowledged, expired data that a replay brings back, the race on the
  lock-free path, panics and overflows on client input, reply splitting, messages behind the acknowledgement of
  \<open>UNSUBSCRIBE\<close>, a shutdown blocked by an idle client.

  \<^bold>\<open>Durability and deadlines.\<close> The log records \<open>EXPIRE\<close> with its relative time, so replaying restarts deadlines; the
  theorems that equate a recovered keyspace with the old one are about commands without deadlines
  (\<open>ttl_free\<close>), and the compacted log, which writes remaining times, has a theorem of its own. With deadlines, the
  recovered keyspace has the same keys and values and later deadlines (\<open>postponed\<close>), provided no key was past its deadline
  when a request read the clock; a theorem shows that this proviso is needed.

  \<^bold>\<open>Bounds and termination.\<close> \<open>Decode\<close>, the replay loop, the replica's loop and \<open>handle_loop\<close> are total, by the length
  of the input. The draining loop of the reaper is a partial function, proved to return within one pass more than
  there are keys. \<open>RunActiveExpiry\<close>, \<open>RunReplica\<close> and \<open>life_run\<close> take the finite sequence of ticks, sessions or events
  up to the moment considered. \<open>maxAlloc\<close> is the 2^48 bytes the Go runtime can address on 64-bit platforms and
  \<open>value_size\<close> the 80 bytes of a \<open>protocol.Value\<close>: a longer \<open>make\<close> panics. No fuel is used.

  \<^bold>\<open>Not modelled.\<close> The Prometheus library and the HTTP server (the model records the calls made to them); the
  \<open>flag\<close> package and signal delivery (parsed flags and the cancellation are inputs); log output; the
  durability of directory entries; running out of memory below \<open>maxAlloc\<close>; the
  Go memory model inside one critical section (a section is atomic, and outside \<open>Shard_Locks\<close> so is a store
  operation); a replica's delivery goroutine that outlives its connection's handler (a subscriber's is in
  \<open>Subscriber_Stream\<close>); the depth of the goroutine stack, which nested arrays in the input can exhaust. Constants that only time a loop
  (\<open>autoRewriteInterval\<close>, \<open>replicaHeartbeatInterval\<close>, \<open>reconnectDelay\<close>) do not appear, since a tick is an event.
\<close>

section \<open>A server that starts with an empty log\<close>

definition started_with :: "FsyncMode \<Rightarrow> unicode \<Rightarrow> server" where
  "started_with mode u =
     fst (loadAOF u (\<lambda>_. at_time 0) True EOF all_well (the (NewMulti empty_disk 1 [WithAOF ''log'', WithFsync mode])))"

definition started :: "unicode \<Rightarrow> server" where
  "started u = started_with FsyncEverySec u"

lemma started_with_ok:
  "log_inv u (started_with mode u) []" "sv_aofPath (started_with mode u) = ''log''" "server_ok (started_with mode u)"
  "policy (started_with mode u) = Some mode" "synced (started_with mode u)"
proof -
  define s0 where "s0 = the (NewMulti empty_disk 1 [WithAOF ''log'', WithFsync mode])"
  have s: "sv_db s0 = db_New" "sv_aofPath s0 = ''log''" "sv_disk s0 = empty_disk" "sv_replicas s0 = NewReplicas" "sv_fsyncMode s0 = mode"
    by (simp_all add: s0_def NewMulti_def WithAOF_def WithFsync_def)
  obtain disk a where op: "Open all_well empty_disk ''log'' mode = (disk, Some a)"
    using Open_works [of all_well empty_disk "''log''" mode] by (auto simp: all_well_def)
  have "read_path empty_disk ''log'' = None" by (simp add: read_path_def empty_disk_def)
  with op s have st: "started_with mode u = s0\<lparr>sv_db := db_New, sv_disk := disk, sv_aof := Some a\<rparr>"
    unfolding started_with_def s0_def [symmetric] by (simp add: loadAOF_def Replay_def)
  show "sv_aofPath (started_with mode u) = ''log''" by (simp add: st s)
  note log = Open_ok [OF disk_ok_empty op]
  then show "log_inv u (started_with mode u) []"
    by (simp add: st s log_inv_def db_ok_New keyspace_New no_ttl_def read_path_def empty_disk_def)
  show "server_ok (started_with mode u)" by (simp add: server_ok_def st s db_ok_New replicas_ok_New)
  from log show "policy (started_with mode u) = Some mode" by (simp add: policy_def st)
  from op show "synced (started_with mode u)"
    by (auto simp: synced_def st s Open_def open_append_def empty_disk_def durable_path_def read_path_def split: if_splits)
qed

lemmas started_ok = started_with_ok(1-3) [where mode = FsyncEverySec, folded started_def]

lemma started_with_set:
  fixes u :: unicode and mode :: FsyncMode
  assumes "w_os w = all_well"
  defines "s \<equiv> fst (server_apply u w (started_with mode u) (set_req ''k'' ''v''))"
  shows "serving u (started_with mode u) s" and "keyspace (sv_db s) = [''k'' \<mapsto> (RString ''v'', None)]"
    and "sv_aofPath s = ''log''"
proof -
  have wk: "wire_ok (set_req ''k'' ''v'')" by (rule set_req_props) (simp_all add: maxAlloc_def)
  show "serving u (started_with mode u) s" unfolding s_def
    by (rule serving.request [OF wk set_req_props(2)]) (simp_all add: assms(1) all_well_def)
  have "db_ok (sv_db (started_with mode u))" "keyspace (sv_db (started_with mode u)) = Map.empty"
    using started_with_ok(1) [where mode = mode and u = u] by (simp_all add: log_inv_def)
  with Dispatch_set_req(2) show "keyspace (sv_db s) = [''k'' \<mapsto> (RString ''v'', None)]"
    by (simp add: s_def server_apply_reply)
  show "sv_aofPath s = ''log''"
    using started_with_ok(2) [where mode = mode and u = u] by (simp add: s_def server_apply_def split: prod.splits) (metis applyRecord_path fst_conv)
qed

lemmas started_set = started_with_set [where mode = FsyncEverySec, folded started_def]

text \<open>The same start seen through \<open>Serve\<close>, on one listener.\<close>

definition serving_life :: "unicode \<Rightarrow> life" where
  "serving_life u = \<lparr>lf_server = started u, lf_lns = 1, lf_cancelled = False, lf_closed = 0, lf_loops = [0], lf_conns = [],
     lf_next = 0, lf_tasks = [ExpiryTask, RewriteTask, HeartbeatTask], lf_pc = AcceptWait\<rparr>"

lemma Serve_started:
  fixes u :: unicode
  defines "s0 \<equiv> the (NewMulti empty_disk 1 [WithAOF ''log''])"
  shows "unserved s0" and "Serve u (\<lambda>_. at_time 0) True EOF all_well 1 s0 = Some (serving_life u)"
proof -
  have new: "NewMulti empty_disk 1 [WithAOF ''log''] = Some s0" by (simp add: s0_def NewMulti_def)
  from unserved_NewMulti [OF new] show "unserved s0" by simp
  have s: "sv_aofPath s0 = ''log''" "sv_primaryAddr s0 = []" "sv_metricsAddr s0 = []" "sv_disk s0 = empty_disk" "sv_db s0 = db_New"
    by (simp_all add: s0_def NewMulti_def WithAOF_def)
  have "read_path empty_disk ''log'' = None" by (simp add: read_path_def empty_disk_def)
  with s obtain disk a where ld: "loadAOF u (\<lambda>_. at_time 0) True EOF all_well s0 = (s0\<lparr>sv_db := db_New, sv_disk := disk, sv_aof := Some a\<rparr>, True)"
    using Open_works [of all_well empty_disk "''log''" "sv_fsyncMode s0"]
    by (auto simp: loadAOF_def Replay_def all_well_def)
  then have st: "started u = s0\<lparr>sv_db := db_New, sv_disk := disk, sv_aof := Some a\<rparr>"
    by (simp add: started_def started_with_def s0_def NewMulti_def WithFsync_def WithAOF_def)
  with ld s show "Serve u (\<lambda>_. at_time 0) True EOF all_well 1 s0 = Some (serving_life u)"
    by (simp add: Serve_def serving_life_def serve_tasks_def)
qed

lemma started_primary: "sv_primaryAddr (started u) = []"
  using Serve_started(2) [of u]
  by (auto simp: Serve_def serving_life_def serve_tasks_def split: prod.splits bool.splits if_splits)

lemma serve_set_req:
  assumes "sv_primaryAddr s = []"
  shows "\<exists>cs. serve u w (\<lambda>_. None) s (new_conn remote) (set_req k v) = (fst (server_apply u w s (set_req k v)), cs, True) \<and>
    cs_sub cs = None \<and> cs_replica cs = None"
proof -
  have "ToUpper u (commandName (set_req k v)) = ''SET''"
    by (simp add: set_req_def bulkCmd_def commandName_def val_defs write_name_upper writeCommands_def)
  with serve_data [of "new_conn remote" s "\<lambda>_. None" u "set_req k v" w] assms show ?thesis
    by (simp add: idle_def new_conn_def connectionCommands_def)
qed

section \<open>Durability of the whole server\<close>

text \<open>
  C1: Restarting recovers the store. Start from a server whose log describes its store (a fresh one does),
  run any sequence of requests without deadlines, compactions whether they succeed or fail before
  the reopening, background fsyncs, expiry ticks, heartbeats and replicas coming and going, with the
  appends succeeding. A new process that replays the log then has exactly the same keyspace.
\<close>

theorem restart_rebuilds_keyspace:
  assumes "(serving u)\<^sup>*\<^sup>* s0 s" and "log_inv u s0 cmds"
    and "sv_disk s1 = sv_disk s" and "sv_aofPath s1 = sv_aofPath s" and "sv_db s1 = db_New" and "o_open os"
  shows "\<exists>s'. loadAOF u envs True EOF os s1 = (s', True) \<and> keyspace (sv_db s') = keyspace (sv_db s)"
  by (rule restart_recovers [OF assms]) blast

theorem restart_rebuilds_keyspace_witness:
  "(let u = \<lparr>upper_table = id, lower_table = id\<rparr>; w = \<lparr>w_env = at_time 0, w_os = all_well, w_order = []\<rparr>;
        s = fst (server_apply u w (started u) (set_req ''k'' ''v''));
        s1 = the (NewMulti (sv_disk s) 1 [WithAOF ''log''])
    in \<exists>s'. loadAOF u (\<lambda>_. at_time 9) True EOF all_well s1 = (s', True) \<and>
       keyspace (sv_db s') = [''k'' \<mapsto> (RString ''v'', None)])"
proof -
  let ?u = "\<lparr>upper_table = id, lower_table = id\<rparr>" and ?w = "\<lparr>w_env = at_time 0, w_os = all_well, w_order = []\<rparr>"
  let ?s = "fst (server_apply ?u ?w (started ?u) (set_req ''k'' ''v''))"
  have w: "w_os ?w = all_well" by simp
  note st = started_set [OF w, of ?u]
  show ?thesis
    using restart_rebuilds_keyspace [OF r_into_rtranclp [of "serving ?u", OF st(1)] started_ok(1),
        of "the (NewMulti (sv_disk ?s) 1 [WithAOF ''log''])" all_well "\<lambda>_. at_time 9"] st(2,3)
    by (simp add: Let_def NewMulti_def WithAOF_def all_well_def)
qed







text \<open>
  C31: A log that failed keeps acknowledging. When the disk refuses a write in the middle of an append, the client
  still gets its \<open>OK\<close>, and after any further requests the next one is still answered as the store answers it, but nothing they
  write reaches the log any more: after a crash the server comes back with the keyspace it had before the failed append,
  without an error.
\<close>

theorem failed_log_still_acknowledges:
  assumes "log_inv u s cmds" and "wire_ok r" and "IsWrite u (commandName r)"
    and "\<not> is_error (fst (snd (server_apply u w s r)))" and "o_write (w_os w) = Some n" and "n < length (fst (Encode r))"
    and "s2 = serve_all u reqs (fst (server_apply u w s r))"
    and "sv_disk s1 = sv_disk s2" and "sv_aofPath s1 = sv_aofPath s2" and "sv_db s1 = db_New" and "o_open os"
  shows "(\<forall>w' r'. fst (snd (server_apply u w' s2 r')) = snd (Dispatch u (w_env w') (sv_db s2) r')) \<and>
    (\<exists>s'. loadAOF u envs True EOF os s1 = (s', True) \<and> keyspace (sv_db s') = keyspace (sv_db s))"
  by (rule failed_append_recovers [OF assms, of envs]) (simp add: server_apply_reply)

theorem failed_log_still_acknowledges_witness:
  "(let u = \<lparr>upper_table = id, lower_table = id\<rparr>; w = \<lparr>w_env = at_time 0, w_os = all_well, w_order = []\<rparr>;
        r = server_apply u (w\<lparr>w_os := all_well\<lparr>o_write := Some 2\<rparr>\<rparr>) (started u) (set_req ''k'' ''v'');
        s2 = serve_all u [(w, set_req ''k'' ''x'')] (fst r)
    in \<not> is_error (fst (snd r)) \<and>
       (\<exists>s'. loadAOF u (\<lambda>_. at_time 9) True EOF all_well (the (NewMulti (sv_disk s2) 1 [WithAOF (sv_aofPath s2)])) = (s', True) \<and>
          keyspace (sv_db s') = Map.empty))"
proof -
  let ?u = "\<lparr>upper_table = id, lower_table = id\<rparr>" and ?w = "\<lparr>w_env = at_time 0, w_os = all_well, w_order = []\<rparr>"
  let ?f = "?w\<lparr>w_os := all_well\<lparr>o_write := Some 2\<rparr>\<rparr>" and ?r = "set_req ''k'' ''v''"
  let ?s2 = "serve_all ?u [(?w, set_req ''k'' ''x'')] (fst (server_apply ?u ?f (started ?u) ?r))"
  have wk: "wire_ok ?r" by (rule set_req_props) (simp_all add: maxAlloc_def)
  have db: "db_ok (sv_db (started ?u))" "keyspace (sv_db (started ?u)) = Map.empty"
    using started_ok(1) [of ?u] by (simp_all add: log_inv_def)
  have ok: "\<not> is_error (fst (snd (server_apply ?u ?f (started ?u) ?r)))"
    using Dispatch_set_req [of "sv_db (started ?u)"] db by (simp add: server_apply_reply val_defs)
  have "2 < length (fst (Encode ?r))" by (simp add: set_req_def bulkCmd_def)
  from failed_log_still_acknowledges [OF started_ok(1) wk set_req_props(1) ok _ this refl, where reqs = "[(?w, set_req ''k'' ''x'')]" and
      ?s1.0 = "the (NewMulti (sv_disk ?s2) 1 [WithAOF (sv_aofPath ?s2)])" and os = all_well and envs = "\<lambda>_. at_time 9"] ok db(2)
  show ?thesis by (simp add: Let_def NewMulti_def WithAOF_def all_well_def)
qed

text \<open>
  C7: Restarting with deadlines. Run any requests, those that set deadlines included, such that no key is past its deadline
  when a request reads the clock, and let the replay's clock be ahead of the original one by a lead that does not grow
  from one command of the log to the next (the replay is not slower than the original run). The recovered store then has the
  same keys and values, the same keys have deadlines, and each deadline has moved by at least the final lead.
\<close>

theorem restart_postpones_deadlines:
  assumes "log_inv u s0 cmds" and "log_works reqs" and "unexpired u reqs s0"
    and "paced lead envs (length cmds) (map fst (journal u reqs s0))" and "s = serve_all u reqs s0"
    and "sv_disk s1 = sv_disk s" and "sv_aofPath s1 = sv_aofPath s" and "sv_db s1 = db_New" and "o_open os"
  shows "\<exists>s'. loadAOF u envs True EOF os s1 = (s', True) \<and>
    postponed (lead (length cmds + length (journal u reqs s0))) (keyspace (sv_db s)) (keyspace (sv_db s'))"
  by (rule restart_postponed [OF assms]) blast

theorem restart_postpones_deadlines_witness:
  "(let u = \<lparr>upper_table = id, lower_table = id\<rparr>;
        s = serve_all u (take 2 (push_twice 0 0 ''k'' ''a'' ''b'')) (started u)
    in keyspace (sv_db s) ''k'' = Some (RList [''a''], Some Second) \<and>
       (\<exists>s'. loadAOF u (\<lambda>_. at_time 9) True EOF all_well (the (NewMulti (sv_disk s) 1 [WithAOF (sv_aofPath s)])) = (s', True) \<and>
          postponed 9 (keyspace (sv_db s)) (keyspace (sv_db s'))))"
proof -
  let ?u = "\<lparr>upper_table = id, lower_table = id\<rparr>" and ?reqs = "take 2 (push_twice 0 0 ''k'' ''a'' ''b'')"
  let ?w = "all_well_at 0" and ?p = "bulkCmd ''RPUSH'' [''k'', ''a'']" and ?e = "bulkCmd ''EXPIRE'' [''k'', ''1'']"
  have reqs: "?reqs = [(?w, ?p), (?w, ?e)]" by (simp add: push_twice_def)
  define s1 where "s1 = fst (server_apply ?u ?w (started ?u) ?p)"
  have w: "w_env ?w = at_time 0" "o_write (w_os ?w) = None" "o_sync (w_os ?w)" by (simp_all add: all_well_at_def all_well_def)
  have s0: "db_ok (sv_db (started ?u))" "keyspace (sv_db (started ?u)) = Map.empty"
    using started_ok(1) [of ?u] by (simp_all add: log_inv_def)
  have 1: "db_ok (sv_db s1)" "keyspace (sv_db s1) = [''k'' \<mapsto> (RList [''a''], None)]"
    using pushes [OF s0(1), where u = ?u and env = "at_time 0" and k = "''k''" and x = "''a''"] s0(2)
    by (simp_all add: s1_def server_apply_reply w live_def)
  have 2: "keyspace (sv_db (fst (server_apply ?u ?w s1 ?e))) = [''k'' \<mapsto> (RList [''a''], Some Second)]"
    using expires_in_a_second [OF 1(1), where u = ?u and env = "at_time 0" and k = "''k''" and v = "RList [''a'']" and y = None] 1(2)
    by (simp add: server_apply_reply w live_def dead_def)
  have "log_works ?reqs" using w by (simp add: reqs bulkCmd_def maxAlloc_def log_works_def)
  moreover have "unexpired ?u ?reqs (started ?u)"
    using s0(2) 1(2) by (simp add: reqs all_live_def w fun_eq_iff live_def dead_def flip: s1_def)
  moreover have "paced (\<lambda>_. 9) (\<lambda>_. at_time 9) (length []) (map fst (journal ?u ?reqs (started ?u)))"
    by (auto simp: reqs paced_def w logged_def nth_Cons split: nat.split)
  ultimately show ?thesis
    using restart_postpones_deadlines [OF started_ok(1) _ _ _ refl, where reqs = ?reqs and lead = "\<lambda>_. 9" and envs = "\<lambda>_. at_time 9"
        and ?s1.0 = "the (NewMulti (sv_disk (serve_all ?u ?reqs (started ?u))) 1 [WithAOF (sv_aofPath (serve_all ?u ?reqs (started ?u)))])"
        and os = all_well and u = ?u] 2
    by (simp add: Let_def NewMulti_def WithAOF_def all_well_def reqs flip: s1_def)
qed

text \<open>
  C32: Expired data comes back. Push to a new list, let it expire after a second, and push again: the store answers a list
  with the second element only, without a deadline. Restart at any time: the replay pushes both before the second has
  passed on its own clock, so the list has both elements again, and the new data now has a deadline.
\<close>

theorem replay_resurrects_expired:
  assumes "log_inv u s0 cmds" and "keyspace (sv_db s0) k = None" and "t0 + Second \<le> t1"
    and "\<forall>r \<in> snd ` set (push_twice t0 t1 k a b). wire_ok r" and "s = serve_all u (push_twice t0 t1 k a b) s0"
    and "sv_disk s1 = sv_disk s" and "sv_aofPath s1 = sv_aofPath s" and "sv_db s1 = db_New" and "o_open os"
  shows "keyspace (sv_db s) k = Some (RList [b], None) \<and>
    (\<exists>s'. loadAOF u (\<lambda>_. at_time t2) True EOF os s1 = (s', True) \<and>
       keyspace (sv_db s') k = Some (RList [a, b], Some (t2 + Second)))"
  by (rule expired_data_returns [OF assms, of t2]) blast

theorem replay_resurrects_expired_witness:
  "(let u = \<lparr>upper_table = id, lower_table = id\<rparr>;
        s = serve_all u (push_twice 0 (2 * Second) ''k'' ''a'' ''b'') (started u)
    in keyspace (sv_db s) ''k'' = Some (RList [''b''], None) \<and>
       (\<exists>s'. loadAOF u (\<lambda>_. at_time 9) True EOF all_well (the (NewMulti (sv_disk s) 1 [WithAOF (sv_aofPath s)])) = (s', True) \<and>
          keyspace (sv_db s') ''k'' = Some (RList [''a'', ''b''], Some (9 + Second))))"
proof -
  let ?u = "\<lparr>upper_table = id, lower_table = id\<rparr>" and ?reqs = "push_twice 0 (2 * Second) ''k'' ''a'' ''b''"
  let ?s = "serve_all ?u ?reqs (started ?u)"
  have "keyspace (sv_db (started ?u)) ''k'' = None" using started_ok(1) [of ?u] by (simp add: log_inv_def)
  moreover have "\<forall>r \<in> snd ` set ?reqs. wire_ok r" by (simp add: push_twice_def bulkCmd_def maxAlloc_def)
  ultimately show ?thesis
    using replay_resurrects_expired [OF started_ok(1) _ _ _ refl, where u = ?u and k = "''k''" and ?t0.0 = 0 and ?t1.0 = "2 * Second"
        and a = "''a''" and b = "''b''" and os = all_well and ?t2.0 = 9
        and ?s1.0 = "the (NewMulti (sv_disk ?s) 1 [WithAOF (sv_aofPath ?s)])"]
    by (simp add: Let_def NewMulti_def WithAOF_def all_well_def)
qed



text \<open>
  C35: The lock-free path races with a replica that joins. Without a log, a write that has passed the check
  for replicas before one joined can be dispatched after a later write that was propagated: the
  primary ends with the first value, while the only frame in the replica's queue is the second, so
  the replica holds a different value for good.
\<close>

theorem unlocked_write_overtakes:
  assumes "db_ok (sv_db (sy_server S))" and "replicas_ok (sv_replicas (sy_server S))"
    and "sy_thread S = (\<lambda>_. Idle)" and "sy_writeMu S = None"
    and "sv_aof (sy_server S) = None" and "reps (sv_replicas (sy_server S)) = []"
    and "wire_ok (set_req k a)" and "wire_ok (set_req k b)"
  shows "\<exists>S' i. (thread_step u)\<^sup>*\<^sup>* S S' \<and> sy_thread S' = (\<lambda>_. Idle) \<and> sy_writeMu S' = None \<and>
    keyspace (sv_db (sy_server S')) = (keyspace (sv_db (sy_server S)))(k \<mapsto> (RString a, None)) \<and>
    i \<in> feeds (sv_replicas (sy_server S')) \<and>
    queues (sv_replicas (sy_server S')) i = Some \<lparr>buffer = [fst (Encode (set_req k b))], closed = False\<rparr>"
  by (rule overtaking [OF assms, of u]) blast

theorem unlocked_write_overtakes_witness:
  "(let u = \<lparr>upper_table = id, lower_table = id\<rparr>;
        S = \<lparr>sy_server = the (NewMulti empty_disk 1 []), sy_thread = (\<lambda>_. Idle), sy_writeMu = None\<rparr>
    in \<exists>S' i. (thread_step u)\<^sup>*\<^sup>* S S' \<and> keyspace (sv_db (sy_server S')) = [''k'' \<mapsto> (RString ''a'', None)] \<and>
       queues (sv_replicas (sy_server S')) i = Some \<lparr>buffer = [fst (Encode (set_req ''k'' ''b''))], closed = False\<rparr>)"
proof -
  let ?u = "\<lparr>upper_table = id, lower_table = id\<rparr>"
  let ?S = "\<lparr>sy_server = the (NewMulti empty_disk 1 []), sy_thread = (\<lambda>_. Idle), sy_writeMu = None\<rparr>"
  have wk: "wire_ok (set_req ''k'' ''a'')" "wire_ok (set_req ''k'' ''b'')"
    by (rule set_req_props; simp add: maxAlloc_def)+
  have s: "sv_db (the (NewMulti empty_disk 1 [])) = db_New" "sv_replicas (the (NewMulti empty_disk 1 [])) = NewReplicas"
    "sv_aof (the (NewMulti empty_disk 1 [])) = None" by (simp_all add: NewMulti_def)
  have "reps NewReplicas = []" by (simp add: NewReplicas_def)
  then have "\<exists>S' i. (thread_step ?u)\<^sup>*\<^sup>* ?S S' \<and> sy_thread S' = (\<lambda>_. Idle) \<and> sy_writeMu S' = None \<and>
    keyspace (sv_db (sy_server S')) = (keyspace (sv_db (sy_server ?S)))(''k'' \<mapsto> (RString ''a'', None)) \<and>
    i \<in> feeds (sv_replicas (sy_server S')) \<and>
    queues (sv_replicas (sy_server S')) i = Some \<lparr>buffer = [fst (Encode (set_req ''k'' ''b''))], closed = False\<rparr>"
    by (intro unlocked_write_overtakes wk) (simp_all only: s db_ok_New replicas_ok_New system.simps)
  then show ?thesis unfolding Let_def system.simps s keyspace_New by blast
qed

end
